(* ===== verification/Nomad_Prelude.thy ===== *)
theory Nomad_Prelude
  imports Main "HOL-Library.Multiset"
begin

text \<open>
  The prelude of the development: the collections the component proofs draw on, the unsigned
  64-bit counters of the Raft code, facts on consecutive index lists and on sorted lists, and three
  generic interfaces that later theories interpret: a machine with an invariant, a refinement of one
  machine by another, and a family of
  quorums any two of which meet.
\<close>

section \<open>Collections\<close>

named_theorems step_defs "definitions that a step or a handler unfolds to"
named_theorems frame "fields an operation leaves unchanged"
named_theorems wf_keep "operations that keep a well-formedness invariant"

section \<open>Unsigned 64-bit counters\<close>

text \<open>
  A Rust \<open>u64\<close> is a natural number below \<open>2 ^ 64\<close>. Terms and log indices are only compared,
  copied and incremented, so they are kept as \<^typ>\<open>nat\<close>, with the wrap-around of \<open>+ 1\<close> (the
  release profile of the crate sets no \<open>overflow-checks\<close>) written out in \<open>u64_inc\<close>.
  \<open>saturating_sub(1)\<close> is the truncating subtraction of \<^typ>\<open>nat\<close>.
\<close>

type_synonym u64 = nat
type_synonym node_id = u64

definition u64_max :: u64 where
  "u64_max = 18446744073709551615"

text \<open>An \<open>Instant\<close> is a reading of the monotonic clock in nanoseconds.\<close>

type_synonym instant = nat

definition u64_inc :: "u64 \<Rightarrow> u64" where
  "u64_inc x = (x + 1) mod 18446744073709551616"

lemma u64_inc_small: "x < u64_max \<Longrightarrow> u64_inc x = Suc x"
  by (simp add: u64_inc_def u64_max_def)

lemma u64_inc_wraps: "u64_inc u64_max = 0"
  by (simp add: u64_inc_def u64_max_def)

lemma u64_inc_bound: "u64_inc x \<le> u64_max"
proof -
  have "u64_inc x < 18446744073709551616"
    unfolding u64_inc_def by (rule mod_less_divisor) simp
  then show ?thesis by (simp add: u64_max_def)
qed

section \<open>Consecutive lists\<close>

lemma filter_ge_upt: "filter (\<lambda>i. k \<le> i) [m..<n] = [max m k..<n]"
  by (induction n) (auto simp: max_def)

lemma filter_map_key:
  "filter (\<lambda>x. P (f x)) xs = map snd (filter (\<lambda>(k, x). P k) (zip (map f xs) xs))"
  by (induction xs) auto

lemma upt_filter_drop:
  assumes "map f xs = [m..<m + length xs]" and "m \<le> k"
  shows "filter (\<lambda>x. k \<le> f x) xs = drop (k - m) xs"
  using assms
proof (induction xs arbitrary: m)
  case Nil
  then show ?case by simp
next
  case (Cons x xs)
  from Cons.prems(1) have x: "f x = m" and tl: "map f xs = [Suc m..<Suc m + length xs]"
    by (simp_all add: upt_conv_Cons del: upt_Suc)
  show ?case
  proof (cases "k = m")
    case True
    have "\<forall>y \<in> set xs. m \<le> f y"
    proof
      fix y assume "y \<in> set xs"
      then have "f y \<in> set (map f xs)" by simp
      then show "m \<le> f y" unfolding tl by (auto simp del: upt_Suc)
    qed
    with True x show ?thesis by simp
  next
    case False
    with Cons.prems(2) have "Suc m \<le> k" by simp
    with Cons.IH [OF tl this] x show ?thesis by (simp add: drop_Cons')
  qed
qed

lemma upt_find_nth:
  assumes "map f xs = [m..<m + length xs]" and "m \<le> k" and "k < m + length xs"
  shows "find (\<lambda>x. f x = k) xs = Some (xs ! (k - m))"
  using assms
proof (induction xs arbitrary: m)
  case Nil
  then show ?case by simp
next
  case (Cons x xs)
  from Cons.prems(1) have x: "f x = m" and tl: "map f xs = [Suc m..<Suc m + length xs]"
    by (simp_all add: upt_conv_Cons del: upt_Suc)
  show ?case
  proof (cases "k = m")
    case True
    with x show ?thesis by simp
  next
    case False
    with Cons.prems(2,3) have "Suc m \<le> k" and "k < Suc m + length xs" by simp_all
    with Cons.IH [OF tl this] x False show ?thesis by (simp add: nth_Cons')
  qed
qed

section \<open>Order statistics of sorted lists\<close>

text \<open>
  In a list sorted upwards, the element at position \<open>k\<close> is a lower bound of itself and of all
  that follow: at least \<open>length xs - k\<close> elements are as large.
\<close>

lemma sorted_count_ge:
  fixes xs :: "'a::linorder list"
  assumes "sorted xs" and "k < length xs"
  shows "length xs - k \<le> length (filter (\<lambda>x. xs ! k \<le> x) xs)"
proof -
  have "\<forall>x \<in> set (drop k xs). xs ! k \<le> x"
    using assms by (auto simp: in_set_conv_nth intro!: sorted_nth_mono)
  then have "filter (\<lambda>x. xs ! k \<le> x) (drop k xs) = drop k xs"
    by simp
  moreover have "filter (\<lambda>x. xs ! k \<le> x) xs
      = filter (\<lambda>x. xs ! k \<le> x) (take k xs) @ filter (\<lambda>x. xs ! k \<le> x) (drop k xs)"
    by (simp flip: filter_append)
  ultimately show ?thesis by simp
qed

lemma length_filter_mset_cong: "mset xs = mset ys \<Longrightarrow> length (filter P xs) = length (filter P ys)"
  by (metis mset_filter size_mset)

section \<open>Minimum and maximum by a key\<close>

text \<open>\<open>Iterator::min_by_key\<close> takes the first of several minima, \<open>max_by_key\<close> the last maximum.\<close>

fun min_by_key :: "('a \<Rightarrow> 'b::linorder) \<Rightarrow> 'a list \<Rightarrow> 'a option" where
  "min_by_key f [] = None"
| "min_by_key f (x # xs) =
     (case min_by_key f xs of None \<Rightarrow> Some x | Some y \<Rightarrow> if f x \<le> f y then Some x else Some y)"

fun max_by_key :: "('a \<Rightarrow> 'b::linorder) \<Rightarrow> 'a list \<Rightarrow> 'a option" where
  "max_by_key f [] = None"
| "max_by_key f (x # xs) =
     (case max_by_key f xs of None \<Rightarrow> Some x | Some y \<Rightarrow> if f y < f x then Some x else Some y)"

lemma min_by_key_None [simp]: "min_by_key f xs = None \<longleftrightarrow> xs = []"
  by (cases xs) (auto split: option.splits if_splits)

lemma max_by_key_None [simp]: "max_by_key f xs = None \<longleftrightarrow> xs = []"
  by (cases xs) (auto split: option.splits if_splits)

lemma min_by_key_Some: "min_by_key f xs = Some x \<Longrightarrow> x \<in> set xs \<and> (\<forall>y \<in> set xs. f x \<le> f y)"
  by (induction xs arbitrary: x) (fastforce split: option.splits if_splits)+

lemma max_by_key_Some: "max_by_key f xs = Some x \<Longrightarrow> x \<in> set xs \<and> (\<forall>y \<in> set xs. f y \<le> f x)"
  by (induction xs arbitrary: x) (fastforce split: option.splits if_splits)+

lemma those_map_Some: "(\<And>x. x \<in> set xs \<Longrightarrow> f x = Some (g x)) \<Longrightarrow> those (map f xs) = Some (map g xs)"
  by (induction xs) auto

section \<open>Machines with an invariant\<close>

text \<open>
  A component whose operations are a step function on its state, with an invariant that every
  admitted operation keeps. The operation may be admitted only in some states (\<open>ok\<close>).
\<close>

locale machine =
  fixes step :: "'s \<Rightarrow> 'e \<Rightarrow> 's"
    and ok :: "'s \<Rightarrow> 'e \<Rightarrow> bool"
    and inv :: "'s \<Rightarrow> bool"
  assumes inv_step: "inv s \<Longrightarrow> ok s e \<Longrightarrow> inv (step s e)"
begin

primrec run :: "'s \<Rightarrow> 'e list \<Rightarrow> 's" where
  "run s [] = s"
| "run s (e # es) = run (step s e) es"

primrec admitted :: "'s \<Rightarrow> 'e list \<Rightarrow> bool" where
  "admitted s [] = True"
| "admitted s (e # es) = (ok s e \<and> admitted (step s e) es)"

lemma run_append: "run s (es @ fs) = run (run s es) fs"
  by (induction es arbitrary: s) auto

lemma run_foldl: "run s es = foldl step s es"
  by (induction es arbitrary: s) auto

lemma inv_run: "inv s \<Longrightarrow> admitted s es \<Longrightarrow> inv (run s es)"
  by (induction es arbitrary: s) (auto intro: inv_step)

lemma inv_foldl: "inv s \<Longrightarrow> admitted s es \<Longrightarrow> inv (foldl step s es)"
  using inv_run by (simp add: run_foldl)

end

section \<open>Refinement\<close>

text \<open>
  A concrete machine whose steps may fail, related to an abstract one whose steps do not: every
  concrete run that returns ends in a state related to the end of the abstract run, and it returns
  if every step does.
\<close>

locale refinement =
  fixes cstep :: "'c \<Rightarrow> 'e \<Rightarrow> 'c option"
    and astep :: "'a \<Rightarrow> 'e \<Rightarrow> 'a"
    and ok :: "'a \<Rightarrow> 'e \<Rightarrow> bool"
    and rel :: "'c \<Rightarrow> 'a \<Rightarrow> bool"
  assumes sim: "rel c a \<Longrightarrow> ok a e \<Longrightarrow> cstep c e = Some c' \<Longrightarrow> rel c' (astep a e)"
begin

primrec crun :: "'c \<Rightarrow> 'e list \<Rightarrow> 'c option" where
  "crun c [] = Some c"
| "crun c (e # es) = Option.bind (cstep c e) (\<lambda>c. crun c es)"

primrec admitted :: "'a \<Rightarrow> 'e list \<Rightarrow> bool" where
  "admitted a [] = True"
| "admitted a (e # es) = (ok a e \<and> admitted (astep a e) es)"

lemma sim_run: "rel c a \<Longrightarrow> admitted a es \<Longrightarrow> crun c es = Some c' \<Longrightarrow> rel c' (foldl astep a es)"
  by (induction es arbitrary: c a) (auto simp: Option.bind_eq_Some_conv dest: sim)

lemma run_returns:
  assumes "\<And>c e. live c \<Longrightarrow> \<exists>c'. cstep c e = Some c' \<and> live c'" and "live c"
  shows "\<exists>c'. crun c es = Some c' \<and> live c'"
  using assms(2)
proof (induction es arbitrary: c)
  case (Cons e es)
  from assms(1) [OF Cons.prems, of e] obtain d where "cstep c e = Some d" and "live d" by blast
  with Cons.IH [of d] show ?case by simp
qed simp

end

section \<open>Quorums\<close>

text \<open>
  Any two quorums over the same members share one. This is what the vote count and the commit
  rule of the Raft code rely on.
\<close>

locale quorums =
  fixes members :: "'n set"
    and quorum :: "'n set \<Rightarrow> bool"
  assumes quorum_meet: "S \<subseteq> members \<Longrightarrow> T \<subseteq> members \<Longrightarrow> quorum S \<Longrightarrow> quorum T
    \<Longrightarrow> \<exists>n. n \<in> S \<and> n \<in> T"
begin

text \<open>If every member backs at most one choice, at most one choice has a quorum of backers.\<close>

lemma one_choice:
  assumes "S \<subseteq> members" and "T \<subseteq> members" and "quorum S" and "quorum T"
    and "\<And>n. n \<in> S \<Longrightarrow> backs n = Some a" and "\<And>n. n \<in> T \<Longrightarrow> backs n = Some b"
  shows "a = b"
proof -
  from quorum_meet [OF assms(1-4)] obtain n where "n \<in> S" and "n \<in> T" by blast
  with assms(5,6) show ?thesis by force
qed

end

lemma majorities_meet:
  assumes "finite M" and "S \<subseteq> M" and "T \<subseteq> M"
    and "card M div 2 + 1 \<le> card S" and "card M div 2 + 1 \<le> card T"
  shows "\<exists>n. n \<in> S \<and> n \<in> T"
proof (rule ccontr)
  assume "\<nexists>n. n \<in> S \<and> n \<in> T"
  then have disj: "S \<inter> T = {}" by blast
  from assms(1-3) have fin: "finite S" "finite T" by (auto intro: finite_subset)
  from disj fin have "card S + card T = card (S \<union> T)" by (simp add: card_Un_disjoint)
  also have "\<dots> \<le> card M" using assms(1-3) by (intro card_mono) auto
  finally show False using assms(4,5) by linarith
qed

end
