(* ===== verification/Rust_Str.thy ===== *)
theory Rust_Str
  imports Nomad_Prelude "HOL-Library.Sublist"
begin

text \<open>
  The string operations of the Rust standard library that the code uses. A Rust \<open>str\<close> is a
  UTF-8 byte string, so it is a list of characters here, one per byte: \<open>len()\<close> is \<^const>\<open>length\<close>.
\<close>

section \<open>Trimming\<close>

text \<open>The UTF-8 encodings of the characters with the Unicode property \<open>White_Space\<close>.\<close>

definition ws_chars :: "string list" where
  "ws_chars =
    [[CHR 0x09], [CHR 0x0A], [CHR 0x0B], [CHR 0x0C], [CHR 0x0D], [CHR 0x20],
     [CHR 0xC2, CHR 0x85], [CHR 0xC2, CHR 0xA0], [CHR 0xE1, CHR 0x9A, CHR 0x80],
     [CHR 0xE2, CHR 0x80, CHR 0x80], [CHR 0xE2, CHR 0x80, CHR 0x81],
     [CHR 0xE2, CHR 0x80, CHR 0x82], [CHR 0xE2, CHR 0x80, CHR 0x83],
     [CHR 0xE2, CHR 0x80, CHR 0x84], [CHR 0xE2, CHR 0x80, CHR 0x85],
     [CHR 0xE2, CHR 0x80, CHR 0x86], [CHR 0xE2, CHR 0x80, CHR 0x87],
     [CHR 0xE2, CHR 0x80, CHR 0x88], [CHR 0xE2, CHR 0x80, CHR 0x89],
     [CHR 0xE2, CHR 0x80, CHR 0x8A], [CHR 0xE2, CHR 0x80, CHR 0xA8],
     [CHR 0xE2, CHR 0x80, CHR 0xA9], [CHR 0xE2, CHR 0x80, CHR 0xAF],
     [CHR 0xE2, CHR 0x81, CHR 0x9F], [CHR 0xE3, CHR 0x80, CHR 0x80]]"

lemma ws_chars_nonempty: "w \<in> set ws_chars \<Longrightarrow> w \<noteq> []"
  by (auto simp: ws_chars_def)

lemma find_SomeD: "find P xs = Some x \<Longrightarrow> x \<in> set xs \<and> P x"
  by (auto simp: find_Some_iff)

lemma find_prefix_shorter:
  "find (\<lambda>w. prefix w s) ws_chars = Some w \<Longrightarrow> length (drop (length w) s) < length s"
  by (auto dest!: find_SomeD ws_chars_nonempty simp: prefix_def)

lemma find_suffix_shorter:
  "find (\<lambda>w. suffix w s) ws_chars = Some w \<Longrightarrow> length (take (length s - length w) s) < length s"
  by (auto dest!: find_SomeD ws_chars_nonempty simp: suffix_def)

function trim_start :: "string \<Rightarrow> string" where
  "trim_start s = (case find (\<lambda>w. prefix w s) ws_chars of
     Some w \<Rightarrow> trim_start (drop (length w) s) | None \<Rightarrow> s)"
  by pat_completeness auto
termination by (relation "measure length") (simp_all add: find_prefix_shorter del: length_drop)

function trim_end :: "string \<Rightarrow> string" where
  "trim_end s = (case find (\<lambda>w. suffix w s) ws_chars of
     Some w \<Rightarrow> trim_end (take (length s - length w) s) | None \<Rightarrow> s)"
  by pat_completeness auto
termination by (relation "measure length") (simp_all add: find_suffix_shorter del: length_take)

declare trim_start.simps [simp del] trim_end.simps [simp del]

definition trim :: "string \<Rightarrow> string" where
  "trim s = trim_end (trim_start s)"

text \<open>A string of white space only: a concatenation of white-space characters.\<close>

definition all_ws :: "string \<Rightarrow> bool" where
  "all_ws s \<longleftrightarrow> (\<exists>ws. set ws \<subseteq> set ws_chars \<and> s = concat ws)"

lemma all_ws_nil [simp]: "all_ws []"
  unfolding all_ws_def by (rule exI [of _ "[]"]) simp

lemma all_ws_append: "w \<in> set ws_chars \<Longrightarrow> all_ws s \<Longrightarrow> all_ws (w @ s)"
proof -
  assume w: "w \<in> set ws_chars" and "all_ws s"
  then obtain ws where ws: "set ws \<subseteq> set ws_chars" "s = concat ws" by (auto simp: all_ws_def)
  with w have "set (w # ws) \<subseteq> set ws_chars" and "w @ s = concat (w # ws)" by simp_all
  then show "all_ws (w @ s)" unfolding all_ws_def by blast
qed

lemma all_ws_append_end: "w \<in> set ws_chars \<Longrightarrow> all_ws s \<Longrightarrow> all_ws (s @ w)"
proof -
  assume w: "w \<in> set ws_chars" and "all_ws s"
  then obtain ws where ws: "set ws \<subseteq> set ws_chars" "s = concat ws" by (auto simp: all_ws_def)
  with w have "set (ws @ [w]) \<subseteq> set ws_chars" and "s @ w = concat (ws @ [w])" by simp_all
  then show "all_ws (s @ w)" unfolding all_ws_def by blast
qed

lemma trim_start_nil_ws: "trim_start s = [] \<Longrightarrow> all_ws s"
proof (induction s rule: trim_start.induct)
  case (1 s)
  show ?case
  proof (cases "find (\<lambda>w. prefix w s) ws_chars")
    case None
    with "1.prems" show ?thesis by (simp add: trim_start.simps [of s])
  next
    case (Some w)
    then have w: "w \<in> set ws_chars" "prefix w s" by (auto dest: find_SomeD)
    from Some "1.prems" have "trim_start (drop (length w) s) = []"
      by (simp add: trim_start.simps [of s])
    with "1.IH" [OF Some] have "all_ws (drop (length w) s)" by simp
    with w show ?thesis by (metis all_ws_append append_eq_conv_conj prefix_def)
  qed
qed

lemma trim_end_nil_ws: "trim_end s = [] \<Longrightarrow> all_ws s"
proof (induction s rule: trim_end.induct)
  case (1 s)
  show ?case
  proof (cases "find (\<lambda>w. suffix w s) ws_chars")
    case None
    with "1.prems" show ?thesis by (simp add: trim_end.simps [of s])
  next
    case (Some w)
    then have w: "w \<in> set ws_chars" "suffix w s" by (auto dest: find_SomeD)
    from Some "1.prems" have "trim_end (take (length s - length w) s) = []"
      by (simp add: trim_end.simps [of s])
    with "1.IH" [OF Some] have "all_ws (take (length s - length w) s)" by simp
    with w show ?thesis by (auto simp: suffix_def dest: all_ws_append_end)
  qed
qed

lemma trim_start_no_ws: "w \<in> set ws_chars \<Longrightarrow> \<not> prefix w (trim_start s)"
proof (induction s rule: trim_start.induct)
  case (1 s)
  show ?case
  proof (cases "find (\<lambda>w. prefix w s) ws_chars")
    case None
    then have "\<not> prefix w s" using "1.prems" by (auto simp: find_None_iff)
    with None show ?thesis by (simp add: trim_start.simps [of s])
  next
    case (Some w')
    with "1.IH" [OF Some "1.prems"] show ?thesis by (simp add: trim_start.simps [of s])
  qed
qed

text \<open>No white-space encoding is a proper prefix of another, so trimming white space ends empty.\<close>

lemma ws_chars_antichain: "list_all (\<lambda>v. list_all (\<lambda>w. prefix v w \<longrightarrow> v = w) ws_chars) ws_chars"
  by code_simp

lemma ws_chars_prefix_free:
  assumes "v \<in> set ws_chars" and "w \<in> set ws_chars" and "prefix v (w @ s)"
  shows "v = w"
proof -
  have "prefix w (w @ s)" by simp
  with assms(3) have "prefix v w \<or> prefix w v" by (rule prefix_same_cases)
  with assms(1,2) ws_chars_antichain show ?thesis by (auto simp: list_all_iff)
qed

lemma trim_start_all_ws: "set ws \<subseteq> set ws_chars \<Longrightarrow> trim_start (concat ws) = []"
proof (induction ws)
  case Nil
  have "find (\<lambda>w. prefix w []) ws_chars = None"
    using ws_chars_nonempty by (auto simp: find_None_iff)
  then show ?case by (simp add: trim_start.simps [of "[]"])
next
  case (Cons w ws)
  then have w: "w \<in> set ws_chars" by simp
  have "find (\<lambda>v. prefix v (w @ concat ws)) ws_chars = Some w"
  proof (cases "find (\<lambda>v. prefix v (w @ concat ws)) ws_chars")
    case None
    with w show ?thesis by (auto simp: find_None_iff)
  next
    case (Some v)
    with w show ?thesis using ws_chars_prefix_free by (auto dest!: find_SomeD)
  qed
  with Cons show ?case by (simp add: trim_start.simps [of "w @ concat ws"])
qed

lemma trim_end_nil [simp]: "trim_end [] = []"
proof -
  have "find (\<lambda>w. suffix w []) ws_chars = None"
    using ws_chars_nonempty by (auto simp: find_None_iff)
  then show ?thesis by (simp add: trim_end.simps [of "[]"])
qed

text \<open>What \<open>s.trim().is_empty()\<close> tests.\<close>

lemma trim_empty_iff: "trim s = [] \<longleftrightarrow> all_ws s"
proof
  assume "trim s = []"
  then have "all_ws (trim_start s)" by (auto simp: trim_def dest: trim_end_nil_ws)
  then obtain ws where ws: "set ws \<subseteq> set ws_chars" "trim_start s = concat ws"
    by (auto simp: all_ws_def)
  have "ws = []"
  proof (cases ws)
    case (Cons w ws')
    with ws have "w \<in> set ws_chars" "prefix w (trim_start s)" by auto
    then show ?thesis using trim_start_no_ws by blast
  qed
  with ws show "all_ws s" by (auto dest: trim_start_nil_ws)
next
  assume "all_ws s"
  then show "trim s = []" by (auto simp: all_ws_def trim_def trim_start_all_ws)
qed

section \<open>Splitting, prefixes and substrings\<close>

fun split_on :: "char \<Rightarrow> string \<Rightarrow> string list" where
  "split_on c [] = [[]]"
| "split_on c (x # xs) =
     (if x = c then [] # split_on c xs
      else (case split_on c xs of [] \<Rightarrow> [[x]] | y # ys \<Rightarrow> (x # y) # ys))"

fun join_with :: "char \<Rightarrow> string list \<Rightarrow> string" where
  "join_with c [] = []"
| "join_with c [s] = s"
| "join_with c (s # t # ts) = s @ c # join_with c (t # ts)"

lemma split_on_nonempty: "split_on c s \<noteq> []"
  by (induction s) (auto split: list.splits)

lemma join_split: "join_with c (split_on c s) = s"
proof (induction s)
  case Nil
  then show ?case by simp
next
  case (Cons x xs)
  obtain y ys where "split_on c xs = y # ys" using split_on_nonempty [of c xs]
    by (cases "split_on c xs") auto
  with Cons show ?case by (cases ys) auto
qed

lemma split_on_no_sep: "c \<notin> set s \<Longrightarrow> split_on c s = [s]"
  by (induction s) auto

lemma split_on_app: "c \<notin> set s \<Longrightarrow> split_on c (s @ c # t) = s # split_on c t"
  by (induction s) auto

lemma split_join:
  "ss \<noteq> [] \<Longrightarrow> \<forall>s \<in> set ss. c \<notin> set s \<Longrightarrow> split_on c (join_with c ss) = ss"
  by (induction c ss rule: join_with.induct) (auto simp: split_on_no_sep split_on_app)

definition strip_prefix :: "string \<Rightarrow> string \<Rightarrow> string option" where
  "strip_prefix p s = (if prefix p s then Some (drop (length p) s) else None)"

definition starts_with :: "string \<Rightarrow> string \<Rightarrow> bool" where
  "starts_with p s \<longleftrightarrow> prefix p s"

lemma strip_prefix_append [simp]: "strip_prefix p (p @ s) = Some s"
  by (simp add: strip_prefix_def)

definition str_contains :: "string \<Rightarrow> string \<Rightarrow> bool" where
  "str_contains s pat \<longleftrightarrow> list_ex (\<lambda>i. prefix pat (drop i s)) [0..<Suc (length s)]"

lemma str_contains_sublist: "str_contains s pat \<longleftrightarrow> sublist pat s"
proof
  assume "str_contains s pat"
  then obtain i where "prefix pat (drop i s)" by (auto simp: str_contains_def list_ex_iff)
  then obtain t where "drop i s = pat @ t" by (auto simp: prefix_def)
  then have "s = take i s @ pat @ t" by (metis append_take_drop_id)
  then show "sublist pat s" by (auto simp: sublist_def)
next
  assume "sublist pat s"
  then obtain p t where s: "s = p @ pat @ t" by (auto simp: sublist_def)
  then have "prefix pat (drop (length p) s)" by simp
  moreover have "length p < Suc (length s)" by (simp add: s)
  ultimately show "str_contains s pat"
    unfolding str_contains_def list_ex_iff by (metis atLeastLessThan_iff set_upt zero_le)
qed

section \<open>Decimal numbers\<close>

definition digit_char :: "nat \<Rightarrow> char" where
  "digit_char d = char_of (48 + d)"

definition char_digit :: "char \<Rightarrow> nat option" where
  "char_digit c = (let n = (of_char c :: nat) in if 48 \<le> n \<and> n \<le> 57 then Some (n - 48) else None)"

text \<open>\<open>to_string()\<close> of an unsigned integer.\<close>

fun show_nat :: "nat \<Rightarrow> string" where
  "show_nat n = (if n < 10 then [digit_char n] else show_nat (n div 10) @ [digit_char (n mod 10)])"

declare show_nat.simps [simp del]

fun parse_digits :: "nat \<Rightarrow> string \<Rightarrow> nat option" where
  "parse_digits acc [] = Some acc"
| "parse_digits acc (c # cs) =
     (case char_digit c of None \<Rightarrow> None | Some d \<Rightarrow> parse_digits (acc * 10 + d) cs)"

text \<open>
  \<open>str::parse::<u64>()\<close> (and \<open>usize\<close>): an optional \<open>+\<close>, at least one digit, no overflow.
\<close>

definition parse_u64 :: "string \<Rightarrow> u64 option" where
  "parse_u64 s =
     (let ds = (case s of [] \<Rightarrow> s | c # cs \<Rightarrow> if c = CHR ''+'' then cs else s) in
      if ds = [] then None
      else case parse_digits 0 ds of
        None \<Rightarrow> None | Some n \<Rightarrow> if n \<le> u64_max then Some n else None)"

lemma char_digit_digit_char: "d < 10 \<Longrightarrow> char_digit (digit_char d) = Some d"
  by (auto simp: char_digit_def digit_char_def of_char_of)

lemma digit_char_not_plus: "d < 10 \<Longrightarrow> digit_char d \<noteq> CHR ''+''"
proof
  assume "d < 10" and "digit_char d = CHR ''+''"
  then have "char_digit (CHR ''+'') = Some d" using char_digit_digit_char by metis
  then show False by (simp add: char_digit_def)
qed

lemma parse_digits_append:
  "parse_digits acc (xs @ ys)
     = (case parse_digits acc xs of None \<Rightarrow> None | Some n \<Rightarrow> parse_digits n ys)"
  by (induction xs arbitrary: acc) (auto split: option.splits)

lemma parse_digits_show_nat: "parse_digits 0 (show_nat n) = Some n"
proof (induction n rule: show_nat.induct)
  case (1 n)
  then show ?case
    by (cases "n < 10")
      (simp_all add: show_nat.simps [of n] parse_digits_append char_digit_digit_char)
qed

lemma show_nat_hd: "\<exists>d cs. d < 10 \<and> show_nat n = digit_char d # cs"
proof (induction n rule: show_nat.induct)
  case (1 n)
  then show ?case by (cases "n < 10") (auto simp: show_nat.simps [of n])
qed

lemma show_nat_nonempty [simp]: "show_nat n \<noteq> []"
  using show_nat_hd [of n] by auto

text \<open>Printing and parsing: what the page tokens rely on.\<close>

lemma parse_u64_show_nat: "n \<le> u64_max \<Longrightarrow> parse_u64 (show_nat n) = Some n"
proof -
  assume n: "n \<le> u64_max"
  obtain d cs where d: "d < 10" and s: "show_nat n = digit_char d # cs"
    using show_nat_hd by blast
  with parse_digits_show_nat [of n] n digit_char_not_plus [OF d] show ?thesis
    by (simp add: parse_u64_def s del: parse_digits.simps)
qed

lemma show_nat_chars: "c \<in> set (show_nat n) \<Longrightarrow> \<exists>d < 10. c = digit_char d"
proof (induction n rule: show_nat.induct)
  case (1 n)
  have "\<exists>d < 10. digit_char (n mod 10) = digit_char d" by (rule exI [of _ "n mod 10"]) simp
  with 1 show ?case by (cases "n < 10") (auto simp: show_nat.simps [of n])
qed

lemma parse_u64_bound: "parse_u64 s = Some n \<Longrightarrow> n \<le> u64_max"
  by (auto simp: parse_u64_def Let_def split: if_splits option.splits)

end
