(* ===== verification/Job.thy ===== *)
theory Job
  imports Rust_Str
begin

text \<open>
  Jobs (\<open>src/scheduler/job.rs\<close>) and the form they take in a snapshot (\<open>src/raft/state.rs\<close>).
  A \<open>Uuid\<close> is only compared, so it is a number; a \<open>DateTime<Utc>\<close> is its distance from the Unix
  epoch in nanoseconds. The identifier and the clock reading that \<open>Job::new\<close> draws are arguments.
\<close>

type_synonym uuid = nat
type_synonym datetime = int
type_synonym i32 = int

section \<open>Data\<close>

datatype job_status = Pending | Running | Completed | Failed | Cancelled

fun job_status_display :: "job_status \<Rightarrow> string" where
  "job_status_display Pending = ''pending''"
| "job_status_display Running = ''running''"
| "job_status_display Completed = ''completed''"
| "job_status_display Failed = ''failed''"
| "job_status_display Cancelled = ''cancelled''"

record job =
  j_id :: uuid
  j_command :: string
  j_image :: "string option"
  j_status :: job_status
  j_assigned_worker :: "u64 option"
  j_executed_by :: "u64 option"
  j_exit_code :: "i32 option"
  j_output :: "string option"
  j_error :: "string option"
  j_created_at :: datetime
  j_completed_at :: "datetime option"

record snapshot_job =
  sj_id :: uuid
  sj_command :: string
  sj_status :: job_status
  sj_assigned_worker :: u64
  sj_executed_by :: u64
  sj_exit_code :: "i32 option"
  sj_created_at :: datetime
  sj_completed_at :: "datetime option"
  sj_image :: "string option"

section \<open>Operations\<close>

datatype command_error = EmptyCommand | CommandTooLong

definition MAX_COMMAND_LEN :: nat where
  "MAX_COMMAND_LEN = 1024"

fun command_error_msg :: "command_error \<Rightarrow> string" where
  "command_error_msg EmptyCommand = ''Command cannot be empty''"
| "command_error_msg CommandTooLong = ''Command exceeds maximum allowed length''"

definition validate_command :: "string \<Rightarrow> command_error + unit" where
  "validate_command cmd =
     (if trim cmd = [] then Inl EmptyCommand
      else if MAX_COMMAND_LEN < length cmd then Inl CommandTooLong
      else Inr ())"

definition with_id :: "uuid \<Rightarrow> string \<Rightarrow> datetime \<Rightarrow> job" where
  "with_id i cmd t =
     \<lparr>j_id = i, j_command = cmd, j_image = None, j_status = Pending, j_assigned_worker = None,
      j_executed_by = None, j_exit_code = None, j_output = None, j_error = None,
      j_created_at = t, j_completed_at = None\<rparr>"

text \<open>\<open>Job::new\<close>, with the drawn identifier and the clock reading as arguments.\<close>

definition job_new :: "uuid \<Rightarrow> datetime \<Rightarrow> string \<Rightarrow> job" where
  "job_new fresh now cmd =
     \<lparr>j_id = fresh, j_command = cmd, j_image = None, j_status = Pending, j_assigned_worker = None,
      j_executed_by = None, j_exit_code = None, j_output = None, j_error = None,
      j_created_at = now, j_completed_at = None\<rparr>"

definition zero_as_none :: "u64 \<Rightarrow> u64 option" where
  "zero_as_none w = (if w = 0 then None else Some w)"

definition none_as_zero :: "u64 option \<Rightarrow> u64" where
  "none_as_zero w = (case w of None \<Rightarrow> 0 | Some n \<Rightarrow> n)"

definition from_snapshot :: "snapshot_job \<Rightarrow> job" where
  "from_snapshot sj =
     \<lparr>j_id = sj_id sj, j_command = sj_command sj, j_image = sj_image sj, j_status = sj_status sj,
      j_assigned_worker = zero_as_none (sj_assigned_worker sj),
      j_executed_by = zero_as_none (sj_executed_by sj),
      j_exit_code = sj_exit_code sj, j_output = None, j_error = None,
      j_created_at = sj_created_at sj, j_completed_at = sj_completed_at sj\<rparr>"

text \<open>The closure of \<open>Node::build_snapshot\<close> that turns a job into its snapshot form.\<close>

definition to_snapshot :: "job \<Rightarrow> snapshot_job" where
  "to_snapshot j =
     \<lparr>sj_id = j_id j, sj_command = j_command j, sj_status = j_status j,
      sj_assigned_worker = none_as_zero (j_assigned_worker j),
      sj_executed_by = none_as_zero (j_executed_by j),
      sj_exit_code = j_exit_code j, sj_created_at = j_created_at j,
      sj_completed_at = j_completed_at j, sj_image = j_image j\<rparr>"

text \<open>\<open>matches!(j.status, JobStatus::Pending | JobStatus::Running)\<close>, tested all over the code.\<close>

fun active_status :: "job_status \<Rightarrow> bool" where
  "active_status Pending = True"
| "active_status Running = True"
| "active_status Completed = False"
| "active_status Failed = False"
| "active_status Cancelled = False"

abbreviation job_active :: "job \<Rightarrow> bool" where
  "job_active j \<equiv> active_status (j_status j)"

lemma active_status_iff: "active_status st \<longleftrightarrow> st = Pending \<or> st = Running"
  by (cases st) auto

section \<open>Properties\<close>

lemma job_status_display_inj: "job_status_display a = job_status_display b \<Longrightarrow> a = b"
  by (cases a; cases b) auto

lemma validate_command_ok_iff:
  "validate_command cmd = Inr () \<longleftrightarrow> \<not> all_ws cmd \<and> length cmd \<le> MAX_COMMAND_LEN"
  by (auto simp: validate_command_def trim_empty_iff)

lemma validate_command_err:
  "validate_command cmd = Inl EmptyCommand \<longleftrightarrow> all_ws cmd"
  "validate_command cmd = Inl CommandTooLong \<longleftrightarrow> \<not> all_ws cmd \<and> MAX_COMMAND_LEN < length cmd"
  by (auto simp: validate_command_def trim_empty_iff)

lemma zero_none_inverse: "w \<noteq> Some 0 \<Longrightarrow> zero_as_none (none_as_zero w) = w"
  by (auto simp: zero_as_none_def none_as_zero_def split: option.splits)

text \<open>
  A job survives the trip through a snapshot, up to its locally kept output, when no worker has
  the number 0 (which the snapshot uses for "none").
\<close>

definition drop_output :: "job \<Rightarrow> job" where
  "drop_output j = j\<lparr>j_output := None, j_error := None\<rparr>"

definition real_workers :: "job \<Rightarrow> bool" where
  "real_workers j \<longleftrightarrow> j_assigned_worker j \<noteq> Some 0 \<and> j_executed_by j \<noteq> Some 0"

lemma from_to_snapshot: "real_workers j \<Longrightarrow> from_snapshot (to_snapshot j) = drop_output j"
  by (simp add: from_snapshot_def to_snapshot_def drop_output_def real_workers_def
      zero_none_inverse)

lemma to_snapshot_sel [simp]:
  "sj_id (to_snapshot j) = j_id j" "sj_status (to_snapshot j) = j_status j"
  "sj_created_at (to_snapshot j) = j_created_at j"
  by (simp_all add: to_snapshot_def)

lemma from_snapshot_sel [simp]:
  "j_id (from_snapshot sj) = sj_id sj" "j_status (from_snapshot sj) = sj_status sj"
  "j_created_at (from_snapshot sj) = sj_created_at sj"
  by (simp_all add: from_snapshot_def)

end
