(* ===== verification/Hash_Map.thy ===== *)
theory Hash_Map
  imports Nomad_Prelude "HOL-Library.AList"
begin

text \<open>
  The standard library's \<open>HashMap\<close>, as an association list with distinct keys. The list order
  stands for the iteration order, which Rust leaves open: every statement below quantifies over
  the list, so it covers every iteration order of the map at hand.
\<close>

type_synonym ('k, 'v) hmap = "('k \<times> 'v) list"

definition hm_empty :: "('k, 'v) hmap" where
  "hm_empty = []"

definition hm_get :: "('k, 'v) hmap \<Rightarrow> 'k \<Rightarrow> 'v option" where
  "hm_get m k = map_of m k"

definition hm_insert :: "'k \<Rightarrow> 'v \<Rightarrow> ('k, 'v) hmap \<Rightarrow> ('k, 'v) hmap" where
  "hm_insert k v m = AList.update k v m"

text \<open>\<open>if let Some(v) = m.get_mut(k) { *v = f(*v) }\<close>.\<close>

definition hm_modify :: "'k \<Rightarrow> ('v \<Rightarrow> 'v) \<Rightarrow> ('k, 'v) hmap \<Rightarrow> ('k, 'v) hmap" where
  "hm_modify k f m = AList.map_entry k f m"

definition hm_retain :: "('k \<Rightarrow> 'v \<Rightarrow> bool) \<Rightarrow> ('k, 'v) hmap \<Rightarrow> ('k, 'v) hmap" where
  "hm_retain P m = filter (\<lambda>(k, v). P k v) m"

definition hm_values :: "('k, 'v) hmap \<Rightarrow> 'v list" where
  "hm_values m = map snd m"

definition hm_wf :: "('k, 'v) hmap \<Rightarrow> bool" where
  "hm_wf m \<longleftrightarrow> distinct (map fst m)"

abbreviation hm_contains_key :: "('k, 'v) hmap \<Rightarrow> 'k \<Rightarrow> bool" where
  "hm_contains_key m k \<equiv> hm_get m k \<noteq> None"

lemmas hm_defs = hm_empty_def hm_get_def hm_insert_def hm_modify_def hm_retain_def
  hm_values_def hm_wf_def

section \<open>The interface\<close>

text \<open>What the clients of a hash map rely on.\<close>

locale hash_map =
  fixes empty :: "'m"
    and get :: "'m \<Rightarrow> 'k \<Rightarrow> 'v option"
    and insert :: "'k \<Rightarrow> 'v \<Rightarrow> 'm \<Rightarrow> 'm"
    and modify :: "'k \<Rightarrow> ('v \<Rightarrow> 'v) \<Rightarrow> 'm \<Rightarrow> 'm"
    and retain :: "('k \<Rightarrow> 'v \<Rightarrow> bool) \<Rightarrow> 'm \<Rightarrow> 'm"
    and wf :: "'m \<Rightarrow> bool"
  assumes wf_empty: "wf empty"
    and wf_insert: "wf m \<Longrightarrow> wf (insert k v m)"
    and wf_modify: "wf m \<Longrightarrow> wf (modify k f m)"
    and wf_retain: "wf m \<Longrightarrow> wf (retain P m)"
    and get_empty: "get empty k = None"
    and get_insert: "get (insert k v m) k' = (if k' = k then Some v else get m k')"
    and get_modify: "get (modify k f m) k' = (if k' = k then map_option f (get m k) else get m k')"
    and get_retain: "wf m \<Longrightarrow>
      get (retain P m) k = (case get m k of Some v \<Rightarrow> if P k v then Some v else None | None \<Rightarrow> None)"
begin

text \<open>A map each of whose values carries its own key keeps that property under its operations.\<close>

definition keyed :: "('v \<Rightarrow> 'k) \<Rightarrow> 'm \<Rightarrow> bool" where
  "keyed key m \<longleftrightarrow> (\<forall>k v. get m k = Some v \<longrightarrow> key v = k)"

lemma keyed_empty: "keyed key empty"
  by (simp add: keyed_def get_empty)

lemma keyed_insert: "keyed key m \<Longrightarrow> keyed key (insert (key v) v m)"
  by (simp add: keyed_def get_insert)

lemma keyed_modify: "keyed key m \<Longrightarrow> (\<And>v. key (f v) = key v) \<Longrightarrow> keyed key (modify k f m)"
  by (auto simp: keyed_def get_modify split: if_splits)

lemma keyed_retain: "wf m \<Longrightarrow> keyed key m \<Longrightarrow> keyed key (retain P m)"
  by (auto simp: keyed_def get_retain split: option.splits if_splits)

end

lemma map_of_map_entry_eq:
  "map_of (AList.map_entry k f m) k' = (if k' = k then map_option f (map_of m k) else map_of m k')"
  by (induction m) auto

lemma map_of_filter_distinct:
  "distinct (map fst m) \<Longrightarrow>
   map_of (filter (\<lambda>(k, v). P k v) m) k
     = (case map_of m k of Some v \<Rightarrow> if P k v then Some v else None | None \<Rightarrow> None)"
proof (induction m)
  case Nil
  then show ?case by simp
next
  case (Cons a m)
  then show ?case
    by (cases a) (auto simp: map_of_eq_None_iff split: option.splits dest: map_of_SomeD)
qed

lemma distinct_filter_fst: "distinct (map fst m) \<Longrightarrow> distinct (map fst (filter P m))"
  by (simp add: distinct_map_filter)

interpretation hm: hash_map hm_empty hm_get hm_insert hm_modify hm_retain hm_wf
  by unfold_locales
    (simp_all add: hm_defs distinct_update distinct_map_entry distinct_filter_fst update_conv'
      map_of_map_entry_eq map_of_filter_distinct)

lemmas hm_simps [simp] = hm.wf_empty hm.get_empty hm.get_insert hm.get_modify
lemmas hm_wf_intros [wf_keep] = hm.wf_empty hm.wf_insert hm.wf_modify hm.wf_retain

section \<open>Values, counts and sizes\<close>

lemma hm_values_get:
  "hm_wf m \<Longrightarrow> v \<in> set (hm_values m) \<longleftrightarrow> (\<exists>k. hm_get m k = Some v)"
  by (force simp: hm_defs)

lemma hm_get_in: "hm_get m k = Some v \<Longrightarrow> (k, v) \<in> set m"
  by (auto simp: hm_get_def dest: map_of_SomeD)

lemma hm_get_values: "hm_get m k = Some v \<Longrightarrow> v \<in> set (hm_values m)"
  by (force simp: hm_values_def dest: hm_get_in)

lemma hm_get_iff: "hm_wf m \<Longrightarrow> hm_get m k = Some v \<longleftrightarrow> (k, v) \<in> set m"
  by (simp add: hm_defs)

text \<open>How a count over the values changes: the three updates the queue makes.\<close>

definition hm_count :: "('v \<Rightarrow> bool) \<Rightarrow> ('k, 'v) hmap \<Rightarrow> nat" where
  "hm_count P m = length (filter P (hm_values m))"

lemma hm_count_empty [simp]: "hm_count P hm_empty = 0"
  by (simp add: hm_count_def hm_defs)

lemma hm_count_nil [simp]: "hm_count P [] = 0"
  by (simp add: hm_count_def hm_defs)

lemma hm_count_cons: "hm_count P ((k, v) # m) = (if P v then 1 else 0) + hm_count P m"
  by (simp add: hm_count_def hm_defs)

lemma hm_count_insert_new:
  "hm_get m k = None \<Longrightarrow> hm_count P (hm_insert k v m) = hm_count P m + (if P v then 1 else 0)"
proof (induction m)
  case Nil
  then show ?case by (simp add: hm_count_def hm_defs)
next
  case (Cons a m)
  then show ?case
    by (cases a) (auto simp: hm_get_def hm_insert_def hm_count_cons split: if_splits)
qed

lemma hm_count_insert_old:
  "hm_get m k = Some u \<Longrightarrow>
   hm_count P (hm_insert k v m) + (if P u then 1 else 0) = hm_count P m + (if P v then 1 else 0)"
proof (induction m)
  case Nil
  then show ?case by (simp add: hm_defs)
next
  case (Cons a m)
  then show ?case
    by (cases a) (auto simp: hm_get_def hm_insert_def hm_count_cons split: if_splits)
qed

lemma hm_count_modify:
  "hm_wf m \<Longrightarrow> hm_get m k = Some u \<Longrightarrow>
   hm_count P (hm_modify k f m) + (if P u then 1 else 0)
     = hm_count P m + (if P (f u) then 1 else 0)"
proof (induction m)
  case Nil
  then show ?case by (simp add: hm_defs)
next
  case (Cons a m)
  obtain k' v' where a: "a = (k', v')" by (cases a)
  show ?case
  proof (cases "k' = k")
    case True
    with Cons.prems a have "k \<notin> fst ` set m" and "u = v'" by (auto simp: hm_defs)
    then have "AList.map_entry k f m = m" by (induction m) auto
    with True a \<open>u = v'\<close> show ?thesis
      by (simp add: hm_modify_def hm_count_cons)
  next
    case False
    with Cons.prems a have "hm_wf m" and "hm_get m k = Some u" by (auto simp: hm_defs)
    from Cons.IH [OF this] a False show ?thesis
      by (auto simp: hm_modify_def hm_count_cons split: if_splits)
  qed
qed

lemma hm_modify_absent: "hm_get m k = None \<Longrightarrow> hm_modify k f m = m"
  by (induction m) (auto simp: hm_get_def hm_modify_def split: if_splits)

lemma hm_count_mono: "(\<And>v. P v \<Longrightarrow> Q v) \<Longrightarrow> hm_count P m \<le> hm_count Q m"
  by (induction m) (auto simp: hm_count_cons split_paired_all le_SucI)

lemma hm_count_retain_le: "hm_count P (hm_retain Q m) \<le> hm_count P m"
proof (induction m)
  case Nil
  then show ?case by (simp add: hm_retain_def)
next
  case (Cons a m)
  then show ?case by (cases a) (simp add: hm_retain_def hm_count_cons)
qed

lemma hm_keys_insert: "fst ` set (hm_insert k v m) = insert k (fst ` set m)"
  by (simp add: hm_insert_def dom_update)

lemma hm_keys_modify [simp]: "map fst (hm_modify k f m) = map fst m"
  by (induction m) (auto simp: hm_modify_def)

lemma hm_get_none: "hm_get m k = None \<longleftrightarrow> k \<notin> fst ` set m"
  by (simp add: hm_get_def map_of_eq_None_iff)

lemma hm_keys_dom: "fst ` set m = dom (hm_get m)"
  unfolding hm_get_def by (simp add: dom_map_of_conv_image_fst)

end
