(* ===== verification/Raft_State.thy ===== *)
theory Raft_State
  imports Job Hash_Map
begin

text \<open>
  The Raft state of one node (\<open>src/raft/state.rs\<close>): the log with its compacted prefix, the
  election state, and the pure operations on them. The invariant \<open>log_wf\<close> says that the entry
  at position \<open>k\<close> of the log vector has index \<open>log_offset + 1 + k\<close>, which the code's offset
  arithmetic relies on; \<open>entry_at\<close> is the abstract view of a log as a map from indices.
\<close>

section \<open>Data\<close>

record job_status_update =
  jsu_job_id :: uuid
  jsu_status :: job_status
  jsu_executed_by :: u64
  jsu_exit_code :: "i32 option"
  jsu_completed_at :: "datetime option"

datatype command =
    SubmitJob uuid string datetime "string option"
  | UpdateJobStatus uuid job_status u64 "i32 option" "datetime option"
  | BatchUpdateJobStatus "job_status_update list"
  | RegisterWorker u64
  | AssignJob uuid u64
  | CancelJob uuid
  | Noop

record log_entry =
  le_term :: u64
  le_index :: u64
  le_command :: command

record raft_snapshot =
  last_included_index :: u64
  last_included_term :: u64
  sn_jobs :: "snapshot_job list"
  sn_workers :: "u64 list"

datatype raft_role = Follower | Candidate | Leader

fun raft_role_display :: "raft_role \<Rightarrow> string" where
  "raft_role_display Follower = ''follower''"
| "raft_role_display Candidate = ''candidate''"
| "raft_role_display Leader = ''leader''"

record raft_state =
  current_term :: u64
  voted_for :: "node_id option"
  rlog :: "log_entry list"
  commit_index :: u64
  last_applied :: u64
  next_index :: "(node_id, u64) hmap"
  match_index :: "(node_id, u64) hmap"
  role :: raft_role
  leader_id :: "node_id option"
  votes_received :: u64
  log_offset :: u64
  snapshot :: "raft_snapshot option"

section \<open>Operations\<close>

definition raft_new :: raft_state where
  "raft_new =
     \<lparr>current_term = 0, voted_for = None, rlog = [], commit_index = 0, last_applied = 0,
      next_index = hm_empty, match_index = hm_empty, role = Follower, leader_id = None,
      votes_received = 0, log_offset = 0, snapshot = None\<rparr>"

definition last_log_index :: "raft_state \<Rightarrow> u64" where
  "last_log_index s = (if rlog s = [] then log_offset s else le_index (last (rlog s)))"

definition last_log_term :: "raft_state \<Rightarrow> u64" where
  "last_log_term s =
     (if rlog s = [] then (case snapshot s of Some sn \<Rightarrow> last_included_term sn | None \<Rightarrow> 0)
      else le_term (last (rlog s)))"

definition first_log_index :: "raft_state \<Rightarrow> u64" where
  "first_log_index s = (if rlog s = [] then 0 else u64_inc (log_offset s))"

definition is_compacted :: "raft_state \<Rightarrow> u64 \<Rightarrow> bool" where
  "is_compacted s i \<longleftrightarrow> 0 < i \<and> i \<le> log_offset s"

definition get_entry :: "raft_state \<Rightarrow> u64 \<Rightarrow> log_entry option" where
  "get_entry s i =
     (if i = 0 \<or> i \<le> log_offset s then None
      else let v = i - log_offset s - 1 in if v < length (rlog s) then Some (rlog s ! v) else None)"

definition get_entries_from :: "raft_state \<Rightarrow> u64 \<Rightarrow> log_entry list" where
  "get_entries_from s start =
     (let effective_start =
            (if start = 0 then u64_inc (log_offset s) else max start (u64_inc (log_offset s)))
      in if last_log_index s < effective_start then []
         else let v = effective_start - log_offset s - 1
              in if length (rlog s) \<le> v then [] else drop v (rlog s))"

definition append_entry :: "command \<Rightarrow> raft_state \<Rightarrow> raft_state \<times> log_entry" where
  "append_entry c s =
     (let e = \<lparr>le_term = current_term s, le_index = u64_inc (last_log_index s), le_command = c\<rparr>
      in (s\<lparr>rlog := rlog s @ [e]\<rparr>, e))"

definition truncate_and_append :: "u64 \<Rightarrow> log_entry list \<Rightarrow> raft_state \<Rightarrow> raft_state" where
  "truncate_and_append from es s =
     (let kept =
            (if from \<le> log_offset s then []
             else let v = from - log_offset s - 1
                  in if v < length (rlog s) then take v (rlog s) else rlog s)
      in s\<lparr>rlog := kept @ es\<rparr>)"

definition compact_log :: "raft_snapshot \<Rightarrow> raft_state \<Rightarrow> raft_state" where
  "compact_log sn s =
     (let new_offset = last_included_index sn in
      if new_offset \<le> log_offset s then s
      else let d = new_offset - log_offset s;
               log' = (if length (rlog s) \<le> d then [] else drop d (rlog s))
           in s\<lparr>rlog := log', log_offset := new_offset, snapshot := Some sn\<rparr>)"

definition install_snapshot :: "raft_snapshot \<Rightarrow> raft_state \<Rightarrow> raft_state \<times> bool" where
  "install_snapshot sn s =
     (if last_included_index sn \<le> log_offset s then (s, False)
      else let new_offset = last_included_index sn;
               first_kept = u64_inc new_offset
           in (s\<lparr>rlog := filter (\<lambda>e. first_kept \<le> le_index e) (rlog s),
                 log_offset := new_offset,
                 commit_index := (if commit_index s < new_offset then new_offset else commit_index s),
                 last_applied := (if last_applied s < new_offset then new_offset else last_applied s),
                 snapshot := Some sn\<rparr>, True))"

definition is_log_up_to_date :: "raft_state \<Rightarrow> u64 \<Rightarrow> u64 \<Rightarrow> bool" where
  "is_log_up_to_date s idx trm \<longleftrightarrow>
     last_log_term s < trm \<or> (trm = last_log_term s \<and> last_log_index s \<le> idx)"

definition become_follower :: "u64 \<Rightarrow> raft_state \<Rightarrow> raft_state" where
  "become_follower t s =
     s\<lparr>role := Follower, current_term := t, voted_for := None, votes_received := 0\<rparr>"

definition become_candidate :: "node_id \<Rightarrow> raft_state \<Rightarrow> raft_state" where
  "become_candidate me s =
     s\<lparr>role := Candidate, current_term := u64_inc (current_term s), voted_for := Some me,
       votes_received := 1, leader_id := None\<rparr>"

definition init_peers :: "node_id list \<Rightarrow> u64 \<Rightarrow> (node_id, u64) hmap" where
  "init_peers peers v = foldl (\<lambda>m p. hm_insert p v m) hm_empty peers"

definition become_leader :: "node_id \<Rightarrow> node_id list \<Rightarrow> raft_state \<Rightarrow> raft_state" where
  "become_leader me peers s =
     s\<lparr>role := Leader, leader_id := Some me,
       next_index := init_peers peers (u64_inc (last_log_index s)),
       match_index := init_peers peers 0\<rparr>"

lemmas role_defs [step_defs] = become_follower_def become_candidate_def become_leader_def

section \<open>Well-formed logs\<close>

definition indexed_from :: "u64 \<Rightarrow> log_entry list \<Rightarrow> bool" where
  "indexed_from n es \<longleftrightarrow> map le_index es = [n..<n + length es]"

text \<open>The snapshot held covers exactly the compacted prefix.\<close>

fun snapshot_at :: "raft_snapshot option \<Rightarrow> u64 \<Rightarrow> bool" where
  "snapshot_at None off = (off = 0)"
| "snapshot_at (Some sn) off = (last_included_index sn = off)"

definition log_wf :: "raft_state \<Rightarrow> bool" where
  "log_wf s \<longleftrightarrow>
     indexed_from (Suc (log_offset s)) (rlog s) \<and>
     log_offset s + length (rlog s) \<le> u64_max \<and>
     snapshot_at (snapshot s) (log_offset s)"

lemma indexed_from_nth: "indexed_from n es \<Longrightarrow> i < length es \<Longrightarrow> le_index (es ! i) = n + i"
  unfolding indexed_from_def
  by (metis length_map nth_map nth_upt add_less_cancel_left)

lemma indexed_from_nil [simp]: "indexed_from n []"
  by (simp add: indexed_from_def)

lemma indexed_from_take: "indexed_from n es \<Longrightarrow> indexed_from n (take k es)"
  by (simp add: indexed_from_def min_def flip: take_map)

lemma indexed_from_drop: "indexed_from n es \<Longrightarrow> k \<le> length es \<Longrightarrow> indexed_from (n + k) (drop k es)"
  by (simp add: indexed_from_def flip: drop_map)

lemma indexed_from_append:
  "indexed_from n (es @ fs) \<longleftrightarrow> indexed_from n es \<and> indexed_from (n + length es) fs"
proof -
  have "[n..<n + length (es @ fs)] = [n..<n + length es] @ [n + length es..<n + length es + length fs]"
    using upt_add_eq_append [of n "n + length es" "length fs"] by (simp add: add.assoc)
  then show ?thesis by (auto simp: indexed_from_def)
qed

lemma indexed_from_single [simp]: "indexed_from n [e] \<longleftrightarrow> le_index e = n"
  by (simp add: indexed_from_def)

lemma indexed_from_filter:
  "indexed_from n es \<Longrightarrow> n \<le> k \<Longrightarrow> filter (\<lambda>e. k \<le> le_index e) es = drop (k - n) es"
  unfolding indexed_from_def by (rule upt_filter_drop)

lemma indexed_from_find:
  "indexed_from n es \<Longrightarrow> n \<le> k \<Longrightarrow> k < n + length es \<Longrightarrow>
   find (\<lambda>e. le_index e = k) es = Some (es ! (k - n))"
  unfolding indexed_from_def by (rule upt_find_nth)

lemma log_wf_new [wf_keep]: "log_wf raft_new"
  by (simp add: log_wf_def raft_new_def)

lemma log_wf_last_index: "log_wf s \<Longrightarrow> last_log_index s = log_offset s + length (rlog s)"
proof (cases "rlog s = []")
  case True
  then show ?thesis by (simp add: last_log_index_def)
next
  case False
  assume "log_wf s"
  then have "le_index (rlog s ! (length (rlog s) - 1)) = Suc (log_offset s) + (length (rlog s) - 1)"
    using False by (intro indexed_from_nth) (auto simp: log_wf_def)
  with False show ?thesis by (simp add: last_log_index_def last_conv_nth)
qed

lemma log_wf_last_bound: "log_wf s \<Longrightarrow> last_log_index s \<le> u64_max"
  by (simp add: log_wf_last_index) (simp add: log_wf_def)

lemma log_wf_offset_le: "log_wf s \<Longrightarrow> log_offset s \<le> last_log_index s"
  by (simp add: log_wf_last_index)

section \<open>The abstract view\<close>

text \<open>Under the invariant, looking up an index finds the entry that carries that index.\<close>

lemma get_entry_cases:
  assumes "log_wf s"
  shows "get_entry s i =
    (if log_offset s < i \<and> i \<le> last_log_index s then Some (rlog s ! (i - log_offset s - 1)) else None)"
  using log_wf_last_index [OF assms] by (auto simp: get_entry_def Let_def)

lemma get_entry_index: "log_wf s \<Longrightarrow> get_entry s i = Some e \<Longrightarrow> le_index e = i"
proof -
  assume wf: "log_wf s" and "get_entry s i = Some e"
  then have i: "log_offset s < i" "i \<le> last_log_index s" and e: "e = rlog s ! (i - log_offset s - 1)"
    by (auto simp: get_entry_cases split: if_splits)
  from wf i have "le_index e = Suc (log_offset s) + (i - log_offset s - 1)"
    unfolding e by (intro indexed_from_nth) (auto simp: log_wf_def log_wf_last_index)
  with i show ?thesis by simp
qed

lemma get_entry_iff:
  assumes "log_wf s"
  shows "get_entry s i = Some e \<longleftrightarrow> e \<in> set (rlog s) \<and> le_index e = i"
proof
  assume g: "get_entry s i = Some e"
  with get_entry_index [OF assms] show "e \<in> set (rlog s) \<and> le_index e = i"
    by (auto simp: get_entry_def Let_def split: if_splits)
next
  assume "e \<in> set (rlog s) \<and> le_index e = i"
  then obtain k where k: "k < length (rlog s)" "rlog s ! k = e" and i: "le_index e = i"
    by (auto simp: in_set_conv_nth)
  with assms have "i = Suc (log_offset s) + k"
    by (metis indexed_from_nth log_wf_def)
  with k assms show "get_entry s i = Some e"
    by (simp add: get_entry_cases log_wf_last_index)
qed

lemma get_entry_some_iff:
  "log_wf s \<Longrightarrow> get_entry s i \<noteq> None \<longleftrightarrow> log_offset s < i \<and> i \<le> last_log_index s"
  by (simp add: get_entry_cases)

text \<open>\<open>get_entries_from\<close> returns all entries whose index is at least the requested one.\<close>

lemma get_entries_from_filter:
  assumes wf: "log_wf s" and room: "log_offset s < u64_max"
  shows "get_entries_from s start = filter (\<lambda>e. start \<le> le_index e) (rlog s)"
proof -
  let ?eff = "max start (Suc (log_offset s))"
  have ix: "indexed_from (Suc (log_offset s)) (rlog s)" using wf by (simp add: log_wf_def)
  have "filter (\<lambda>e. start \<le> le_index e) (rlog s) = filter (\<lambda>e. ?eff \<le> le_index e) (rlog s)"
  proof (rule filter_cong [OF refl])
    fix e assume "e \<in> set (rlog s)"
    then have "le_index e \<in> set (map le_index (rlog s))" by simp
    with ix have "Suc (log_offset s) \<le> le_index e" unfolding indexed_from_def by (auto simp del: upt_Suc)
    then show "(start \<le> le_index e) = (?eff \<le> le_index e)" by simp
  qed
  also have "\<dots> = drop (?eff - Suc (log_offset s)) (rlog s)"
    by (rule indexed_from_filter [OF ix]) simp
  also have "\<dots> = get_entries_from s start"
    using log_wf_last_index [OF wf] u64_inc_small [OF room]
    by (auto simp: get_entries_from_def Let_def max_def)
  finally show ?thesis by simp
qed

lemma get_entries_from_drop:
  assumes "log_wf s" and "log_offset s < u64_max" and "log_offset s < start"
  shows "get_entries_from s start = drop (start - Suc (log_offset s)) (rlog s)"
  using get_entries_from_filter [OF assms(1,2)] indexed_from_filter [of "Suc (log_offset s)"] assms
  by (simp add: log_wf_def)

section \<open>Operations on the log\<close>

lemma append_entry_wf [wf_keep]:
  assumes "log_wf s" and "last_log_index s < u64_max"
  shows "log_wf (fst (append_entry c s))"
  using assms log_wf_last_index [OF assms(1)]
  by (auto simp: log_wf_def append_entry_def Let_def indexed_from_append u64_inc_small)

text \<open>A leader only ever extends its log (Leader Append-Only), with its own term.\<close>

lemma append_entry_log:
  "rlog (fst (append_entry c s)) = rlog s @ [snd (append_entry c s)]"
  "le_term (snd (append_entry c s)) = current_term s"
  "le_command (snd (append_entry c s)) = c"
  "last_log_index s < u64_max \<Longrightarrow> le_index (snd (append_entry c s)) = Suc (last_log_index s)"
  by (simp_all add: append_entry_def Let_def u64_inc_small)

lemma append_entry_last: "last_log_index (fst (append_entry c s)) = u64_inc (last_log_index s)"
  by (simp add: append_entry_def Let_def last_log_index_def)

lemma append_entry_get:
  assumes wf: "log_wf s" and room: "last_log_index s < u64_max"
  shows "get_entry (fst (append_entry c s)) i =
    (if i = Suc (last_log_index s) then Some (snd (append_entry c s)) else get_entry s i)"
proof -
  have "log_offset (fst (append_entry c s)) = log_offset s"
    by (simp add: append_entry_def Let_def)
  then show ?thesis
    using log_wf_last_index [OF wf] append_entry_last [of c s] u64_inc_small [OF room]
    by (auto simp: get_entry_cases [OF wf] get_entry_cases [OF append_entry_wf [OF wf room]]
        append_entry_log nth_append)
qed

lemma truncate_and_append_wf [wf_keep]:
  assumes wf: "log_wf s" and "log_offset s < from" and "from \<le> Suc (last_log_index s)"
    and es: "indexed_from from es" and "from + length es \<le> Suc u64_max"
  shows "log_wf (truncate_and_append from es s)"
proof -
  let ?v = "from - Suc (log_offset s)"
  have v: "?v \<le> length (rlog s)" using assms log_wf_last_index [OF wf] by simp
  have "rlog (truncate_and_append from es s) = take ?v (rlog s) @ es"
    using assms(2) by (simp add: truncate_and_append_def Let_def)
  moreover have "indexed_from (Suc (log_offset s)) (take ?v (rlog s) @ es)"
    using wf es v assms(2) by (simp add: indexed_from_append indexed_from_take log_wf_def min_def)
  ultimately show ?thesis
    using wf v assms(2,5) by (auto simp: log_wf_def truncate_and_append_def Let_def)
qed

lemma truncate_and_append_log:
  assumes "log_wf s" and "log_offset s < from" and "from \<le> Suc (last_log_index s)"
  shows "rlog (truncate_and_append from es s) = take (from - Suc (log_offset s)) (rlog s) @ es"
  using assms by (simp add: truncate_and_append_def Let_def)

lemma truncate_and_append_last:
  assumes "log_wf s" and "log_offset s < from" and "from \<le> Suc (last_log_index s)"
    and "indexed_from from es" and "from + length es \<le> Suc u64_max"
  shows "Suc (last_log_index (truncate_and_append from es s)) = from + length es"
proof -
  have "log_offset (truncate_and_append from es s) = log_offset s"
    by (simp add: truncate_and_append_def Let_def)
  with log_wf_last_index [OF truncate_and_append_wf [OF assms]]
    truncate_and_append_log [OF assms(1-3), of es] log_wf_last_index [OF assms(1)] assms(2,3)
  show ?thesis by simp
qed

text \<open>
  As maps: below \<open>from\<close> the old entries, from there on exactly the new ones.
\<close>

lemma truncate_and_append_get:
  assumes wf: "log_wf s" and lo: "log_offset s < from" and hi: "from \<le> Suc (last_log_index s)"
    and es: "indexed_from from es" and bd: "from + length es \<le> Suc u64_max"
  shows "get_entry (truncate_and_append from es s) i =
    (if i < from then get_entry s i
     else if i < from + length es then Some (es ! (i - from)) else None)"
proof -
  have "log_offset (truncate_and_append from es s) = log_offset s"
    by (simp add: truncate_and_append_def Let_def)
  then show ?thesis
    using truncate_and_append_last [OF assms] log_wf_last_index [OF wf] lo hi
    by (auto simp: get_entry_cases [OF wf] get_entry_cases [OF truncate_and_append_wf [OF assms]]
        truncate_and_append_log [OF wf lo hi] nth_append)
qed

section \<open>Compaction and snapshots\<close>

lemma compact_log_wf [wf_keep]:
  assumes wf: "log_wf s" and "last_included_index sn \<le> u64_max"
  shows "log_wf (compact_log sn s)"
proof (cases "last_included_index sn \<le> log_offset s")
  case True
  with wf show ?thesis by (simp add: compact_log_def)
next
  case False
  let ?d = "last_included_index sn - log_offset s"
  have off: "Suc (log_offset s) + ?d = Suc (last_included_index sn)" using False by simp
  have "indexed_from (Suc (last_included_index sn)) (drop ?d (rlog s))"
  proof (cases "?d \<le> length (rlog s)")
    case True
    then show ?thesis
      using indexed_from_drop [of "Suc (log_offset s)" "rlog s" ?d] wf off by (simp add: log_wf_def)
  qed simp
  then show ?thesis
    using False assms by (auto simp: log_wf_def compact_log_def Let_def)
qed

lemma compact_log_get:
  assumes wf: "log_wf s" and bd: "last_included_index sn \<le> u64_max"
  shows "get_entry (compact_log sn s) i = (if i \<le> last_included_index sn then None else get_entry s i)"
proof (cases "last_included_index sn \<le> log_offset s")
  case True
  then show ?thesis by (auto simp: compact_log_def get_entry_def)
next
  case False
  then show ?thesis by (auto simp: compact_log_def get_entry_def Let_def)
qed

lemma compact_log_offset:
  "log_offset (compact_log sn s) = max (log_offset s) (last_included_index sn)"
  by (auto simp: compact_log_def Let_def)

lemma compact_log_last:
  assumes "log_wf s" and "last_included_index sn \<le> last_log_index s"
  shows "last_log_index (compact_log sn s) = last_log_index s"
proof -
  have "log_wf (compact_log sn s)"
    using assms log_wf_last_bound [OF assms(1)] by (intro compact_log_wf) auto
  from log_wf_last_index [OF this] log_wf_last_index [OF assms(1)] assms(2)
  show ?thesis by (auto simp: compact_log_def Let_def)
qed

lemma compact_log_idempotent: "compact_log sn (compact_log sn s) = compact_log sn s"
  by (simp add: compact_log_def Let_def)

lemma install_snapshot_log:
  assumes wf: "log_wf s" and "log_offset s < last_included_index sn" and "last_included_index sn < u64_max"
  shows "rlog (fst (install_snapshot sn s)) = drop (last_included_index sn - log_offset s) (rlog s)"
  using assms indexed_from_filter [of "Suc (log_offset s)" "rlog s" "Suc (last_included_index sn)"]
  by (simp add: install_snapshot_def Let_def u64_inc_small log_wf_def)

lemma install_snapshot_wf [wf_keep]:
  assumes wf: "log_wf s" and bd: "last_included_index sn < u64_max"
  shows "log_wf (fst (install_snapshot sn s))"
proof (cases "last_included_index sn \<le> log_offset s")
  case True
  with wf show ?thesis by (simp add: install_snapshot_def)
next
  case False
  then have "rlog (fst (install_snapshot sn s)) = rlog (compact_log sn s)"
    using install_snapshot_log [OF wf _ bd] by (simp add: compact_log_def Let_def)
  with False compact_log_wf [OF wf, of sn] bd show ?thesis
    by (simp add: log_wf_def install_snapshot_def compact_log_def Let_def)
qed

lemma install_snapshot_get:
  assumes wf: "log_wf s" and bd: "last_included_index sn < u64_max"
  shows "get_entry (fst (install_snapshot sn s)) i =
    (if i \<le> last_included_index sn then None else get_entry s i)"
proof (cases "last_included_index sn \<le> log_offset s")
  case True
  then show ?thesis by (auto simp: install_snapshot_def get_entry_def)
next
  case False
  have "get_entry (fst (install_snapshot sn s)) i = get_entry (compact_log sn s) i"
    using False install_snapshot_log [OF wf _ bd]
    by (simp add: get_entry_def compact_log_def install_snapshot_def Let_def)
  with compact_log_get [OF wf, of sn i] bd show ?thesis by simp
qed

lemma install_snapshot_fields:
  "log_offset (fst (install_snapshot sn s)) = max (log_offset s) (last_included_index sn)"
  "snapshot (fst (install_snapshot sn s)) = (if log_offset s < last_included_index sn then Some sn else snapshot s)"
  "last_included_index sn \<le> log_offset s \<Longrightarrow> fst (install_snapshot sn s) = s"
  by (auto simp: install_snapshot_def Let_def)

lemma install_snapshot_result: "snd (install_snapshot sn s) \<longleftrightarrow> log_offset s < last_included_index sn"
  by (auto simp: install_snapshot_def Let_def)

section \<open>Applied, committed and stored\<close>

text \<open>
  The order of the three positions of the log: what the snapshot covers has been applied, and
  what has been applied is committed.
\<close>

definition applied_wf :: "raft_state \<Rightarrow> bool" where
  "applied_wf s \<longleftrightarrow> log_offset s \<le> last_applied s \<and> last_applied s \<le> commit_index s"

lemma applied_wf_new [wf_keep]: "applied_wf raft_new"
  by (simp add: applied_wf_def raft_new_def)

lemma applied_wf_install [wf_keep]: "applied_wf s \<Longrightarrow> applied_wf (fst (install_snapshot sn s))"
  by (auto simp: applied_wf_def install_snapshot_def Let_def)

lemma applied_wf_compact [wf_keep]:
  "applied_wf s \<Longrightarrow> last_included_index sn \<le> last_applied s \<Longrightarrow> applied_wf (compact_log sn s)"
  by (auto simp: applied_wf_def compact_log_def Let_def)

section \<open>Elections\<close>

text \<open>The vote restriction compares logs by last term, then by last index.\<close>

definition log_le :: "u64 \<times> u64 \<Rightarrow> u64 \<times> u64 \<Rightarrow> bool" where
  "log_le a b \<longleftrightarrow> fst a < fst b \<or> (fst a = fst b \<and> snd a \<le> snd b)"

abbreviation log_position :: "raft_state \<Rightarrow> u64 \<times> u64" where
  "log_position s \<equiv> (last_log_term s, last_log_index s)"

lemma is_log_up_to_date_le: "is_log_up_to_date s idx trm \<longleftrightarrow> log_le (log_position s) (trm, idx)"
  by (auto simp: is_log_up_to_date_def log_le_def)

lemma log_le_total: "log_le a b \<or> log_le b a"
  by (auto simp: log_le_def)

lemma log_le_trans: "log_le a b \<Longrightarrow> log_le b c \<Longrightarrow> log_le a c"
  by (auto simp: log_le_def)

lemma log_le_antisym: "log_le a b \<Longrightarrow> log_le b a \<Longrightarrow> a = b"
  by (cases a; cases b) (auto simp: log_le_def)

lemma log_le_refl [simp]: "log_le a a"
  by (simp add: log_le_def)

lemma role_log_frame [frame, simp]:
  "rlog (become_follower t s) = rlog s" "log_offset (become_follower t s) = log_offset s"
  "snapshot (become_follower t s) = snapshot s" "commit_index (become_follower t s) = commit_index s"
  "last_applied (become_follower t s) = last_applied s"
  "rlog (become_candidate me s) = rlog s" "log_offset (become_candidate me s) = log_offset s"
  "snapshot (become_candidate me s) = snapshot s" "commit_index (become_candidate me s) = commit_index s"
  "last_applied (become_candidate me s) = last_applied s"
  "rlog (become_leader me ps s) = rlog s" "log_offset (become_leader me ps s) = log_offset s"
  "snapshot (become_leader me ps s) = snapshot s" "commit_index (become_leader me ps s) = commit_index s"
  "last_applied (become_leader me ps s) = last_applied s"
  "current_term (become_leader me ps s) = current_term s"
  "voted_for (become_leader me ps s) = voted_for s"
  by (simp_all add: role_defs)

lemma role_sel [simp]:
  "current_term (become_follower t s) = t" "voted_for (become_follower t s) = None"
  "role (become_follower t s) = Follower"
  "current_term (become_candidate me s) = u64_inc (current_term s)"
  "voted_for (become_candidate me s) = Some me" "role (become_candidate me s) = Candidate"
  "current_term (become_leader me ps s) = current_term s" "voted_for (become_leader me ps s) = voted_for s"
  "role (become_leader me ps s) = Leader"
  by (simp_all add: become_follower_def become_candidate_def become_leader_def)

lemma log_ops_frame [simp]:
  "last_log_index (become_follower t s) = last_log_index s"
  "last_log_term (become_follower t s) = last_log_term s"
  "last_log_index (become_candidate me s) = last_log_index s"
  "last_log_term (become_candidate me s) = last_log_term s"
  "last_log_index (become_leader me ps s) = last_log_index s"
  "get_entry (become_follower t s) i = get_entry s i"
  by (simp_all add: last_log_index_def last_log_term_def get_entry_def Let_def)

lemma log_wf_frame:
  "rlog s' = rlog s \<Longrightarrow> log_offset s' = log_offset s \<Longrightarrow> snapshot s' = snapshot s \<Longrightarrow> log_wf s' = log_wf s"
  by (simp add: log_wf_def)

lemma log_wf_roles [simp]:
  "log_wf (become_follower t s) = log_wf s"
  "log_wf (become_candidate me s) = log_wf s"
  "log_wf (become_leader me ps s) = log_wf s"
  by (simp_all add: log_wf_def)

lemma init_peers_fold:
  "hm_get (foldl (\<lambda>m p. hm_insert p v m) m0 ps) q = (if q \<in> set ps then Some v else hm_get m0 q)"
  by (induction ps arbitrary: m0) auto

lemma init_peers_get: "hm_get (init_peers ps v) q = (if q \<in> set ps then Some v else None)"
  by (simp add: init_peers_def init_peers_fold)

lemma init_peers_wf: "hm_wf (init_peers ps v)"
proof -
  have "hm_wf m0 \<Longrightarrow> hm_wf (foldl (\<lambda>m p. hm_insert p v m) m0 ps)" for m0 :: "(node_id, u64) hmap"
    by (induction ps arbitrary: m0) (auto intro: hm.wf_insert)
  then show ?thesis by (simp add: init_peers_def)
qed

text \<open>A new leader starts every peer right after its own last entry, with nothing matched.\<close>

lemma become_leader_peers:
  assumes "p \<in> set peers"
  shows "hm_get (next_index (become_leader me peers s)) p = Some (u64_inc (last_log_index s))"
    and "hm_get (match_index (become_leader me peers s)) p = Some 0"
  using assms by (simp_all add: become_leader_def init_peers_get)

end
