(* ===== verification/External.thy ===== *)
theory External
  imports Job
begin

text \<open>
  The functions of third-party crates that the conversions call, as one record that the
  definitions take as an argument: \<open>uuid\<close>'s \<open>parse_str\<close> and \<open>to_string\<close>, and \<open>chrono\<close>'s
  \<open>timestamp_millis\<close> and \<open>timestamp_millis_opt(..).single()\<close>. What the code relies on is stated
  by the two predicates below, which are hypotheses of the theorems that need them.
\<close>

record ext =
  parse_uuid :: "string \<Rightarrow> uuid option"
  show_uuid :: "uuid \<Rightarrow> string"
  of_millis :: "int \<Rightarrow> datetime option"
  to_millis :: "datetime \<Rightarrow> int"

text \<open>The hyphenated form of a UUID parses back.\<close>

definition uuid_laws :: "ext \<Rightarrow> bool" where
  "uuid_laws X \<longleftrightarrow> (\<forall>u. parse_uuid X (show_uuid X u) = Some u)"

text \<open>
  The instant made from a number of milliseconds has that timestamp, and the epoch (the default
  instant) is at 0.
\<close>

definition chrono_laws :: "ext \<Rightarrow> bool" where
  "chrono_laws X \<longleftrightarrow>
     (\<forall>ms d. of_millis X ms = Some d \<longrightarrow> to_millis X d = ms) \<and> of_millis X 0 = Some 0"

lemma parse_show_uuid: "uuid_laws X \<Longrightarrow> parse_uuid X (show_uuid X u) = Some u"
  by (simp add: uuid_laws_def)

lemma show_uuid_inj: "uuid_laws X \<Longrightarrow> show_uuid X u = show_uuid X v \<Longrightarrow> u = v"
  by (metis option.inject uuid_laws_def)

text \<open>An instant with no fraction of a millisecond, in chrono's range.\<close>

definition whole_ms :: "ext \<Rightarrow> datetime \<Rightarrow> bool" where
  "whole_ms X d \<longleftrightarrow> of_millis X (to_millis X d) = Some d"

text \<open>
  A concrete instance, for the closed examples: identifiers written in unary, instants in
  nanoseconds with chrono's floor on the way to milliseconds.
\<close>

definition ext_unary :: ext where
  "ext_unary =
     \<lparr>parse_uuid = (\<lambda>s. Some (length s)), show_uuid = (\<lambda>u. replicate u CHR ''x''),
      of_millis = (\<lambda>ms. Some (ms * 1000000)), to_millis = (\<lambda>d. d div 1000000)\<rparr>"

lemma ext_unary_laws: "uuid_laws ext_unary" "chrono_laws ext_unary"
  by (simp_all add: uuid_laws_def chrono_laws_def ext_unary_def)

end
