(* ===== verification/Raft_Rpc.thy ===== *)
theory Raft_Rpc
  imports Raft_State External
begin

text \<open>
  The Raft messages (\<open>proto/scheduler.proto\<close>) and their conversion from and to the internal types
  (\<open>src/raft/rpc.rs\<close>).
\<close>

section \<open>Messages\<close>

datatype proto_job_status = PUnspecified | PPending | PRunning | PCompleted | PFailed | PCancelled

record proto_update =
  pu_job_id :: string
  pu_status :: int
  pu_executed_by :: u64
  pu_exit_code :: "i32 option"
  pu_completed_at_ms :: "int option"

datatype proto_command =
    P_SubmitJob string string int "string option"
  | P_UpdateJobStatus proto_update
  | P_RegisterWorker u64
  | P_BatchUpdateJobStatus "proto_update list"
  | P_AssignJob string u64
  | P_CancelJob string

text \<open>The outer option is the presence of the command message, the inner one that of its \<open>oneof\<close>.\<close>

record proto_log_entry =
  pe_term :: u64
  pe_index :: u64
  pe_command :: "proto_command option option"

record proto_snapshot_job =
  psj_job_id :: string
  psj_command :: string
  psj_status :: int
  psj_assigned_worker :: u64
  psj_executed_by :: u64
  psj_exit_code :: "i32 option"
  psj_created_at_ms :: int
  psj_completed_at_ms :: "int option"
  psj_image :: "string option"

record vote_request =
  vr_term :: u64
  vr_candidate_id :: node_id
  vr_last_log_index :: u64
  vr_last_log_term :: u64

record vote_response =
  vres_term :: u64
  vote_granted :: bool

record append_entries_request =
  ae_term :: u64
  ae_leader_id :: node_id
  ae_prev_log_index :: u64
  ae_prev_log_term :: u64
  ae_entries :: "proto_log_entry list"
  ae_leader_commit :: u64

record append_entries_response =
  aer_term :: u64
  aer_success :: bool
  aer_match_index :: u64

record install_snapshot_request =
  is_term :: u64
  is_leader_id :: node_id
  is_last_included_index :: u64
  is_last_included_term :: u64
  is_jobs :: "proto_snapshot_job list"
  is_workers :: "u64 list"

record install_snapshot_response =
  isr_term :: u64

section \<open>Conversions\<close>

text \<open>The discriminants of the enum, \<open>as i32\<close> and \<open>try_from\<close>.\<close>

fun proto_status_number :: "proto_job_status \<Rightarrow> int" where
  "proto_status_number PUnspecified = 0"
| "proto_status_number PPending = 1"
| "proto_status_number PRunning = 2"
| "proto_status_number PCompleted = 3"
| "proto_status_number PFailed = 4"
| "proto_status_number PCancelled = 5"

definition proto_status_try_from :: "int \<Rightarrow> proto_job_status option" where
  "proto_status_try_from n =
     (if n = 0 then Some PUnspecified else if n = 1 then Some PPending
      else if n = 2 then Some PRunning else if n = 3 then Some PCompleted
      else if n = 4 then Some PFailed else if n = 5 then Some PCancelled else None)"

text \<open>The generated getter and \<open>try_from(..).unwrap_or(Unspecified)\<close>: an unknown number is unspecified.\<close>

definition proto_status_or_default :: "int \<Rightarrow> proto_job_status" where
  "proto_status_or_default n =
     (case proto_status_try_from n of Some st \<Rightarrow> st | None \<Rightarrow> PUnspecified)"

fun proto_status_to_internal :: "proto_job_status \<Rightarrow> job_status" where
  "proto_status_to_internal PPending = Pending"
| "proto_status_to_internal PRunning = Running"
| "proto_status_to_internal PCompleted = Completed"
| "proto_status_to_internal PFailed = Failed"
| "proto_status_to_internal PCancelled = Cancelled"
| "proto_status_to_internal PUnspecified = Pending"

fun internal_status_to_proto :: "job_status \<Rightarrow> proto_job_status" where
  "internal_status_to_proto Pending = PPending"
| "internal_status_to_proto Running = PRunning"
| "internal_status_to_proto Completed = PCompleted"
| "internal_status_to_proto Failed = PFailed"
| "internal_status_to_proto Cancelled = PCancelled"

definition ms_to_datetime :: "ext \<Rightarrow> int \<Rightarrow> datetime" where
  "ms_to_datetime X ms = (case of_millis X ms of Some d \<Rightarrow> d | None \<Rightarrow> 0)"

text \<open>\<open>image.filter(|s| !s.is_empty())\<close>.\<close>

definition nonempty_image :: "string option \<Rightarrow> string option" where
  "nonempty_image img = (case img of Some s \<Rightarrow> if s = [] then None else Some s | None \<Rightarrow> None)"

definition proto_to_update :: "ext \<Rightarrow> proto_update \<Rightarrow> job_status_update option" where
  "proto_to_update X u =
     (case parse_uuid X (pu_job_id u) of
        None \<Rightarrow> None
      | Some i \<Rightarrow> Some \<lparr>jsu_job_id = i,
          jsu_status = proto_status_to_internal (proto_status_or_default (pu_status u)),
          jsu_executed_by = pu_executed_by u, jsu_exit_code = pu_exit_code u,
          jsu_completed_at = map_option (ms_to_datetime X) (pu_completed_at_ms u)\<rparr>)"

definition proto_to_command :: "ext \<Rightarrow> proto_command option option \<Rightarrow> command option" where
  "proto_to_command X pc =
     (case pc of
        Some (Some (P_SubmitJob i cmd ms img)) \<Rightarrow>
          map_option (\<lambda>i. SubmitJob i cmd (ms_to_datetime X ms) (nonempty_image img)) (parse_uuid X i)
      | Some (Some (P_UpdateJobStatus u)) \<Rightarrow>
          map_option (\<lambda>v. UpdateJobStatus (jsu_job_id v) (jsu_status v) (jsu_executed_by v)
            (jsu_exit_code v) (jsu_completed_at v)) (proto_to_update X u)
      | Some (Some (P_RegisterWorker w)) \<Rightarrow> Some (RegisterWorker w)
      | Some (Some (P_AssignJob i w)) \<Rightarrow> map_option (\<lambda>i. AssignJob i w) (parse_uuid X i)
      | Some (Some (P_BatchUpdateJobStatus us)) \<Rightarrow>
          map_option BatchUpdateJobStatus (those (map (proto_to_update X) us))
      | Some (Some (P_CancelJob i)) \<Rightarrow> map_option CancelJob (parse_uuid X i)
      | Some None \<Rightarrow> Some Noop
      | None \<Rightarrow> Some Noop)"

definition proto_to_log_entry :: "ext \<Rightarrow> proto_log_entry \<Rightarrow> log_entry option" where
  "proto_to_log_entry X p =
     (case proto_to_command X (pe_command p) of
        None \<Rightarrow> None
      | Some c \<Rightarrow> Some \<lparr>le_term = pe_term p, le_index = pe_index p, le_command = c\<rparr>)"

definition update_to_proto :: "ext \<Rightarrow> job_status_update \<Rightarrow> proto_update" where
  "update_to_proto X u =
     \<lparr>pu_job_id = show_uuid X (jsu_job_id u),
      pu_status = proto_status_number (internal_status_to_proto (jsu_status u)),
      pu_executed_by = jsu_executed_by u, pu_exit_code = jsu_exit_code u,
      pu_completed_at_ms = map_option (to_millis X) (jsu_completed_at u)\<rparr>"

fun command_to_proto :: "ext \<Rightarrow> command \<Rightarrow> proto_command option option" where
  "command_to_proto X (SubmitJob i cmd t img) =
     Some (Some (P_SubmitJob (show_uuid X i) cmd (to_millis X t) img))"
| "command_to_proto X (UpdateJobStatus i st b code t) =
     Some (Some (P_UpdateJobStatus
       \<lparr>pu_job_id = show_uuid X i, pu_status = proto_status_number (internal_status_to_proto st),
        pu_executed_by = b, pu_exit_code = code, pu_completed_at_ms = map_option (to_millis X) t\<rparr>))"
| "command_to_proto X (BatchUpdateJobStatus us) =
     Some (Some (P_BatchUpdateJobStatus (map (update_to_proto X) us)))"
| "command_to_proto X (RegisterWorker w) = Some (Some (P_RegisterWorker w))"
| "command_to_proto X (AssignJob i w) = Some (Some (P_AssignJob (show_uuid X i) w))"
| "command_to_proto X (CancelJob i) = Some (Some (P_CancelJob (show_uuid X i)))"
| "command_to_proto X Noop = None"

definition log_entry_to_proto :: "ext \<Rightarrow> log_entry \<Rightarrow> proto_log_entry" where
  "log_entry_to_proto X e =
     \<lparr>pe_term = le_term e, pe_index = le_index e, pe_command = command_to_proto X (le_command e)\<rparr>"

definition proto_to_snapshot_job :: "ext \<Rightarrow> proto_snapshot_job \<Rightarrow> snapshot_job option" where
  "proto_to_snapshot_job X p =
     (case parse_uuid X (psj_job_id p) of
        None \<Rightarrow> None
      | Some i \<Rightarrow> Some \<lparr>sj_id = i, sj_command = psj_command p,
          sj_status = proto_status_to_internal (proto_status_or_default (psj_status p)),
          sj_assigned_worker = psj_assigned_worker p, sj_executed_by = psj_executed_by p,
          sj_exit_code = psj_exit_code p, sj_created_at = ms_to_datetime X (psj_created_at_ms p),
          sj_completed_at = map_option (ms_to_datetime X) (psj_completed_at_ms p),
          sj_image = nonempty_image (psj_image p)\<rparr>)"

definition snapshot_job_to_proto :: "ext \<Rightarrow> snapshot_job \<Rightarrow> proto_snapshot_job" where
  "snapshot_job_to_proto X j =
     \<lparr>psj_job_id = show_uuid X (sj_id j), psj_command = sj_command j,
      psj_status = proto_status_number (internal_status_to_proto (sj_status j)),
      psj_assigned_worker = sj_assigned_worker j, psj_executed_by = sj_executed_by j,
      psj_exit_code = sj_exit_code j, psj_created_at_ms = to_millis X (sj_created_at j),
      psj_completed_at_ms = map_option (to_millis X) (sj_completed_at j), psj_image = sj_image j\<rparr>"

text \<open>The entries of a request; malformed ones are skipped.\<close>

definition new_entries :: "ext \<Rightarrow> append_entries_request \<Rightarrow> log_entry list" where
  "new_entries X req = List.map_filter (proto_to_log_entry X) (ae_entries req)"

section \<open>Status codecs\<close>

text \<open>
  The job status crosses the wire as a number. Every encoder of the code comes with a decoder that
  inverts it; the interface is interpreted here for the Raft messages and again for the client API.
\<close>

locale status_codec =
  fixes encode :: "job_status \<Rightarrow> int"
    and decode :: "int \<Rightarrow> job_status option"
  assumes decode_encode: "decode (encode st) = Some st"
begin

lemma encode_inj: "encode a = encode b \<Longrightarrow> a = b"
  by (metis decode_encode option.inject)

lemma encode_eq_iff [simp]: "encode a = encode b \<longleftrightarrow> a = b"
  using encode_inj by blast

end

definition raft_encode_status :: "job_status \<Rightarrow> int" where
  "raft_encode_status st = proto_status_number (internal_status_to_proto st)"

definition raft_decode_status :: "int \<Rightarrow> job_status option" where
  "raft_decode_status n = Some (proto_status_to_internal (proto_status_or_default n))"

interpretation raft_status: status_codec raft_encode_status raft_decode_status
proof
  fix st show "raft_decode_status (raft_encode_status st) = Some st"
    by (cases st) (simp_all add: raft_decode_status_def raft_encode_status_def
        proto_status_or_default_def proto_status_try_from_def)
qed

lemma status_round_trip [simp]:
  "proto_status_to_internal (proto_status_or_default (proto_status_number (internal_status_to_proto st))) = st"
  using raft_status.decode_encode [of st] by (simp add: raft_decode_status_def raft_encode_status_def)

lemma proto_status_try_from_number [simp]: "proto_status_try_from (proto_status_number p) = Some p"
  by (cases p) (simp_all add: proto_status_try_from_def)

section \<open>Round trips\<close>

text \<open>
  What the trip through protobuf does to a command: instants lose their fraction of a millisecond
  and an empty image name becomes no image.
\<close>

definition norm_time :: "ext \<Rightarrow> datetime \<Rightarrow> datetime" where
  "norm_time X d = ms_to_datetime X (to_millis X d)"

definition norm_update :: "ext \<Rightarrow> job_status_update \<Rightarrow> job_status_update" where
  "norm_update X u = u\<lparr>jsu_completed_at := map_option (norm_time X) (jsu_completed_at u)\<rparr>"

fun norm_command :: "ext \<Rightarrow> command \<Rightarrow> command" where
  "norm_command X (SubmitJob i cmd t img) = SubmitJob i cmd (norm_time X t) (nonempty_image img)"
| "norm_command X (UpdateJobStatus i st b code t) = UpdateJobStatus i st b code (map_option (norm_time X) t)"
| "norm_command X (BatchUpdateJobStatus us) = BatchUpdateJobStatus (map (norm_update X) us)"
| "norm_command X c = c"

definition norm_entry :: "ext \<Rightarrow> log_entry \<Rightarrow> log_entry" where
  "norm_entry X e = e\<lparr>le_command := norm_command X (le_command e)\<rparr>"

lemma norm_entry_sel [simp]:
  "le_term (norm_entry X e) = le_term e" "le_index (norm_entry X e) = le_index e"
  by (simp_all add: norm_entry_def)

lemma proto_to_update_to_proto:
  "uuid_laws X \<Longrightarrow> proto_to_update X (update_to_proto X u) = Some (norm_update X u)"
  by (cases u) (simp add: proto_to_update_def update_to_proto_def parse_show_uuid norm_update_def
      option.map_comp comp_def norm_time_def [abs_def])

lemma proto_to_command_to_proto:
  assumes "uuid_laws X"
  shows "proto_to_command X (command_to_proto X c) = Some (norm_command X c)"
proof (cases c)
  case (BatchUpdateJobStatus us)
  have "those (map (proto_to_update X) (map (update_to_proto X) us)) = Some (map (norm_update X) us)"
    unfolding map_map comp_def using assms by (intro those_map_Some) (simp add: proto_to_update_to_proto)
  with BatchUpdateJobStatus show ?thesis by (simp add: proto_to_command_def)
qed (simp_all add: proto_to_command_def proto_to_update_def parse_show_uuid [OF assms] norm_time_def [abs_def]
    option.map_comp comp_def)

lemma log_entry_round_trip:
  assumes "uuid_laws X"
  shows "proto_to_log_entry X (log_entry_to_proto X e) = Some (norm_entry X e)"
  using assms by (simp add: proto_to_log_entry_def log_entry_to_proto_def proto_to_command_to_proto
      norm_entry_def)

text \<open>Entries that are already in that form are unchanged, and the form is reached in one trip.\<close>

definition canonical_time :: "ext \<Rightarrow> datetime \<Rightarrow> bool" where
  "canonical_time X d \<longleftrightarrow> norm_time X d = d"

fun canonical_command :: "ext \<Rightarrow> command \<Rightarrow> bool" where
  "canonical_command X (SubmitJob i cmd t img) = (canonical_time X t \<and> img \<noteq> Some [])"
| "canonical_command X (UpdateJobStatus i st b code t) = pred_option (canonical_time X) t"
| "canonical_command X (BatchUpdateJobStatus us) =
     list_all (\<lambda>u. pred_option (canonical_time X) (jsu_completed_at u)) us"
| "canonical_command X c = True"

lemma nonempty_image_id [simp]: "img \<noteq> Some [] \<Longrightarrow> nonempty_image img = img"
  by (auto simp: nonempty_image_def split: option.splits)

lemma nonempty_image_idem [simp]: "nonempty_image (nonempty_image img) = nonempty_image img"
  by (auto simp: nonempty_image_def split: option.splits)

lemma norm_option_canonical: "pred_option (canonical_time X) t \<Longrightarrow> map_option (norm_time X) t = t"
  by (cases t) (simp_all add: canonical_time_def)

lemma norm_command_canonical: "canonical_command X c \<Longrightarrow> norm_command X c = c"
  by (cases c) (auto simp: canonical_time_def norm_option_canonical norm_update_def list_all_iff
      intro!: map_idI)

lemma norm_time_idem:
  assumes "chrono_laws X"
  shows "norm_time X (norm_time X d) = norm_time X d"
proof (cases "of_millis X (to_millis X d)")
  case (Some d')
  with assms have "to_millis X d' = to_millis X d" by (auto simp: chrono_laws_def)
  with Some show ?thesis by (simp add: norm_time_def ms_to_datetime_def)
next
  case None
  from assms have "of_millis X (to_millis X 0) = Some 0" by (auto simp: chrono_laws_def)
  with None show ?thesis by (simp add: norm_time_def ms_to_datetime_def)
qed

lemma norm_command_idem: "chrono_laws X \<Longrightarrow> norm_command X (norm_command X c) = norm_command X c"
  by (cases c) (simp_all add: norm_time_idem norm_update_def option.map_comp comp_def)

lemma norm_entry_idem: "chrono_laws X \<Longrightarrow> norm_entry X (norm_entry X e) = norm_entry X e"
  by (simp add: norm_entry_def norm_command_idem)

text \<open>Snapshot jobs make the same trip.\<close>

definition norm_snapshot_job :: "ext \<Rightarrow> snapshot_job \<Rightarrow> snapshot_job" where
  "norm_snapshot_job X j =
     j\<lparr>sj_created_at := norm_time X (sj_created_at j),
       sj_completed_at := map_option (norm_time X) (sj_completed_at j),
       sj_image := nonempty_image (sj_image j)\<rparr>"

lemma snapshot_job_round_trip:
  "uuid_laws X \<Longrightarrow> proto_to_snapshot_job X (snapshot_job_to_proto X j) = Some (norm_snapshot_job X j)"
  by (cases j) (simp add: proto_to_snapshot_job_def snapshot_job_to_proto_def parse_show_uuid
      norm_snapshot_job_def option.map_comp comp_def norm_time_def [abs_def])

lemma map_filter_map_Some:
  "(\<And>x. x \<in> set xs \<Longrightarrow> f x = Some (g x)) \<Longrightarrow> List.map_filter f xs = map g xs"
  by (induction xs) (simp_all add: List.map_filter_simps)

lemma map_filter_map: "List.map_filter f (map h xs) = List.map_filter (\<lambda>x. f (h x)) xs"
  by (induction xs) (simp_all add: List.map_filter_simps split: option.splits)

text \<open>A list of entries sent by a peer arrives complete, in order and normalised.\<close>

lemma new_entries_sent:
  assumes "uuid_laws X" and "ae_entries req = map (log_entry_to_proto X) es"
  shows "new_entries X req = map (norm_entry X) es"
  using assms by (simp add: new_entries_def map_filter_map map_filter_map_Some log_entry_round_trip)

lemma norm_entries_indexed [simp]: "indexed_from n (map (norm_entry X) es) = indexed_from n es"
  by (simp add: indexed_from_def comp_def)

end
