(* ===== verification/Raft_Handlers.thy ===== *)
theory Raft_Handlers
  imports Raft_Rpc
begin

text \<open>
  The three message handlers (\<open>handle_request_vote\<close>, \<open>handle_append_entries\<close> and
  \<open>handle_install_snapshot\<close> of \<open>src/raft/rpc.rs\<close>). A handler takes the request and the state and
  returns the new state with the response; the code's \<open>Result\<close> is always \<open>Ok\<close>.
\<close>

section \<open>Handlers\<close>

text \<open>\<open>handle_request_vote\<close>.\<close>

definition handle_request_vote :: "vote_request \<Rightarrow> raft_state \<Rightarrow> raft_state \<times> vote_response" where
  "handle_request_vote req s =
     (let s1 = (if current_term s < vr_term req then become_follower (vr_term req) s else s);
          (s2, granted) =
            (if vr_term req < current_term s1 then (s1, False)
             else if voted_for s1 \<noteq> None \<and> voted_for s1 \<noteq> Some (vr_candidate_id req) then (s1, False)
             else if \<not> is_log_up_to_date s1 (vr_last_log_index req) (vr_last_log_term req) then (s1, False)
             else (s1\<lparr>voted_for := Some (vr_candidate_id req)\<rparr>, True))
      in (s2, \<lparr>vres_term = current_term s2, vote_granted = granted\<rparr>))"

text \<open>The check of the entry before the new ones; on a term mismatch the log is cut there.\<close>

definition prev_log_check :: "append_entries_request \<Rightarrow> raft_state \<Rightarrow> raft_state \<times> bool" where
  "prev_log_check req s =
     (let prev = ae_prev_log_index req in
      if 0 < prev then
        if prev < log_offset s then (s, True)
        else if prev = log_offset s then
          (case snapshot s of
             Some sn \<Rightarrow> if last_included_term sn \<noteq> ae_prev_log_term req then (s, False) else (s, True)
           | None \<Rightarrow> (s, True))
        else
          (case get_entry s prev of
             None \<Rightarrow> (s, False)
           | Some e \<Rightarrow>
               if le_term e \<noteq> ae_prev_log_term req then
                 let v = prev - log_offset s - 1
                 in ((if v < length (rlog s) then s\<lparr>rlog := take v (rlog s)\<rparr> else s), False)
               else (s, True))
      else (s, True))"

text \<open>What happens once the request is accepted: append, then advance the commit index.\<close>

definition accept_entries :: "ext \<Rightarrow> append_entries_request \<Rightarrow> raft_state \<Rightarrow> raft_state" where
  "accept_entries X req s =
     (let s1 = (if ae_entries req \<noteq> []
                then truncate_and_append (u64_inc (ae_prev_log_index req)) (new_entries X req) s
                else s)
      in if commit_index s1 < ae_leader_commit req
         then s1\<lparr>commit_index := min (ae_leader_commit req) (last_log_index s1)\<rparr> else s1)"

definition ae_reply :: "bool \<Rightarrow> raft_state \<Rightarrow> append_entries_response" where
  "ae_reply ok s = \<lparr>aer_term = current_term s, aer_success = ok, aer_match_index = last_log_index s\<rparr>"

text \<open>Recognising the sender as the leader of the term, once its term is not stale.\<close>

definition acknowledge_leader :: "append_entries_request \<Rightarrow> raft_state \<Rightarrow> raft_state" where
  "acknowledge_leader req s =
     (let s2 = (if role s \<noteq> Follower then become_follower (ae_term req) s else s)
      in s2\<lparr>leader_id := Some (ae_leader_id req)\<rparr>)"

definition handle_append_entries ::
  "ext \<Rightarrow> append_entries_request \<Rightarrow> raft_state \<Rightarrow> raft_state \<times> append_entries_response" where
  "handle_append_entries X req s =
     (let s1 = (if current_term s < ae_term req then become_follower (ae_term req) s else s) in
      if ae_term req < current_term s1 then (s1, ae_reply False s1)
      else let s3 = acknowledge_leader req s1;
               (s4, ok) = prev_log_check req s3
           in if \<not> ok then (s4, ae_reply False s4)
              else let s5 = accept_entries X req s4 in (s5, ae_reply True s5))"

definition request_snapshot :: "ext \<Rightarrow> install_snapshot_request \<Rightarrow> raft_snapshot" where
  "request_snapshot X req =
     \<lparr>last_included_index = is_last_included_index req, last_included_term = is_last_included_term req,
      sn_jobs = List.map_filter (proto_to_snapshot_job X) (is_jobs req), sn_workers = is_workers req\<rparr>"

definition handle_install_snapshot ::
  "ext \<Rightarrow> install_snapshot_request \<Rightarrow> raft_state \<Rightarrow> raft_state \<times> install_snapshot_response" where
  "handle_install_snapshot X req s =
     (let s1 = (if current_term s < is_term req then become_follower (is_term req) s else s) in
      if is_term req < current_term s1 then (s1, \<lparr>isr_term = current_term s1\<rparr>)
      else let s2 = s1\<lparr>leader_id := Some (is_leader_id req)\<rparr>;
               (s3, installed) = install_snapshot (request_snapshot X req) s2
           in (s3, \<lparr>isr_term = current_term s3\<rparr>))"

section \<open>RequestVote\<close>

lemma rv_term: "current_term (fst (handle_request_vote req s)) = max (current_term s) (vr_term req)"
  by (auto simp: handle_request_vote_def Let_def become_follower_def)

lemma rv_response_term:
  "vres_term (snd (handle_request_vote req s)) = current_term (fst (handle_request_vote req s))"
  by (simp add: handle_request_vote_def Let_def split: prod.splits)

lemma rv_granted_iff:
  "vote_granted (snd (handle_request_vote req s)) \<longleftrightarrow>
     current_term s \<le> vr_term req \<and>
     (current_term s = vr_term req \<longrightarrow> voted_for s = None \<or> voted_for s = Some (vr_candidate_id req)) \<and>
     log_le (log_position s) (vr_last_log_term req, vr_last_log_index req)"
  by (auto simp: handle_request_vote_def Let_def become_follower_def is_log_up_to_date_le
      last_log_index_def last_log_term_def)

lemma rv_granted_vote:
  "vote_granted (snd (handle_request_vote req s)) \<Longrightarrow>
   voted_for (fst (handle_request_vote req s)) = Some (vr_candidate_id req) \<and>
   current_term (fst (handle_request_vote req s)) = vr_term req"
  by (auto simp: handle_request_vote_def Let_def become_follower_def split: if_splits)

text \<open>Within a term a vote, once cast, stays.\<close>

lemma rv_keeps_vote:
  "voted_for s = Some c \<Longrightarrow> vr_term req \<le> current_term s \<Longrightarrow>
   voted_for (fst (handle_request_vote req s)) = Some c"
  by (auto simp: handle_request_vote_def Let_def)

lemma rv_vote_change:
  "voted_for (fst (handle_request_vote req s)) =
     (if vote_granted (snd (handle_request_vote req s)) then Some (vr_candidate_id req)
      else if current_term s < vr_term req then None else voted_for s)"
  by (auto simp: handle_request_vote_def Let_def become_follower_def)

lemma rv_role:
  "role (fst (handle_request_vote req s)) = (if current_term s < vr_term req then Follower else role s)"
  by (auto simp: handle_request_vote_def Let_def become_follower_def)

lemma rv_frame [frame, simp]:
  "rlog (fst (handle_request_vote req s)) = rlog s"
  "log_offset (fst (handle_request_vote req s)) = log_offset s"
  "snapshot (fst (handle_request_vote req s)) = snapshot s"
  "commit_index (fst (handle_request_vote req s)) = commit_index s"
  "last_applied (fst (handle_request_vote req s)) = last_applied s"
  "next_index (fst (handle_request_vote req s)) = next_index s"
  "match_index (fst (handle_request_vote req s)) = match_index s"
  by (auto simp: handle_request_vote_def Let_def become_follower_def)

lemma rv_wf [wf_keep]: "log_wf s \<Longrightarrow> log_wf (fst (handle_request_vote req s))"
  by (simp add: log_wf_def)

section \<open>AppendEntries\<close>

text \<open>The state after the term and the leader have been adopted, before the log is looked at.\<close>

definition adopted :: "append_entries_request \<Rightarrow> raft_state \<Rightarrow> raft_state" where
  "adopted req s = acknowledge_leader req
     (if current_term s < ae_term req then become_follower (ae_term req) s else s)"

lemma hae_stale:
  "ae_term req < current_term s \<Longrightarrow> handle_append_entries X req s = (s, ae_reply False s)"
  by (simp add: handle_append_entries_def Let_def)

lemma hae_fresh:
  "current_term s \<le> ae_term req \<Longrightarrow>
   handle_append_entries X req s =
     (let (s4, ok) = prev_log_check req (adopted req s) in
      if \<not> ok then (s4, ae_reply False s4)
      else let s5 = accept_entries X req s4 in (s5, ae_reply True s5))"
  by (auto simp: handle_append_entries_def adopted_def Let_def become_follower_def split: prod.splits)

lemma adopted_sel [simp]:
  "rlog (adopted req s) = rlog s" "log_offset (adopted req s) = log_offset s"
  "snapshot (adopted req s) = snapshot s" "commit_index (adopted req s) = commit_index s"
  "last_applied (adopted req s) = last_applied s"
  "leader_id (adopted req s) = Some (ae_leader_id req)" "role (adopted req s) = Follower"
  "next_index (adopted req s) = next_index s" "match_index (adopted req s) = match_index s"
  by (auto simp: adopted_def acknowledge_leader_def Let_def become_follower_def)

lemma adopted_term: "current_term s \<le> ae_term req \<Longrightarrow> current_term (adopted req s) = ae_term req"
  by (auto simp: adopted_def acknowledge_leader_def Let_def become_follower_def)

lemma adopted_vote:
  "voted_for (adopted req s) =
     (if current_term s < ae_term req \<or> role s \<noteq> Follower then None else voted_for s)"
  by (auto simp: adopted_def acknowledge_leader_def Let_def become_follower_def)

lemma adopted_log [simp]:
  "get_entry (adopted req s) i = get_entry s i" "last_log_index (adopted req s) = last_log_index s"
  "log_wf (adopted req s) = log_wf s"
  by (simp_all add: get_entry_def last_log_index_def log_wf_def Let_def)

lemma prev_log_check_ok:
  assumes "prev_log_check req s = (s', True)"
  shows "s' = s"
    and "log_offset s < ae_prev_log_index req \<Longrightarrow>
      \<exists>e. get_entry s (ae_prev_log_index req) = Some e \<and> le_term e = ae_prev_log_term req"
    and "0 < ae_prev_log_index req \<Longrightarrow> ae_prev_log_index req = log_offset s \<Longrightarrow> snapshot s = Some sn \<Longrightarrow>
      last_included_term sn = ae_prev_log_term req"
  using assms by (auto simp: prev_log_check_def Let_def split: if_splits option.splits)

lemma prev_log_check_fail:
  assumes "prev_log_check req s = (s', False)"
  shows "s' = s \<or> (log_offset s < ae_prev_log_index req \<and>
    (\<exists>e. get_entry s (ae_prev_log_index req) = Some e \<and> le_term e \<noteq> ae_prev_log_term req) \<and>
    s' = s\<lparr>rlog := take (ae_prev_log_index req - log_offset s - 1) (rlog s)\<rparr>)"
  using assms by (auto simp: prev_log_check_def get_entry_def Let_def split: if_splits option.splits)

text \<open>An accepted position is inside the log.\<close>

lemma prev_log_check_bound:
  assumes "log_wf s" and "prev_log_check req s = (s', True)" and "log_offset s \<le> ae_prev_log_index req"
  shows "ae_prev_log_index req \<le> last_log_index s"
proof (cases "log_offset s < ae_prev_log_index req")
  case True
  with prev_log_check_ok(2) [OF assms(2)] get_entry_some_iff [OF assms(1), of "ae_prev_log_index req"]
  show ?thesis by auto
next
  case False
  with assms(3) log_wf_offset_le [OF assms(1)] show ?thesis by simp
qed

text \<open>
  What a leader's request looks like to a follower: the new entries continue the index of the
  previous one, and the position is not inside the follower's compacted prefix.
\<close>

definition request_wf :: "ext \<Rightarrow> append_entries_request \<Rightarrow> raft_state \<Rightarrow> bool" where
  "request_wf X req s \<longleftrightarrow>
     (ae_entries req \<noteq> [] \<longrightarrow>
        log_offset s \<le> ae_prev_log_index req \<and>
        indexed_from (Suc (ae_prev_log_index req)) (new_entries X req) \<and>
        ae_prev_log_index req + length (new_entries X req) \<le> u64_max \<and>
        ae_prev_log_index req < u64_max)"

lemma request_wf_frame: "log_offset s' = log_offset s \<Longrightarrow> request_wf X req s' = request_wf X req s"
  by (simp add: request_wf_def)

text \<open>The log after an accepted, non-empty request.\<close>

lemma accept_entries_log:
  assumes "ae_entries req \<noteq> []"
  shows "rlog (accept_entries X req s)
      = rlog (truncate_and_append (u64_inc (ae_prev_log_index req)) (new_entries X req) s)"
    and "log_offset (accept_entries X req s) = log_offset s"
    and "snapshot (accept_entries X req s) = snapshot s"
  using assms by (auto simp: accept_entries_def Let_def truncate_and_append_def)

lemma accept_entries_heartbeat:
  assumes "ae_entries req = []"
  shows "rlog (accept_entries X req s) = rlog s"
    and "log_offset (accept_entries X req s) = log_offset s"
    and "snapshot (accept_entries X req s) = snapshot s"
  using assms by (auto simp: accept_entries_def Let_def)

lemma accept_entries_frame [simp]:
  "current_term (accept_entries X req s) = current_term s"
  "voted_for (accept_entries X req s) = voted_for s"
  "role (accept_entries X req s) = role s" "leader_id (accept_entries X req s) = leader_id s"
  "last_applied (accept_entries X req s) = last_applied s"
  "next_index (accept_entries X req s) = next_index s" "match_index (accept_entries X req s) = match_index s"
  by (auto simp: accept_entries_def Let_def truncate_and_append_def)

lemma log_fields_get:
  assumes "rlog s' = rlog s" and "log_offset s' = log_offset s"
  shows "get_entry s' i = get_entry s i" and "last_log_index s' = last_log_index s"
  using assms by (simp_all add: get_entry_def last_log_index_def Let_def)

lemma accept_entries_wf:
  assumes wf: "log_wf s" and ok: "request_wf X req s" and prev: "ae_prev_log_index req \<le> last_log_index s"
  shows "log_wf (accept_entries X req s)"
proof (cases "ae_entries req = []")
  case True
  with wf accept_entries_heartbeat [OF True, of X s] show ?thesis by (simp add: log_wf_def)
next
  case False
  with ok have "log_wf (truncate_and_append (u64_inc (ae_prev_log_index req)) (new_entries X req) s)"
    by (intro truncate_and_append_wf [OF wf]) (use prev in \<open>auto simp: request_wf_def u64_inc_small\<close>)
  then show ?thesis
    using accept_entries_log [OF False, of X s]
    by (simp add: log_wf_def truncate_and_append_def Let_def)
qed

lemma accept_entries_get:
  assumes wf: "log_wf s" and ok: "request_wf X req s" and prev: "ae_prev_log_index req \<le> last_log_index s"
    and ne: "ae_entries req \<noteq> []"
  shows "get_entry (accept_entries X req s) i =
      (if i \<le> ae_prev_log_index req then get_entry s i
       else if i \<le> ae_prev_log_index req + length (new_entries X req)
       then Some (new_entries X req ! (i - Suc (ae_prev_log_index req))) else None)"
    and "last_log_index (accept_entries X req s) = ae_prev_log_index req + length (new_entries X req)"
proof -
  let ?t = "truncate_and_append (u64_inc (ae_prev_log_index req)) (new_entries X req) s"
  have sm: "u64_inc (ae_prev_log_index req) = Suc (ae_prev_log_index req)"
    using ok ne by (simp add: request_wf_def u64_inc_small)
  have eq: "rlog (accept_entries X req s) = rlog ?t" "log_offset (accept_entries X req s) = log_offset ?t"
    using accept_entries_log [OF ne, of X s] by (simp_all add: truncate_and_append_def Let_def)
  have h: "log_offset s < Suc (ae_prev_log_index req)" "Suc (ae_prev_log_index req) \<le> Suc (last_log_index s)"
    "indexed_from (Suc (ae_prev_log_index req)) (new_entries X req)"
    "Suc (ae_prev_log_index req) + length (new_entries X req) \<le> Suc u64_max"
    using ok ne prev by (auto simp: request_wf_def)
  show "get_entry (accept_entries X req s) i =
      (if i \<le> ae_prev_log_index req then get_entry s i
       else if i \<le> ae_prev_log_index req + length (new_entries X req)
       then Some (new_entries X req ! (i - Suc (ae_prev_log_index req))) else None)"
    using truncate_and_append_get [OF wf h, of i] log_fields_get(1) [OF eq] by (simp add: sm less_Suc_eq_le)
  show "last_log_index (accept_entries X req s) = ae_prev_log_index req + length (new_entries X req)"
    using truncate_and_append_last [OF wf h] log_fields_get(2) [OF eq] by (simp add: sm)
qed

lemma accept_entries_commit:
  "commit_index (accept_entries X req s) =
     (if commit_index s < ae_leader_commit req
      then min (ae_leader_commit req) (last_log_index (accept_entries X req s)) else commit_index s)"
proof -
  let ?t = "truncate_and_append (u64_inc (ae_prev_log_index req)) (new_entries X req) s"
  have "commit_index ?t = commit_index s" by (simp add: truncate_and_append_def Let_def)
  moreover have "last_log_index (s'\<lparr>commit_index := c\<rparr>) = last_log_index s'" for s' c
    by (simp add: last_log_index_def)
  ultimately show ?thesis by (simp add: accept_entries_def Let_def)
qed

subsection \<open>The handler\<close>

text \<open>A successful request went through the check and the append.\<close>

lemma hae_success:
  assumes "aer_success (snd (handle_append_entries X req s))"
  shows "current_term s \<le> ae_term req"
    and "prev_log_check req (adopted req s) = (adopted req s, True)"
    and "fst (handle_append_entries X req s) = accept_entries X req (adopted req s)"
proof -
  show fresh: "current_term s \<le> ae_term req"
    using assms hae_stale [of req s X] by (cases "ae_term req < current_term s") (auto simp: ae_reply_def)
  obtain s4 ok where p: "prev_log_check req (adopted req s) = (s4, ok)" by force
  with assms have "ok" by (simp add: hae_fresh [OF fresh] ae_reply_def split: if_splits)
  with p have "prev_log_check req (adopted req s) = (s4, True)" by simp
  from prev_log_check_ok(1) [OF this] this
  show "prev_log_check req (adopted req s) = (adopted req s, True)" by simp
  then show "fst (handle_append_entries X req s) = accept_entries X req (adopted req s)"
    by (simp add: hae_fresh [OF fresh] Let_def)
qed

text \<open>A rejected request changes at most the term, the role, and the end of the log.\<close>

lemma hae_failure:
  assumes "\<not> aer_success (snd (handle_append_entries X req s))"
  shows "\<exists>k. rlog (fst (handle_append_entries X req s)) = take k (rlog s)"
    and "log_offset (fst (handle_append_entries X req s)) = log_offset s"
    and "snapshot (fst (handle_append_entries X req s)) = snapshot s"
    and "commit_index (fst (handle_append_entries X req s)) = commit_index s"
    and "last_applied (fst (handle_append_entries X req s)) = last_applied s"
proof -
  have "(\<exists>k. rlog s' = take k (rlog s)) \<and> log_offset s' = log_offset s \<and> snapshot s' = snapshot s \<and>
      commit_index s' = commit_index s \<and> last_applied s' = last_applied s"
    if "s' = fst (handle_append_entries X req s)" for s'
  proof (cases "ae_term req < current_term s")
    case True
    with that show ?thesis by (auto simp: hae_stale intro: exI [of _ "length (rlog s)"])
  next
    case False
    obtain s4 ok where p: "prev_log_check req (adopted req s) = (s4, ok)" by force
    with assms False have "\<not> ok" "s' = s4"
      using that by (auto simp: hae_fresh ae_reply_def Let_def split: if_splits)
    with prev_log_check_fail [of req "adopted req s" s4] p show ?thesis
      by (auto intro: exI [of _ "length (rlog s)"])
  qed
  then show "\<exists>k. rlog (fst (handle_append_entries X req s)) = take k (rlog s)"
    and "log_offset (fst (handle_append_entries X req s)) = log_offset s"
    and "snapshot (fst (handle_append_entries X req s)) = snapshot s"
    and "commit_index (fst (handle_append_entries X req s)) = commit_index s"
    and "last_applied (fst (handle_append_entries X req s)) = last_applied s"
    by blast+
qed

lemma hae_term: "current_term (fst (handle_append_entries X req s)) = max (current_term s) (ae_term req)"
proof (cases "ae_term req < current_term s")
  case False
  obtain s4 ok where p: "prev_log_check req (adopted req s) = (s4, ok)" by force
  have "current_term s4 = current_term (adopted req s)"
    using p prev_log_check_ok(1) [of req "adopted req s" s4] prev_log_check_fail [of req "adopted req s" s4]
    by (cases ok) auto
  with False p show ?thesis by (auto simp: hae_fresh Let_def adopted_term)
qed (simp add: hae_stale)

text \<open>The response reports the term and the end of the log of the new state.\<close>

lemma hae_reply:
  "aer_term (snd (handle_append_entries X req s)) = current_term (fst (handle_append_entries X req s))"
  "aer_match_index (snd (handle_append_entries X req s)) = last_log_index (fst (handle_append_entries X req s))"
  by (auto simp: handle_append_entries_def ae_reply_def Let_def split: prod.splits)

text \<open>What the handler does to vote and role.\<close>

lemma hae_follower:
  assumes "current_term s \<le> ae_term req"
  shows "role (fst (handle_append_entries X req s)) = Follower"
    and "leader_id (fst (handle_append_entries X req s)) = Some (ae_leader_id req)"
    and "voted_for (fst (handle_append_entries X req s)) =
      (if current_term s < ae_term req \<or> role s \<noteq> Follower then None else voted_for s)"
proof -
  obtain s4 ok where p: "prev_log_check req (adopted req s) = (s4, ok)" by force
  have "role s4 = Follower \<and> leader_id s4 = Some (ae_leader_id req) \<and> voted_for s4 = voted_for (adopted req s)"
    using p prev_log_check_ok(1) [of req "adopted req s" s4] prev_log_check_fail [of req "adopted req s" s4]
    by (cases ok) auto
  with p show "role (fst (handle_append_entries X req s)) = Follower"
    and "leader_id (fst (handle_append_entries X req s)) = Some (ae_leader_id req)"
    and "voted_for (fst (handle_append_entries X req s)) =
      (if current_term s < ae_term req \<or> role s \<noteq> Follower then None else voted_for s)"
    by (simp_all add: hae_fresh [OF assms] Let_def adopted_vote)
qed

lemma take_log_wf:
  assumes "log_wf s" and "rlog s' = take k (rlog s)" and "log_offset s' = log_offset s"
    and "snapshot s' = snapshot s"
  shows "log_wf s'"
proof -
  have "indexed_from (Suc (log_offset s)) (take k (rlog s))"
    using assms(1) indexed_from_append [of "Suc (log_offset s)" "take k (rlog s)" "drop k (rlog s)"]
    by (simp add: log_wf_def)
  then show ?thesis using assms by (auto simp: log_wf_def)
qed

lemma hae_prev_bound:
  assumes wf: "log_wf s" and ok: "request_wf X req s"
    and succ: "aer_success (snd (handle_append_entries X req s))" and ne: "ae_entries req \<noteq> []"
  shows "ae_prev_log_index req \<le> last_log_index (adopted req s)"
  using prev_log_check_bound [OF _ hae_success(2) [OF succ]] wf ok ne by (simp add: request_wf_def)

lemma hae_wf:
  assumes wf: "log_wf s" and ok: "request_wf X req s"
  shows "log_wf (fst (handle_append_entries X req s))"
proof (cases "aer_success (snd (handle_append_entries X req s))")
  case True
  show ?thesis
  proof (cases "ae_entries req = []")
    case True
    with wf accept_entries_heartbeat [OF True, of X "adopted req s"] show ?thesis
      using hae_success(3) [OF \<open>aer_success _\<close>] by (simp add: log_wf_def)
  next
    case False
    have "log_wf (accept_entries X req (adopted req s))"
      using wf ok hae_prev_bound [OF wf ok True False]
      by (intro accept_entries_wf) (auto simp: request_wf_def)
    then show ?thesis using hae_success(3) [OF True] by simp
  qed
next
  case False
  from hae_failure [OF this] wf show ?thesis by (auto intro: take_log_wf)
qed

lemma hae_get:
  assumes wf: "log_wf s" and ok: "request_wf X req s"
    and succ: "aer_success (snd (handle_append_entries X req s))" and ne: "ae_entries req \<noteq> []"
  shows "get_entry (fst (handle_append_entries X req s)) i =
      (if i \<le> ae_prev_log_index req then get_entry s i
       else if i \<le> ae_prev_log_index req + length (new_entries X req)
       then Some (new_entries X req ! (i - Suc (ae_prev_log_index req))) else None)"
    and "last_log_index (fst (handle_append_entries X req s)) =
      ae_prev_log_index req + length (new_entries X req)"
proof -
  have r: "request_wf X req (adopted req s)" and w: "log_wf (adopted req s)"
    using ok wf by (simp_all add: request_wf_def)
  note a = accept_entries_get [OF w r hae_prev_bound [OF wf ok succ ne] ne]
  show "get_entry (fst (handle_append_entries X req s)) i =
      (if i \<le> ae_prev_log_index req then get_entry s i
       else if i \<le> ae_prev_log_index req + length (new_entries X req)
       then Some (new_entries X req ! (i - Suc (ae_prev_log_index req))) else None)"
    using a(1) [of i] by (simp add: hae_success(3) [OF succ])
  show "last_log_index (fst (handle_append_entries X req s)) =
      ae_prev_log_index req + length (new_entries X req)"
    using a(2) by (simp add: hae_success(3) [OF succ])
qed

lemma hae_commit:
  assumes "aer_success (snd (handle_append_entries X req s))"
  shows "commit_index (fst (handle_append_entries X req s)) =
     (if commit_index s < ae_leader_commit req
      then min (ae_leader_commit req) (last_log_index (fst (handle_append_entries X req s)))
      else commit_index s)"
  using accept_entries_commit [of X req "adopted req s"] by (simp add: hae_success(3) [OF assms])

lemma hae_commit_mono:
  assumes "commit_index s \<le> last_log_index (fst (handle_append_entries X req s))"
  shows "commit_index s \<le> commit_index (fst (handle_append_entries X req s))"
  using assms hae_commit [of X req s] hae_failure(4) [of X req s]
  by (cases "aer_success (snd (handle_append_entries X req s))") auto

lemma hae_offset:
  "log_offset (fst (handle_append_entries X req s)) = log_offset s"
  "snapshot (fst (handle_append_entries X req s)) = snapshot s"
  using hae_failure(2,3) [of X req s] hae_success(3) [of X req s]
    accept_entries_log(2,3) [of req X "adopted req s"] accept_entries_heartbeat(2,3) [of req X "adopted req s"]
  by (cases "aer_success (snd (handle_append_entries X req s))"; cases "ae_entries req = []"; simp)+

lemma hae_log:
  assumes wf: "log_wf s" and ok: "request_wf X req s"
    and succ: "aer_success (snd (handle_append_entries X req s))" and ne: "ae_entries req \<noteq> []"
  shows "rlog (fst (handle_append_entries X req s)) =
    take (ae_prev_log_index req - log_offset s) (rlog s) @ new_entries X req"
proof -
  have "u64_inc (ae_prev_log_index req) = Suc (ae_prev_log_index req)"
    using ok ne by (simp add: request_wf_def u64_inc_small)
  moreover have "rlog (truncate_and_append (Suc (ae_prev_log_index req)) (new_entries X req) (adopted req s)) =
      take (ae_prev_log_index req - log_offset s) (rlog s) @ new_entries X req"
    using truncate_and_append_log [of "adopted req s" "Suc (ae_prev_log_index req)"] wf ok ne
      hae_prev_bound [OF wf ok succ ne] by (simp add: request_wf_def)
  ultimately show ?thesis by (simp add: hae_success(3) [OF succ] accept_entries_log(1) [OF ne])
qed

text \<open>An accepted previous position really matches the follower's log.\<close>

lemma hae_prev_match:
  assumes "aer_success (snd (handle_append_entries X req s))" and "log_offset s < ae_prev_log_index req"
  shows "\<exists>e. get_entry s (ae_prev_log_index req) = Some e \<and> le_term e = ae_prev_log_term req"
  using prev_log_check_ok(2) [OF hae_success(2) [OF assms(1)]] assms(2) by simp

section \<open>InstallSnapshot\<close>

lemma his_cases:
  "is_term req < current_term s \<Longrightarrow>
     handle_install_snapshot X req s = (s, \<lparr>isr_term = current_term s\<rparr>)"
  "current_term s \<le> is_term req \<Longrightarrow>
     fst (handle_install_snapshot X req s) =
       fst (install_snapshot (request_snapshot X req)
         ((if current_term s < is_term req then become_follower (is_term req) s else s)
           \<lparr>leader_id := Some (is_leader_id req)\<rparr>))"
  by (auto simp: handle_install_snapshot_def Let_def become_follower_def split: prod.splits)

lemma install_snapshot_frame [frame, simp]:
  "current_term (fst (install_snapshot sn s)) = current_term s"
  "voted_for (fst (install_snapshot sn s)) = voted_for s"
  "role (fst (install_snapshot sn s)) = role s" "leader_id (fst (install_snapshot sn s)) = leader_id s"
  by (auto simp: install_snapshot_def Let_def)

lemma his_term: "current_term (fst (handle_install_snapshot X req s)) = max (current_term s) (is_term req)"
  by (cases "is_term req < current_term s") (auto simp: his_cases become_follower_def)

lemma his_vote:
  "voted_for (fst (handle_install_snapshot X req s)) =
     (if current_term s < is_term req then None else voted_for s)"
  "role (fst (handle_install_snapshot X req s)) =
     (if current_term s < is_term req then Follower else role s)"
  by (cases "is_term req < current_term s"; auto simp: his_cases become_follower_def)+

lemma his_wf:
  assumes "log_wf s" and "is_last_included_index req < u64_max"
  shows "log_wf (fst (handle_install_snapshot X req s))"
proof (cases "is_term req < current_term s")
  case False
  let ?s = "(if current_term s < is_term req then become_follower (is_term req) s else s)
      \<lparr>leader_id := Some (is_leader_id req)\<rparr>"
  have "log_wf ?s" using assms(1) by (simp add: log_wf_def)
  then show ?thesis
    using install_snapshot_wf [of ?s "request_snapshot X req"] assms(2) False
    by (simp add: his_cases request_snapshot_def)
qed (simp add: his_cases assms)

lemma his_applied:
  assumes "applied_wf s"
  shows "applied_wf (fst (handle_install_snapshot X req s))"
proof (cases "is_term req < current_term s")
  case False
  let ?s = "(if current_term s < is_term req then become_follower (is_term req) s else s)
      \<lparr>leader_id := Some (is_leader_id req)\<rparr>"
  have "applied_wf ?s" using assms by (simp add: applied_wf_def)
  from applied_wf_install [OF this] False show ?thesis by (simp add: his_cases)
qed (simp add: his_cases assms)

section \<open>Limits of the handlers\<close>

text \<open>
  Concrete runs of \<open>handle_append_entries\<close> in situations the lemmas above exclude. The log of every
  state below holds no-ops only.
\<close>

definition noop_entry :: "u64 \<Rightarrow> u64 \<Rightarrow> log_entry" where
  "noop_entry t i = \<lparr>le_term = t, le_index = i, le_command = Noop\<rparr>"

definition noop_request :: "u64 \<Rightarrow> u64 \<Rightarrow> u64 \<Rightarrow> u64 \<Rightarrow> u64 \<Rightarrow> log_entry list \<Rightarrow> append_entries_request" where
  "noop_request t l prev prev_t commit es =
     \<lparr>ae_term = t, ae_leader_id = l, ae_prev_log_index = prev, ae_prev_log_term = prev_t,
      ae_entries = map (log_entry_to_proto ext_unary) es, ae_leader_commit = commit\<rparr>"

definition noop_state :: "u64 \<Rightarrow> u64 \<Rightarrow> log_entry list \<Rightarrow> raft_state" where
  "noop_state t commit es = raft_new\<lparr>current_term := t, rlog := es, commit_index := commit\<rparr>"

lemmas noop_defs = noop_state_def noop_request_def raft_new_def log_wf_def request_wf_def
lemmas handler_defs = handle_append_entries_def handle_request_vote_def prev_log_check_def accept_entries_def
  ae_reply_def acknowledge_leader_def become_follower_def become_candidate_def truncate_and_append_def
  last_log_index_def last_log_term_def get_entry_def is_log_up_to_date_def compact_log_def new_entries_def
  indexed_from_def List.map_filter_simps
  u64_inc_def u64_max_def Let_def

lemma noop_entry_sel [simp]:
  "le_term (noop_entry t i) = t" "le_index (noop_entry t i) = i" "le_command (noop_entry t i) = Noop"
  "noop_entry t i = noop_entry t' i' \<longleftrightarrow> t = t' \<and> i = i'"
  by (auto simp: noop_entry_def)

lemma noop_entry_round_trip [simp]:
  "proto_to_log_entry X (log_entry_to_proto X (noop_entry t i)) = Some (noop_entry t i)"
  by (simp add: proto_to_log_entry_def log_entry_to_proto_def proto_to_command_def noop_entry_def)

text \<open>
  A delayed copy of a request the follower has already accepted cuts the log back to the entries of
  the copy, also behind the commit index: the entry at index 2 is committed and gone.
\<close>

lemma duplicate_request_cuts_committed:
  "log_wf (noop_state 1 2 [noop_entry 1 1, noop_entry 1 2]) \<and>
   request_wf ext_unary (noop_request 1 2 0 0 1 [noop_entry 1 1]) (noop_state 1 2 [noop_entry 1 1, noop_entry 1 2]) \<and>
   (let (s', r) = handle_append_entries ext_unary (noop_request 1 2 0 0 1 [noop_entry 1 1])
          (noop_state 1 2 [noop_entry 1 1, noop_entry 1 2])
    in aer_success r \<and> commit_index s' = 2 \<and> last_log_index s' = 1 \<and> get_entry s' 2 = None)"
  by (simp add: noop_defs handler_defs)

text \<open>
  A heartbeat has \<open>prev_log_index = 0\<close>, which skips the consistency check, but still advances the
  commit index: a follower commits an entry of an old term that the leader of term 3 replaced.
\<close>

lemma heartbeat_commits_unmatched:
  "(let (s', r) = handle_append_entries ext_unary (noop_request 3 2 0 0 1 []) (noop_state 1 0 [noop_entry 1 1])
    in aer_success r \<and> commit_index s' = 1 \<and> get_entry s' 1 = Some (noop_entry 1 1))"
  by (simp add: noop_defs handler_defs)

text \<open>
  A request whose previous position lies inside the compacted prefix is accepted, and its entries are
  appended as they are: the log no longer starts after the offset.
\<close>

lemma compacted_position_breaks_log:
  "let s = compact_log \<lparr>last_included_index = 2, last_included_term = 1, sn_jobs = [], sn_workers = []\<rparr>
             (noop_state 1 2 [noop_entry 1 1, noop_entry 1 2]);
       (s', r) = handle_append_entries ext_unary (noop_request 1 2 1 1 2 [noop_entry 1 2]) s
   in log_wf s \<and> aer_success r \<and> \<not> log_wf s' \<and> get_entry s' 3 = Some (noop_entry 1 2)"
  by (simp add: noop_defs handler_defs)

text \<open>
  A candidate that hears from the leader of its own term forgets its vote, and may vote a second time
  in that term: here for itself in term 2 first, for node 3 then.
\<close>

lemma candidate_votes_twice:
  "let s = become_candidate 1 (noop_state 1 0 []);
       s1 = fst (handle_append_entries ext_unary (noop_request 2 2 0 0 0 []) s);
       (s2, r) = handle_request_vote
         \<lparr>vr_term = 2, vr_candidate_id = 3, vr_last_log_index = 0, vr_last_log_term = 0\<rparr> s1
   in current_term s = 2 \<and> voted_for s = Some 1 \<and> vote_granted r \<and> current_term s2 = 2 \<and> voted_for s2 = Some 3"
  by (simp add: noop_defs handler_defs)

end
