(* ===== verification/Raft_Storage.thy ===== *)
theory Raft_Storage
  imports Raft_State "HOL-Library.Monad_Syntax" "HOL-Library.List_Lexorder" "HOL-Library.Char_ord"
    "HOL-Library.Finite_Map" "HOL-Library.Countable" "HOL-Library.Sublist"
begin

text \<open>
  The persistence layer (\<open>RaftStorage\<close> of \<open>src/raft/storage.rs\<close>). RocksDB and serde_json are not part
  of the repository: they are the records \<open>kv\<close> and \<open>serde\<close>, arguments of every operation, with their
  documented behaviour in \<open>kv_laws\<close> and \<open>serde_laws\<close>. Every call of them may fail, and the code
  panics then: an operation returns \<open>None\<close> where the code panics. \<open>stored\<close> says which hard state and
  log a database holds; every operation is shown to move from one such state to the next and \<open>load\<close>
  to read it back.
\<close>

section \<open>RocksDB and serde_json\<close>

type_synonym bytes = string

record 'db kv =
  kv_put :: "bytes \<Rightarrow> bytes \<Rightarrow> 'db \<Rightarrow> 'db option"
  kv_delete :: "bytes \<Rightarrow> 'db \<Rightarrow> 'db option"
  kv_get :: "'db \<Rightarrow> bytes \<Rightarrow> bytes option option"
  kv_iter_from :: "'db \<Rightarrow> bytes \<Rightarrow> (bytes \<times> bytes) list option"
  contents :: "'db \<Rightarrow> bytes \<Rightarrow> bytes option"

record serde =
  vote_to_vec :: "u64 option \<Rightarrow> bytes option"
  vote_from_slice :: "bytes \<Rightarrow> u64 option option"
  entry_to_vec :: "log_entry \<Rightarrow> bytes option"
  entry_from_slice :: "bytes \<Rightarrow> log_entry option"
  snapshot_to_vec :: "raft_snapshot \<Rightarrow> bytes option"
  snapshot_from_slice :: "bytes \<Rightarrow> raft_snapshot option"

text \<open>
  The database holds a map \<open>contents\<close> from byte strings to byte strings, which the code reads and
  writes through the four calls only. An iterator started at a key yields the pairs from that key
  on, in the byte order of the keys.
\<close>

definition kv_laws :: "'db kv \<Rightarrow> bool" where
  "kv_laws K \<longleftrightarrow>
     (\<forall>k v db db'. kv_put K k v db = Some db' \<longrightarrow> contents K db' = (contents K db)(k := Some v)) \<and>
     (\<forall>k db db'. kv_delete K k db = Some db' \<longrightarrow> contents K db' = (contents K db)(k := None)) \<and>
     (\<forall>db k v. kv_get K db k = Some v \<longrightarrow> v = contents K db k) \<and>
     (\<forall>db k xs. kv_iter_from K db k = Some xs \<longrightarrow>
        sorted_wrt (<) (map fst xs) \<and>
        (\<forall>k' v. (k', v) \<in> set xs \<longleftrightarrow> k \<le> k' \<and> contents K db k' = Some v))"

definition serde_laws :: "serde \<Rightarrow> bool" where
  "serde_laws C \<longleftrightarrow>
     (\<forall>x b. vote_to_vec C x = Some b \<longrightarrow> vote_from_slice C b = Some x) \<and>
     (\<forall>x b. entry_to_vec C x = Some b \<longrightarrow> entry_from_slice C b = Some x) \<and>
     (\<forall>x b. snapshot_to_vec C x = Some b \<longrightarrow> snapshot_from_slice C b = Some x)"

text \<open>A database whose calls all succeed.\<close>

definition kv_available :: "'db kv \<Rightarrow> serde \<Rightarrow> bool" where
  "kv_available K C \<longleftrightarrow>
     (\<forall>k v db. kv_put K k v db \<noteq> None) \<and> (\<forall>k db. kv_delete K k db \<noteq> None) \<and>
     (\<forall>db k. kv_get K db k \<noteq> None) \<and> (\<forall>db k. kv_iter_from K db k \<noteq> None) \<and>
     (\<forall>x. vote_to_vec C x \<noteq> None) \<and> (\<forall>x. entry_to_vec C x \<noteq> None) \<and> (\<forall>x. snapshot_to_vec C x \<noteq> None)"

section \<open>Keys\<close>

text \<open>\<open>u64::to_be_bytes\<close> and \<open>u64::from_be_bytes\<close>; the latter needs a slice of eight bytes.\<close>

fun be_bytes :: "nat \<Rightarrow> nat \<Rightarrow> bytes" where
  "be_bytes 0 i = []"
| "be_bytes (Suc n) i = be_bytes n (i div 256) @ [char_of i]"

definition to_be_bytes :: "u64 \<Rightarrow> bytes" where
  "to_be_bytes i = be_bytes 8 i"

definition from_be_bytes :: "bytes \<Rightarrow> u64 option" where
  "from_be_bytes bs = (if length bs = 8 then Some (foldl (\<lambda>a c. 256 * a + of_char c) 0 bs) else None)"

definition LOG_PREFIX :: bytes where
  "LOG_PREFIX = ''log'' @ [CHR 0x00]"

definition log_key :: "u64 \<Rightarrow> bytes" where
  "log_key i = LOG_PREFIX @ to_be_bytes i"

section \<open>Operations\<close>

record persisted_state =
  ps_current_term :: u64
  ps_voted_for :: "node_id option"
  ps_log_offset :: u64
  ps_snapshot :: "raft_snapshot option"
  ps_log :: "log_entry list"

definition save_hard_state :: "'db kv \<Rightarrow> serde \<Rightarrow> u64 \<Rightarrow> node_id option \<Rightarrow> u64 \<Rightarrow> 'db \<Rightarrow> 'db option" where
  "save_hard_state K C trm voted offset db =
     do {
       voted_for_bytes \<leftarrow> vote_to_vec C voted;
       db \<leftarrow> kv_put K ''term'' (to_be_bytes trm) db;
       db \<leftarrow> kv_put K ''voted_for'' voted_for_bytes db;
       kv_put K ''log_offset'' (to_be_bytes offset) db
     }"

definition storage_append_entry :: "'db kv \<Rightarrow> serde \<Rightarrow> log_entry \<Rightarrow> 'db \<Rightarrow> 'db option" where
  "storage_append_entry K C e db =
     do {
       v \<leftarrow> entry_to_vec C e;
       kv_put K (log_key (le_index e)) v db
     }"

fun delete_keys :: "'db kv \<Rightarrow> bytes list \<Rightarrow> 'db \<Rightarrow> 'db option" where
  "delete_keys K [] db = Some db"
| "delete_keys K (k # ks) db = do { db \<leftarrow> kv_delete K k db; delete_keys K ks db }"

definition truncate_from :: "'db kv \<Rightarrow> u64 \<Rightarrow> 'db \<Rightarrow> 'db option" where
  "truncate_from K from_index db =
     do {
       items \<leftarrow> kv_iter_from K db (log_key from_index);
       delete_keys K (takeWhile (starts_with LOG_PREFIX) (map fst items)) db
     }"

definition save_snapshot :: "'db kv \<Rightarrow> serde \<Rightarrow> raft_snapshot \<Rightarrow> u64 \<Rightarrow> 'db \<Rightarrow> 'db option" where
  "save_snapshot K C sn offset db =
     do {
       snapshot_bytes \<leftarrow> snapshot_to_vec C sn;
       db \<leftarrow> kv_put K ''snapshot'' snapshot_bytes db;
       db \<leftarrow> kv_put K ''log_offset'' (to_be_bytes offset) db;
       if 0 < offset then
         do {
           items \<leftarrow> kv_iter_from K db (log_key 1);
           delete_keys K
             (takeWhile (\<lambda>k. k < log_key (u64_inc offset) \<and> starts_with LOG_PREFIX k) (map fst items)) db
         }
       else Some db
     }"

text \<open>
  \<open>load\<close> returns \<open>Some None\<close> on a fresh database and panics on malformed data. The \<open>unwrap_or_else\<close>
  of a read inside \<open>map\<close> and \<open>match\<close> is \<open>optional\<close>: an absent key is fine, a malformed value is not.
\<close>

definition optional :: "('b \<Rightarrow> 'a option) \<Rightarrow> 'b option \<Rightarrow> 'a option option" where
  "optional de v = (case v of None \<Rightarrow> Some None | Some b \<Rightarrow> map_option Some (de b))"

definition load_log :: "'db kv \<Rightarrow> serde \<Rightarrow> u64 \<Rightarrow> 'db \<Rightarrow> log_entry list option" where
  "load_log K C offset db =
     do {
       items \<leftarrow> kv_iter_from K db (log_key (u64_inc offset));
       those (map (\<lambda>(k, v). entry_from_slice C v) (takeWhile (\<lambda>(k, v). starts_with LOG_PREFIX k) items))
     }"

definition load_state :: "'db kv \<Rightarrow> serde \<Rightarrow> 'db \<Rightarrow> persisted_state option option" where
  "load_state K C db =
     do {
       term_bytes \<leftarrow> kv_get K db ''term'';
       case term_bytes of
         None \<Rightarrow> Some None
       | Some tb \<Rightarrow>
           do {
             trm \<leftarrow> from_be_bytes tb;
             vb \<leftarrow> kv_get K db ''voted_for'';
             voted \<leftarrow> (case vb of Some b \<Rightarrow> vote_from_slice C b | None \<Rightarrow> Some None);
             ob \<leftarrow> kv_get K db ''log_offset'';
             offset \<leftarrow> (case ob of Some b \<Rightarrow> from_be_bytes b | None \<Rightarrow> Some 0);
             sb \<leftarrow> kv_get K db ''snapshot'';
             sn \<leftarrow> optional (snapshot_from_slice C) sb;
             es \<leftarrow> load_log K C offset db;
             Some (Some \<lparr>ps_current_term = trm, ps_voted_for = voted, ps_log_offset = offset,
                         ps_snapshot = sn, ps_log = es\<rparr>)
           }
     }"

section \<open>Byte order\<close>

lemma list_less_snoc:
  fixes xs ys :: "'a::linorder list"
  shows "length xs = length ys \<Longrightarrow> xs @ [a] < ys @ [b] \<longleftrightarrow> xs < ys \<or> (xs = ys \<and> a < b)"
  by (induction xs ys rule: list_induct2) auto

lemma list_less_append [simp]:
  fixes p :: "'a::linorder list"
  shows "p @ xs < p @ ys \<longleftrightarrow> xs < ys"
  by (induction p) auto

lemma prefix_between:
  fixes p :: "'a::linorder list"
  shows "prefix p a \<Longrightarrow> a \<le> b \<Longrightarrow> b \<le> c \<Longrightarrow> prefix p c \<Longrightarrow> prefix p b"
proof (induction p arbitrary: a b c)
  case (Cons x p)
  then obtain a' c' where a: "a = x # a'" and c: "c = x # c'" by (auto simp: prefix_def)
  with Cons.prems(2) obtain y b' where b: "b = y # b'" by (cases b) auto
  from Cons.prems(2,3) have "y = x" "a' \<le> b'" "b' \<le> c'" by (auto simp: a b c)
  with Cons.IH [of a' b' c'] Cons.prems(1,4) show ?case by (simp add: a b c)
qed simp

lemma length_be_bytes [simp]: "length (be_bytes n i) = n"
  by (induction n arbitrary: i) auto

lemma div_mod_less:
  fixes i j :: nat
  shows "i < j \<longleftrightarrow> i div 256 < j div 256 \<or> (i div 256 = j div 256 \<and> i mod 256 < j mod 256)"
proof -
  have "i = 256 * (i div 256) + i mod 256" "j = 256 * (j div 256) + j mod 256" by simp_all
  moreover have "i mod 256 < 256" "j mod 256 < 256" by simp_all
  ultimately show ?thesis by linarith
qed

lemma be_bytes_less: "i < 256 ^ n \<Longrightarrow> j < 256 ^ n \<Longrightarrow> be_bytes n i < be_bytes n j \<longleftrightarrow> i < j"
proof (induction n arbitrary: i j)
  case (Suc n)
  have d: "i div 256 < 256 ^ n" "j div 256 < 256 ^ n" using Suc.prems by (auto simp: less_mult_imp_div_less)
  have inj: "be_bytes n (i div 256) = be_bytes n (j div 256) \<longleftrightarrow> i div 256 = j div 256"
    using Suc.IH [OF d] Suc.IH [OF d(2,1)] less_irrefl [of "be_bytes n (j div 256)"]
    by (cases "i div 256" "j div 256" rule: linorder_cases) auto
  have "i < j \<longleftrightarrow> i div 256 < j div 256 \<or> (i div 256 = j div 256 \<and> i mod 256 < j mod 256)"
    by (rule div_mod_less)
  then show ?case
    using Suc.IH [OF d] inj by (simp add: list_less_snoc less_char_def)
qed simp

lemma from_be_bytes_foldl:
  "foldl (\<lambda>a c. 256 * a + of_char c) a (be_bytes n i) = 256 ^ n * a + i mod 256 ^ n"
proof (induction n arbitrary: a i)
  case (Suc n)
  have "i mod (256 * 256 ^ n) = 256 * (i div 256 mod 256 ^ n) + i mod 256" by (rule mod_mult2_eq)
  then show ?case using Suc.IH by (simp add: algebra_simps)
qed simp

lemma from_to_be_bytes [simp]: "i \<le> u64_max \<Longrightarrow> from_be_bytes (to_be_bytes i) = Some i"
  by (simp add: from_be_bytes_def to_be_bytes_def from_be_bytes_foldl u64_max_def)

lemma log_key_less [simp]: "i \<le> u64_max \<Longrightarrow> j \<le> u64_max \<Longrightarrow> log_key i < log_key j \<longleftrightarrow> i < j"
  by (simp add: log_key_def to_be_bytes_def be_bytes_less u64_max_def)

lemma log_key_inj [simp]: "i \<le> u64_max \<Longrightarrow> j \<le> u64_max \<Longrightarrow> log_key i = log_key j \<longleftrightarrow> i = j"
  by (metis less_irrefl log_key_less nat_neq_iff)

lemma log_key_le [simp]: "i \<le> u64_max \<Longrightarrow> j \<le> u64_max \<Longrightarrow> log_key i \<le> log_key j \<longleftrightarrow> i \<le> j"
  by (simp add: order_le_less)

lemma log_key_prefix [simp]: "prefix LOG_PREFIX (log_key i)"
  by (simp add: log_key_def)

text \<open>The other four keys are outside the range of the log keys.\<close>

lemma other_keys [simp]:
  "\<not> prefix LOG_PREFIX ''term''" "\<not> prefix LOG_PREFIX ''voted_for''"
  "\<not> prefix LOG_PREFIX ''log_offset''" "\<not> prefix LOG_PREFIX ''snapshot''"
  by (simp_all add: LOG_PREFIX_def)

lemma other_key_neq [simp]:
  "log_key i \<noteq> ''term''" "log_key i \<noteq> ''voted_for''" "log_key i \<noteq> ''log_offset''" "log_key i \<noteq> ''snapshot''"
  "''term'' \<noteq> log_key i" "''voted_for'' \<noteq> log_key i" "''log_offset'' \<noteq> log_key i" "''snapshot'' \<noteq> log_key i"
  using other_keys log_key_prefix by metis+

section \<open>What a database holds\<close>

text \<open>
  \<open>stored_log\<close>: the log and the snapshot; entries up to the offset are left over from before a
  compaction and are not read again. \<open>stored_hard\<close>: term, vote and offset.
\<close>

definition stored_log :: "'db kv \<Rightarrow> serde \<Rightarrow> 'db \<Rightarrow> u64 \<Rightarrow> raft_snapshot option \<Rightarrow> log_entry list \<Rightarrow> bool" where
  "stored_log K C db offset sn es \<longleftrightarrow>
     offset < u64_max \<and> offset + length es \<le> u64_max \<and>
     optional (snapshot_from_slice C) (contents K db ''snapshot'') = Some sn \<and>
     (\<forall>k. prefix LOG_PREFIX k \<longrightarrow> contents K db k \<noteq> None \<longrightarrow> (\<exists>i\<le>u64_max. k = log_key i)) \<and>
     (\<forall>i. offset < i \<longrightarrow> i \<le> offset + length es \<longrightarrow>
        (\<exists>b. contents K db (log_key i) = Some b \<and> entry_from_slice C b = Some (es ! (i - Suc offset)))) \<and>
     (\<forall>i. offset + length es < i \<longrightarrow> i \<le> u64_max \<longrightarrow> contents K db (log_key i) = None)"

definition stored_hard :: "'db kv \<Rightarrow> serde \<Rightarrow> 'db \<Rightarrow> u64 \<Rightarrow> node_id option \<Rightarrow> u64 \<Rightarrow> bool" where
  "stored_hard K C db trm voted offset \<longleftrightarrow>
     trm \<le> u64_max \<and> contents K db ''term'' = Some (to_be_bytes trm) \<and>
     (\<exists>b. contents K db ''voted_for'' = Some b \<and> vote_from_slice C b = Some voted) \<and>
     contents K db ''log_offset'' = Some (to_be_bytes offset)"

lemma stored_log_fresh:
  "(\<And>k. contents K db k = None) \<Longrightarrow> stored_log K C db 0 None []"
  by (simp add: stored_log_def optional_def u64_max_def)

text \<open>Each part depends on its own keys only.\<close>

lemma stored_log_cong:
  assumes "stored_log K C db offset sn es"
    and "\<And>k. prefix LOG_PREFIX k \<or> k = ''snapshot'' \<Longrightarrow> contents K db' k = contents K db k"
  shows "stored_log K C db' offset sn es"
  using assms by (simp add: stored_log_def)

lemma stored_hard_cong:
  assumes "stored_hard K C db trm voted offset"
    and "\<And>k. k \<in> {''term'', ''voted_for'', ''log_offset''} \<Longrightarrow> contents K db' k = contents K db k"
  shows "stored_hard K C db' trm voted offset"
  using assms by (simp add: stored_hard_def)

section \<open>Reading and writing\<close>

lemma kv_put_contents:
  "kv_laws K \<Longrightarrow> kv_put K k v db = Some db' \<Longrightarrow> contents K db' = (contents K db)(k := Some v)"
  by (simp add: kv_laws_def)

lemma kv_delete_contents:
  "kv_laws K \<Longrightarrow> kv_delete K k db = Some db' \<Longrightarrow> contents K db' = (contents K db)(k := None)"
  by (simp add: kv_laws_def)

lemma kv_get_contents: "kv_laws K \<Longrightarrow> kv_get K db k = Some v \<Longrightarrow> v = contents K db k"
  by (simp add: kv_laws_def)

lemma kv_iter_contents:
  assumes "kv_laws K" and "kv_iter_from K db k = Some xs"
  shows "sorted_wrt (<) (map fst xs)"
    and "(k', v) \<in> set xs \<longleftrightarrow> k \<le> k' \<and> contents K db k' = Some v"
  using assms unfolding kv_laws_def by blast+

lemma delete_keys_contents:
  "kv_laws K \<Longrightarrow> delete_keys K ks db = Some db' \<Longrightarrow>
   contents K db' k = (if k \<in> set ks then None else contents K db k)"
  by (induction ks arbitrary: db) (auto simp: bind_eq_Some_conv dest: kv_delete_contents)

lemma takeWhile_down: "sorted_wrt (\<lambda>x y. P y \<longrightarrow> P x) xs \<Longrightarrow> takeWhile P xs = filter P xs"
  by (induction xs) (auto simp: filter_empty_conv)

lemma iter_prefix:
  assumes K: "kv_laws K" and it: "kv_iter_from K db (log_key i) = Some xs"
  shows "takeWhile (starts_with LOG_PREFIX) (map fst xs) = filter (prefix LOG_PREFIX) (map fst xs)"
    and "takeWhile (\<lambda>(k, v). starts_with LOG_PREFIX k) xs = filter (\<lambda>(k, v). prefix LOG_PREFIX k) xs"
    and "takeWhile (\<lambda>k. k < u \<and> starts_with LOG_PREFIX k) (map fst xs)
       = filter (\<lambda>k. k < u \<and> prefix LOG_PREFIX k) (map fst xs)"
proof -
  have ge: "log_key i \<le> k" if "k \<in> set (map fst xs)" for k
    using that kv_iter_contents(2) [OF K it] by auto
  have s: "sorted_wrt (<) (map fst xs)" by (rule kv_iter_contents [OF K it])
  have down: "prefix LOG_PREFIX x" if "x \<in> set (map fst xs)" "x < y" "prefix LOG_PREFIX y" for x y
    using prefix_between [of LOG_PREFIX "log_key i" x y] ge [OF that(1)] that(2,3) by simp
  have [simp]: "starts_with LOG_PREFIX = prefix LOG_PREFIX" by (simp add: starts_with_def fun_eq_iff)
  have "sorted_wrt (\<lambda>x y. prefix LOG_PREFIX y \<longrightarrow> prefix LOG_PREFIX x) (map fst xs)"
    by (rule sorted_wrt_mono_rel [OF _ s]) (use down in auto)
  then show "takeWhile (starts_with LOG_PREFIX) (map fst xs) = filter (prefix LOG_PREFIX) (map fst xs)"
    by (simp add: takeWhile_down)
  have "sorted_wrt (\<lambda>x y. prefix LOG_PREFIX (fst y) \<longrightarrow> prefix LOG_PREFIX (fst x)) xs"
    by (rule sorted_wrt_mono_rel [OF _ s [unfolded sorted_wrt_map]]) (use down in force)
  moreover have "(\<lambda>(k, v :: bytes). prefix LOG_PREFIX k) = (\<lambda>x. prefix LOG_PREFIX (fst x))" by auto
  ultimately show "takeWhile (\<lambda>(k, v). starts_with LOG_PREFIX k) xs = filter (\<lambda>(k, v). prefix LOG_PREFIX k) xs"
    by (simp add: takeWhile_down)
  have "sorted_wrt (\<lambda>x y. y < u \<and> prefix LOG_PREFIX y \<longrightarrow> x < u \<and> prefix LOG_PREFIX x) (map fst xs)"
    by (rule sorted_wrt_mono_rel [OF _ s]) (use down in auto)
  then show "takeWhile (\<lambda>k. k < u \<and> starts_with LOG_PREFIX k) (map fst xs)
       = filter (\<lambda>k. k < u \<and> prefix LOG_PREFIX k) (map fst xs)"
    by (simp add: takeWhile_down)
qed

lemma iter_keys:
  assumes "kv_laws K" and "kv_iter_from K db k = Some xs"
  shows "k' \<in> set (map fst xs) \<longleftrightarrow> k \<le> k' \<and> contents K db k' \<noteq> None"
proof -
  have "k' \<in> set (map fst xs) \<longleftrightarrow> (\<exists>v. (k', v) \<in> set xs)" by force
  then show ?thesis by (simp add: kv_iter_contents(2) [OF assms])
qed

lemma truncate_from_contents:
  assumes K: "kv_laws K" and t: "truncate_from K i db = Some db'"
  shows "contents K db' k = (if prefix LOG_PREFIX k \<and> log_key i \<le> k then None else contents K db k)"
proof -
  from t obtain xs where it: "kv_iter_from K db (log_key i) = Some xs"
    and d: "delete_keys K (takeWhile (starts_with LOG_PREFIX) (map fst xs)) db = Some db'"
    by (auto simp: truncate_from_def bind_eq_Some_conv)
  from delete_keys_contents [OF K d, of k] iter_keys [OF K it, of k] show ?thesis
    by (auto simp: iter_prefix(1) [OF K it])
qed

lemma save_snapshot_contents:
  assumes K: "kv_laws K" and t: "save_snapshot K C sn offset db = Some db'"
  obtains b where "snapshot_to_vec C sn = Some b"
    and "\<And>k. contents K db' k =
      (if 0 < offset \<and> prefix LOG_PREFIX k \<and> log_key 1 \<le> k \<and> k < log_key (u64_inc offset) then None
       else if k = ''log_offset'' then Some (to_be_bytes offset)
       else if k = ''snapshot'' then Some b else contents K db k)"
proof -
  from t obtain b db1 db2 where b: "snapshot_to_vec C sn = Some b"
    and p: "kv_put K ''snapshot'' b db = Some db1" "kv_put K ''log_offset'' (to_be_bytes offset) db1 = Some db2"
    and r: "(if 0 < offset then do { items \<leftarrow> kv_iter_from K db2 (log_key 1);
           delete_keys K (takeWhile (\<lambda>k. k < log_key (u64_inc offset) \<and> starts_with LOG_PREFIX k) (map fst items)) db2 }
           else Some db2) = Some db'"
    by (auto simp: save_snapshot_def bind_eq_Some_conv)
  have c2: "contents K db2 = (contents K db)(''snapshot'' := Some b, ''log_offset'' := Some (to_be_bytes offset))"
    using kv_put_contents [OF K p(1)] kv_put_contents [OF K p(2)] by simp
  have "contents K db' k =
      (if 0 < offset \<and> prefix LOG_PREFIX k \<and> log_key 1 \<le> k \<and> k < log_key (u64_inc offset) then None
       else contents K db2 k)" for k
  proof (cases "0 < offset")
    case True
    with r obtain xs where it: "kv_iter_from K db2 (log_key 1) = Some xs"
      and d: "delete_keys K (takeWhile (\<lambda>k. k < log_key (u64_inc offset) \<and> starts_with LOG_PREFIX k) (map fst xs)) db2 = Some db'"
      by (auto simp: bind_eq_Some_conv)
    from delete_keys_contents [OF K d, of k] iter_keys [OF K it, of k] True show ?thesis
      by (auto simp: iter_prefix(3) [OF K it])
  qed (use r in auto)
  with b c2 show thesis by (intro that [of b]) auto
qed

section \<open>The operations on what is stored\<close>

lemma save_hard_state_stored:
  assumes K: "kv_laws K" and C: "serde_laws C" and op: "save_hard_state K C trm voted offset' db = Some db'"
    and st: "stored_log K C db offset sn es" and bd: "trm \<le> u64_max"
  shows "stored_log K C db' offset sn es \<and> stored_hard K C db' trm voted offset'"
proof -
  from op obtain b db1 db2 where b: "vote_to_vec C voted = Some b"
    and p: "kv_put K ''term'' (to_be_bytes trm) db = Some db1" "kv_put K ''voted_for'' b db1 = Some db2"
      "kv_put K ''log_offset'' (to_be_bytes offset') db2 = Some db'"
    by (auto simp: save_hard_state_def bind_eq_Some_conv)
  have c: "contents K db' = (contents K db)(''term'' := Some (to_be_bytes trm), ''voted_for'' := Some b,
      ''log_offset'' := Some (to_be_bytes offset'))"
    using p [THEN kv_put_contents [OF K]] by simp
  have "vote_from_slice C b = Some voted" using C b by (simp add: serde_laws_def)
  then have "stored_hard K C db' trm voted offset'" by (simp add: stored_hard_def c bd)
  moreover have "stored_log K C db' offset sn es"
    by (rule stored_log_cong [OF st]) (auto simp: c)
  ultimately show ?thesis by simp
qed

lemma storage_append_entry_stored:
  assumes K: "kv_laws K" and C: "serde_laws C" and op: "storage_append_entry K C e db = Some db'"
    and st: "stored_log K C db offset sn es"
    and ix: "le_index e = Suc (offset + length es)" and bd: "le_index e \<le> u64_max"
  shows "stored_log K C db' offset sn (es @ [e])"
    and "stored_hard K C db trm voted o1 \<Longrightarrow> stored_hard K C db' trm voted o1"
proof -
  from op obtain b where b: "entry_to_vec C e = Some b" and p: "kv_put K (log_key (le_index e)) b db = Some db'"
    by (auto simp: storage_append_entry_def bind_eq_Some_conv)
  have c: "contents K db' = (contents K db)(log_key (le_index e) := Some b)"
    by (rule kv_put_contents [OF K p])
  have de: "entry_from_slice C b = Some e" using C b by (simp add: serde_laws_def)
  show "stored_log K C db' offset sn (es @ [e])"
    using st bd by (auto simp: stored_log_def c ix de nth_append le_Suc_eq)
  show "stored_hard K C db trm voted o1 \<Longrightarrow> stored_hard K C db' trm voted o1"
    by (erule stored_hard_cong) (auto simp: c)
qed

lemma truncate_from_stored:
  assumes K: "kv_laws K" and op: "truncate_from K i db = Some db'"
    and st: "stored_log K C db offset sn es" and lo: "offset < i" "i \<le> u64_max"
  shows "stored_log K C db' offset sn (take (i - Suc offset) es)"
    and "stored_hard K C db trm voted o1 \<Longrightarrow> stored_hard K C db' trm voted o1"
proof -
  note c = truncate_from_contents [OF K op]
  have len: "length (take (i - Suc offset) es) = min (length es) (i - Suc offset)" by simp
  show "stored_log K C db' offset sn (take (i - Suc offset) es)"
    unfolding stored_log_def c len
  proof (intro conjI allI impI)
    fix j
    assume j: "offset < j" "j \<le> offset + min (length es) (i - Suc offset)"
    then have "j < i" "j \<le> u64_max" "j - Suc offset < i - Suc offset" using lo by auto
    then show "\<exists>b. (if prefix LOG_PREFIX (log_key j) \<and> log_key i \<le> log_key j then None
        else contents K db (log_key j)) = Some b \<and>
        entry_from_slice C b = Some (take (i - Suc offset) es ! (j - Suc offset))"
      using st j lo by (simp add: stored_log_def)
  next
    fix j
    assume j: "offset + min (length es) (i - Suc offset) < j" "j \<le> u64_max"
    then show "(if prefix LOG_PREFIX (log_key j) \<and> log_key i \<le> log_key j then None
        else contents K db (log_key j)) = None"
      using st lo by (auto simp: stored_log_def min_def split: if_splits)
  qed (use st in \<open>auto simp: stored_log_def split: if_splits\<close>)
  show "stored_hard K C db trm voted o1 \<Longrightarrow> stored_hard K C db' trm voted o1"
    by (erule stored_hard_cong) (auto simp: c)
qed

lemma save_snapshot_stored:
  assumes K: "kv_laws K" and C: "serde_laws C" and op: "save_snapshot K C sn' offset' db = Some db'"
    and st: "stored_log K C db offset sn es" and lo: "offset \<le> offset'" "offset' < u64_max"
  shows "stored_log K C db' offset' (Some sn') (drop (offset' - offset) es)"
    and "stored_hard K C db trm voted o1 \<Longrightarrow> stored_hard K C db' trm voted offset'"
proof -
  obtain b where b: "snapshot_to_vec C sn' = Some b"
    and c: "\<And>k. contents K db' k =
      (if 0 < offset' \<and> prefix LOG_PREFIX k \<and> log_key 1 \<le> k \<and> k < log_key (u64_inc offset') then None
       else if k = ''log_offset'' then Some (to_be_bytes offset')
       else if k = ''snapshot'' then Some b else contents K db k)"
    using save_snapshot_contents [OF K op] by blast
  have de: "snapshot_from_slice C b = Some sn'" using C b by (simp add: serde_laws_def)
  have high: "contents K db' (log_key j) = contents K db (log_key j)" if "offset' < j" "j \<le> u64_max" for j
    using that lo(2) by (simp add: c u64_inc_small)
  have cs: "contents K db' ''snapshot'' = Some b" by (simp add: c)
  show "stored_log K C db' offset' (Some sn') (drop (offset' - offset) es)"
    unfolding stored_log_def
  proof (intro conjI allI impI)
    fix j
    assume j: "offset' < j" "j \<le> offset' + length (drop (offset' - offset) es)"
    then have "offset < j" "j \<le> offset + length es" "j \<le> u64_max" "offset' - offset + (j - Suc offset') = j - Suc offset"
      using lo st by (auto simp: stored_log_def)
    then show "\<exists>b. contents K db' (log_key j) = Some b \<and>
        entry_from_slice C b = Some (drop (offset' - offset) es ! (j - Suc offset'))"
      using st j high by (auto simp: stored_log_def)
  next
    fix j
    assume j: "offset' + length (drop (offset' - offset) es) < j" "j \<le> u64_max"
    then have "offset' < j" "offset + length es < j" using lo by auto
    then show "contents K db' (log_key j) = None"
      using st high [of j] j by (auto simp: stored_log_def)
  next
    fix k
    assume "prefix LOG_PREFIX k" "contents K db' k \<noteq> None"
    then show "\<exists>i\<le>u64_max. k = log_key i" using st by (auto simp: stored_log_def c split: if_splits)
  qed (use st lo in \<open>auto simp: stored_log_def cs optional_def de\<close>)
  show "stored_hard K C db trm voted o1 \<Longrightarrow> stored_hard K C db' trm voted offset'"
    by (auto simp: stored_hard_def c)
qed

text \<open>Reading back.\<close>

lemma available_get: "kv_laws K \<Longrightarrow> kv_available K C \<Longrightarrow> kv_get K db k = Some (contents K db k)"
  by (metis kv_available_def kv_get_contents not_None_eq)

lemma sorted_wrt_less_unique:
  fixes xs ys :: "'a::linorder list"
  assumes "sorted_wrt (<) xs" and "sorted_wrt (<) ys" and "set xs = set ys"
  shows "xs = ys"
  using assms by (auto simp: strict_sorted_iff intro: sorted_distinct_set_unique)

lemma log_keys_sorted: "b \<le> Suc u64_max \<Longrightarrow> sorted_wrt (<) (map log_key [a..<b])"
  by (auto simp: sorted_wrt_map intro!: sorted_wrt_mono_rel [OF _ sorted_wrt_upt])

lemma load_log_stored:
  assumes K: "kv_laws K" and A: "kv_available K C" and st: "stored_log K C db offset sn es"
  shows "load_log K C offset db = Some es"
proof -
  have off: "u64_inc offset = Suc offset" "offset + length es \<le> u64_max" "Suc offset \<le> u64_max"
    using st by (auto simp: stored_log_def u64_inc_small)
  obtain xs where it: "kv_iter_from K db (log_key (Suc offset)) = Some xs"
    using A unfolding kv_available_def by (metis not_None_eq)
  let ?ys = "filter (\<lambda>(k, v). prefix LOG_PREFIX k) xs"
  let ?ks = "map log_key [Suc offset..<Suc (offset + length es)]"
  have ks: "\<exists>i\<le>u64_max. k = log_key i" if "prefix LOG_PREFIX k" "contents K db k \<noteq> None" for k
    using st that unfolding stored_log_def by blast
  have lo: "\<exists>b. contents K db (log_key i) = Some b \<and> entry_from_slice C b = Some (es ! (i - Suc offset))"
    if "offset < i" "i \<le> offset + length es" for i
    using st that unfolding stored_log_def by blast
  have hi: "contents K db (log_key i) = None" if "offset + length es < i" "i \<le> u64_max" for i
    using st that unfolding stored_log_def by blast
  have key: "k \<in> set (map fst ?ys) \<longleftrightarrow> k \<in> set ?ks" for k
  proof -
    have "k \<in> set (map fst ?ys) \<longleftrightarrow> prefix LOG_PREFIX k \<and> k \<in> set (map fst xs)" by force
    also have "\<dots> \<longleftrightarrow> prefix LOG_PREFIX k \<and> log_key (Suc offset) \<le> k \<and> contents K db k \<noteq> None"
      by (simp only: iter_keys [OF K it])
    also have "\<dots> \<longleftrightarrow> (\<exists>i\<le>u64_max. k = log_key i \<and> offset < i \<and> contents K db k \<noteq> None)"
      using ks [of k] off(3) by (auto simp: Suc_le_eq) blast
    also have "\<dots> \<longleftrightarrow> (\<exists>i. k = log_key i \<and> offset < i \<and> i \<le> offset + length es)"
      using hi lo off(2) by (metis leI le_trans option.distinct(1))
    also have "\<dots> \<longleftrightarrow> k \<in> set ?ks"
      by (auto simp: image_iff less_Suc_eq_le Suc_le_eq simp del: upt_Suc intro!: bexI)
    finally show ?thesis .
  qed
  have "sorted_wrt (<) (map fst ?ys)"
    using kv_iter_contents(1) [OF K it] by (simp add: sorted_wrt_map sorted_wrt_filter)
  then have keys: "map fst ?ys = ?ks"
    by (rule sorted_wrt_less_unique [OF _ log_keys_sorted]) (use key off in auto)
  have "?ys = map (\<lambda>k. (k, the (contents K db k))) (map fst ?ys)"
    by (rule sym, unfold map_map, rule map_idI) (auto simp: kv_iter_contents(2) [OF K it])
  also have "map fst ?ys = ?ks" by (rule keys)
  finally have ys: "?ys = map (\<lambda>i. (log_key i, the (contents K db (log_key i)))) [Suc offset..<Suc (offset + length es)]"
    by (simp add: comp_def del: upt_Suc)
  have "those (map (\<lambda>(k, v). entry_from_slice C v) ?ys)
      = Some (map (\<lambda>i. es ! (i - Suc offset)) [Suc offset..<Suc (offset + length es)])"
    unfolding ys map_map
  proof (rule those_map_Some)
    fix i
    assume "i \<in> set [Suc offset..<Suc (offset + length es)]"
    then obtain b where "contents K db (log_key i) = Some b" "entry_from_slice C b = Some (es ! (i - Suc offset))"
      using lo [of i] by (auto simp del: upt_Suc)
    then show "((\<lambda>(k, v). entry_from_slice C v) \<circ> (\<lambda>i. (log_key i, the (contents K db (log_key i))))) i
        = Some (es ! (i - Suc offset))" by simp
  qed
  also have "map (\<lambda>i. es ! (i - Suc offset)) [Suc offset..<Suc (offset + length es)] = es"
    by (intro nth_equalityI) (auto simp del: upt_Suc)
  finally show ?thesis by (simp add: load_log_def off it iter_prefix(2) [OF K it])
qed

lemma load_state_stored:
  assumes "kv_laws K" and "kv_available K C"
    and "stored_log K C db offset sn es" and "stored_hard K C db trm voted offset"
  shows "load_state K C db =
    Some (Some \<lparr>ps_current_term = trm, ps_voted_for = voted, ps_log_offset = offset, ps_snapshot = sn, ps_log = es\<rparr>)"
proof -
  note g = available_get [OF assms(1,2)]
  have "offset \<le> u64_max" "optional (snapshot_from_slice C) (contents K db ''snapshot'') = Some sn"
    using assms(3) by (auto simp: stored_log_def)
  with assms(4) load_log_stored [OF assms(1-3)] show ?thesis
    by (auto simp: load_state_def g stored_hard_def)
qed

lemma load_state_fresh:
  assumes "kv_laws K" and "kv_available K C" and "contents K db ''term'' = None"
  shows "load_state K C db = Some None"
  using available_get [OF assms(1,2), of db] assms(3) by (simp add: load_state_def)

section \<open>Sequences of operations\<close>

text \<open>The four writing operations as values, their effect on the database and on what it stores.\<close>

datatype storage_op =
    OpHard u64 "node_id option" u64
  | OpAppend log_entry
  | OpTruncate u64
  | OpSnapshot raft_snapshot u64

fun storage_step :: "'db kv \<times> serde \<times> 'db \<Rightarrow> storage_op \<Rightarrow> ('db kv \<times> serde \<times> 'db) option" where
  "storage_step (K, C, db) (OpHard t v offset) = map_option (\<lambda>db. (K, C, db)) (save_hard_state K C t v offset db)"
| "storage_step (K, C, db) (OpAppend e) = map_option (\<lambda>db. (K, C, db)) (storage_append_entry K C e db)"
| "storage_step (K, C, db) (OpTruncate i) = map_option (\<lambda>db. (K, C, db)) (truncate_from K i db)"
| "storage_step (K, C, db) (OpSnapshot sn offset) = map_option (\<lambda>db. (K, C, db)) (save_snapshot K C sn offset db)"

fun apply_op :: "persisted_state \<Rightarrow> storage_op \<Rightarrow> persisted_state" where
  "apply_op p (OpHard t v offset) = p\<lparr>ps_current_term := t, ps_voted_for := v\<rparr>"
| "apply_op p (OpAppend e) = p\<lparr>ps_log := ps_log p @ [e]\<rparr>"
| "apply_op p (OpTruncate i) = p\<lparr>ps_log := take (i - Suc (ps_log_offset p)) (ps_log p)\<rparr>"
| "apply_op p (OpSnapshot sn offset) =
     p\<lparr>ps_log_offset := offset, ps_snapshot := Some sn, ps_log := drop (offset - ps_log_offset p) (ps_log p)\<rparr>"

fun op_ok :: "persisted_state \<Rightarrow> storage_op \<Rightarrow> bool" where
  "op_ok p (OpHard t v offset) = (offset = ps_log_offset p \<and> t \<le> u64_max)"
| "op_ok p (OpAppend e) = (le_index e = Suc (ps_log_offset p + length (ps_log p)) \<and> le_index e \<le> u64_max)"
| "op_ok p (OpTruncate i) = (ps_log_offset p < i \<and> i \<le> u64_max)"
| "op_ok p (OpSnapshot sn offset) = (ps_log_offset p \<le> offset \<and> offset < u64_max)"

definition stored :: "'db kv \<Rightarrow> serde \<Rightarrow> 'db \<Rightarrow> persisted_state \<Rightarrow> bool" where
  "stored K C db p \<longleftrightarrow>
     stored_log K C db (ps_log_offset p) (ps_snapshot p) (ps_log p) \<and>
     stored_hard K C db (ps_current_term p) (ps_voted_for p) (ps_log_offset p)"

fun storage_rel :: "'db kv \<times> serde \<times> 'db \<Rightarrow> persisted_state \<Rightarrow> bool" where
  "storage_rel (K, C, db) p = (kv_laws K \<and> serde_laws C \<and> stored K C db p)"

lemma storage_step_stored:
  assumes "storage_rel c p" and "op_ok p op" and "storage_step c op = Some c'"
  shows "storage_rel c' (apply_op p op)"
proof -
  obtain K C db where c: "c = (K, C, db)" by (cases c)
  with assms(1) have K: "kv_laws K" and C: "serde_laws C"
    and sl: "stored_log K C db (ps_log_offset p) (ps_snapshot p) (ps_log p)"
    and sh: "stored_hard K C db (ps_current_term p) (ps_voted_for p) (ps_log_offset p)"
    by (auto simp: stored_def)
  show ?thesis
  proof (cases op)
    case (OpHard t v offset)
    with assms(2,3) c save_hard_state_stored [OF K C _ sl] show ?thesis by (auto simp: stored_def K C)
  next
    case (OpAppend e)
    with assms(2,3) c storage_append_entry_stored [OF K C _ sl] sh show ?thesis
      by (auto simp: stored_def K C)
  next
    case (OpTruncate i)
    with assms(2,3) c truncate_from_stored [OF K _ sl] sh show ?thesis by (auto simp: stored_def K C)
  next
    case (OpSnapshot sn offset)
    with assms(2,3) c save_snapshot_stored [OF K C _ sl] sh show ?thesis by (auto simp: stored_def K C)
  qed
qed

interpretation storage: refinement storage_step apply_op op_ok storage_rel
  by unfold_locales (rule storage_step_stored)

lemma load_stored:
  assumes "kv_laws K" and "kv_available K C" and "stored K C db p"
  shows "load_state K C db = Some (Some p)"
  using load_state_stored [OF assms(1,2)] assms(3) by (cases p) (auto simp: stored_def)

lemma available_put: "kv_available K C \<Longrightarrow> \<exists>db'. kv_put K k v db = Some db'"
  unfolding kv_available_def by (metis not_None_eq)

lemma available_delete_keys: "kv_available K C \<Longrightarrow> \<exists>db'. delete_keys K ks db = Some db'"
proof (induction ks arbitrary: db)
  case (Cons k ks)
  then obtain db1 where "kv_delete K k db = Some db1" unfolding kv_available_def by (metis not_None_eq)
  with Cons show ?case by simp
qed simp

lemma storage_step_returns:
  assumes A: "kv_available K C"
  shows "\<exists>db'. storage_step (K, C, db) op = Some (K, C, db')"
proof -
  have put: "\<exists>db'. kv_put K k v db = Some db'" for k v db by (rule available_put [OF A])
  have del: "\<exists>db'. delete_keys K ks db = Some db'" for ks db by (rule available_delete_keys [OF A])
  have it: "\<exists>xs. kv_iter_from K db k = Some xs" for k db using A unfolding kv_available_def by (metis not_None_eq)
  have ser: "\<exists>b. vote_to_vec C v = Some b" "\<exists>b. entry_to_vec C e = Some b" "\<exists>b. snapshot_to_vec C sn = Some b"
    for v e sn using A unfolding kv_available_def by (metis not_None_eq)+
  show ?thesis
  proof (cases op)
    case (OpHard t v offset)
    then show ?thesis using ser(1) [of v] put by (auto simp: save_hard_state_def bind_eq_Some_conv) metis
  next
    case (OpAppend e)
    then show ?thesis using ser(2) [of e] put by (auto simp: storage_append_entry_def bind_eq_Some_conv)
  next
    case (OpTruncate i)
    then show ?thesis using it del by (auto simp: truncate_from_def bind_eq_Some_conv) metis
  next
    case (OpSnapshot sn offset)
    obtain b where b: "snapshot_to_vec C sn = Some b" using ser(3) by blast
    obtain db1 where p1: "kv_put K ''snapshot'' b db = Some db1" using put by blast
    obtain db2 where p2: "kv_put K ''log_offset'' (to_be_bytes offset) db1 = Some db2" using put by blast
    obtain xs where xs: "kv_iter_from K db2 (log_key 1) = Some xs" using it by blast
    from OpSnapshot b p1 p2 xs del show ?thesis by (simp add: save_snapshot_def)
  qed
qed

text \<open>
  The whole life of a database: from a fresh one, the first hard state and then any admitted
  sequence of operations; loading it afterwards returns what the operations describe.
\<close>

definition storage_run :: "'db kv \<Rightarrow> serde \<Rightarrow> storage_op list \<Rightarrow> 'db \<Rightarrow> 'db option" where
  "storage_run K C ops db = map_option (snd \<circ> snd) (storage.crun (K, C, db) ops)"

definition first_state :: "u64 \<Rightarrow> node_id option \<Rightarrow> persisted_state" where
  "first_state t v = \<lparr>ps_current_term = t, ps_voted_for = v, ps_log_offset = 0, ps_snapshot = None, ps_log = []\<rparr>"

fun ops_ok :: "persisted_state \<Rightarrow> storage_op list \<Rightarrow> bool" where
  "ops_ok p [] = True"
| "ops_ok p (op # ops) = (op_ok p op \<and> ops_ok (apply_op p op) ops)"

lemma ops_ok_admitted: "ops_ok p ops = storage.admitted p ops"
  by (induction ops arbitrary: p) auto

lemma storage_run_from:
  assumes K: "kv_laws K" and C: "serde_laws C" and A: "kv_available K C"
    and st: "stored K C db p" and ok: "ops_ok p ops"
  shows "\<exists>db'. storage_run K C ops db = Some db' \<and> stored K C db' (foldl apply_op p ops)"
proof -
  let ?live = "\<lambda>c. fst c = K \<and> fst (snd c) = C"
  have "\<exists>c'. storage.crun (K, C, db) ops = Some c' \<and> ?live c'"
    by (rule storage.run_returns [where live = ?live]) (use storage_step_returns [OF A] in force)+
  then obtain db' where r: "storage.crun (K, C, db) ops = Some (K, C, db')" by auto
  have "storage_rel (K, C, db') (foldl apply_op p ops)"
    by (rule storage.sim_run [OF _ _ r]) (use K C st ok in \<open>auto simp: ops_ok_admitted\<close>)
  with r show ?thesis by (simp add: storage_run_def)
qed

lemma storage_run_append:
  "storage_run K C (op # ops) db =
     (case storage_step (K, C, db) op of Some (K', C', db') \<Rightarrow> storage_run K' C' ops db' | None \<Rightarrow> None)"
  by (simp add: storage_run_def split: option.splits)

lemma storage_run_fresh:
  assumes K: "kv_laws K" and C: "serde_laws C" and A: "kv_available K C"
    and fresh: "\<And>k. contents K db k = None" and t: "t \<le> u64_max" and ok: "ops_ok (first_state t v) ops"
  shows "\<exists>db'. storage_run K C (OpHard t v 0 # ops) db = Some db' \<and>
    load_state K C db' = Some (Some (foldl apply_op (first_state t v) ops))"
proof -
  obtain db1 where h: "save_hard_state K C t v 0 db = Some db1"
    using storage_step_returns [OF A, of db "OpHard t v 0"] by auto
  have "stored K C db1 (first_state t v)"
    using save_hard_state_stored [OF K C h stored_log_fresh t] fresh by (simp add: stored_def first_state_def)
  from storage_run_from [OF K C A this ok] load_stored [OF K A] show ?thesis
    by (auto simp: storage_run_append h)
qed

section \<open>An in-memory database\<close>

text \<open>
  A database and a serialisation that satisfy the laws: a finite map, and a unary code of an
  enumeration of the values.
\<close>

definition kv_mem :: "(bytes, bytes) fmap kv" where
  "kv_mem = \<lparr>kv_put = (\<lambda>k v db. Some (fmupd k v db)), kv_delete = (\<lambda>k db. Some (fmdrop k db)),
     kv_get = (\<lambda>db k. Some (fmlookup db k)),
     kv_iter_from = (\<lambda>db k. Some (map (\<lambda>k. (k, the (fmlookup db k)))
       (filter ((\<le>) k) (sorted_list_of_fset (fmdom db))))),
     contents = fmlookup\<rparr>"

lemma kv_mem_laws: "kv_laws kv_mem"
proof -
  have "sorted_wrt (<) (filter ((\<le>) k) (sorted_list_of_fset (fmdom db)))" for k :: bytes and db :: "(bytes, bytes) fmap"
    by (intro sorted_wrt_filter) (simp add: strict_sorted_iff sorted_list_of_fset.rep_eq)
  then show ?thesis
    by (auto simp: kv_laws_def kv_mem_def fun_eq_iff comp_def sorted_list_of_fset.rep_eq fmlookup_dom_iff
        fmdomI image_iff)
qed

instance job_status :: countable
  by countable_datatype

instance job_status_update_ext :: (countable) countable
proof
  let ?f = "\<lambda>u :: 'a job_status_update_scheme. (jsu_job_id u, jsu_status u, jsu_executed_by u, jsu_exit_code u,
    jsu_completed_at u, job_status_update.more u)"
  have "inj (to_nat \<circ> ?f)" by (intro inj_compose) (auto simp: inj_def)
  then show "\<exists>f :: 'a job_status_update_scheme \<Rightarrow> nat. inj f" by blast
qed

instance command :: countable
  by countable_datatype

instance log_entry_ext :: (countable) countable
proof
  let ?f = "\<lambda>e :: 'a log_entry_scheme. (le_term e, le_index e, le_command e, log_entry.more e)"
  have "inj (to_nat \<circ> ?f)" by (intro inj_compose) (auto simp: inj_def)
  then show "\<exists>f :: 'a log_entry_scheme \<Rightarrow> nat. inj f" by blast
qed

instance snapshot_job_ext :: (countable) countable
proof
  let ?f = "\<lambda>j :: 'a snapshot_job_scheme. ((sj_id j, sj_command j, sj_status j, sj_assigned_worker j, sj_executed_by j),
    sj_exit_code j, sj_created_at j, sj_completed_at j, sj_image j, snapshot_job.more j)"
  have "inj (to_nat \<circ> ?f)" by (intro inj_compose) (auto simp: inj_def)
  then show "\<exists>f :: 'a snapshot_job_scheme \<Rightarrow> nat. inj f" by blast
qed

instance raft_snapshot_ext :: (countable) countable
proof
  let ?f = "\<lambda>s :: 'a raft_snapshot_scheme. (last_included_index s, last_included_term s, sn_jobs s, sn_workers s,
    raft_snapshot.more s)"
  have "inj (to_nat \<circ> ?f)" by (intro inj_compose) (auto simp: inj_def)
  then show "\<exists>f :: 'a raft_snapshot_scheme \<Rightarrow> nat. inj f" by blast
qed

definition unary_to_vec :: "'a::countable \<Rightarrow> bytes option" where
  "unary_to_vec x = Some (replicate (to_nat x) CHR ''1'')"

definition unary_from_slice :: "bytes \<Rightarrow> 'a::countable option" where
  "unary_from_slice b = Some (from_nat (length b))"

definition serde_unary :: serde where
  "serde_unary = \<lparr>vote_to_vec = unary_to_vec, vote_from_slice = unary_from_slice,
     entry_to_vec = unary_to_vec, entry_from_slice = unary_from_slice,
     snapshot_to_vec = unary_to_vec, snapshot_from_slice = unary_from_slice\<rparr>"

lemma serde_unary_laws: "serde_laws serde_unary"
  by (simp add: serde_laws_def serde_unary_def unary_to_vec_def unary_from_slice_def)

lemma kv_mem_available: "kv_available kv_mem serde_unary"
  by (simp add: kv_available_def kv_mem_def serde_unary_def unary_to_vec_def)

lemma kv_mem_fresh: "contents kv_mem fmempty k = None"
  by (simp add: kv_mem_def)

end
