(* ===== verification/Config.thy ===== *)
theory Config
  imports Nomad_Prelude Rust_Str
begin

text \<open>
  Configuration (\<open>src/config.rs\<close>) and the loading of the TLS files (\<open>src/tls.rs\<close>). The file system is an
  argument: \<open>exists\<close> and \<open>read\<close> as functions of the path, the latter failing with \<open>None\<close>.
\<close>

section \<open>Types\<close>

type_synonym path = string

datatype ip_addr = V4 nat nat nat nat | V6 "nat list"

record socket_addr =
  sa_ip :: ip_addr
  sa_port :: nat

record sandbox_config =
  sb_image :: string
  network_disabled :: bool
  memory_limit :: "string option"
  cpu_limit :: "string option"
  timeout_secs :: u64

record tls_config =
  tls_enabled :: bool
  ca_cert_path :: "path option"
  cert_path :: "path option"
  key_path :: "path option"
  allow_insecure :: bool

record peer_config =
  pc_node_id :: node_id
  pc_addr :: string

record node_config =
  nc_node_id :: node_id
  listen_addr :: socket_addr
  advertise_addr :: socket_addr
  nc_peers :: "peer_config list"
  election_timeout_min_ms :: u64
  election_timeout_max_ms :: u64
  heartbeat_interval_ms :: u64
  sandbox :: sandbox_config
  tls :: tls_config
  data_dir :: "path option"

section \<open>Defaults\<close>

definition sandbox_default :: sandbox_config where
  "sandbox_default = \<lparr>sb_image = ''alpine:latest'', network_disabled = True, memory_limit = Some ''256m'',
     cpu_limit = Some ''0.5'', timeout_secs = 30\<rparr>"

definition tls_default :: tls_config where
  "tls_default = \<lparr>tls_enabled = False, ca_cert_path = None, cert_path = None, key_path = None,
     allow_insecure = False\<rparr>"

definition is_complete :: "tls_config \<Rightarrow> bool" where
  "is_complete c \<longleftrightarrow> tls_enabled c \<and> ca_cert_path c \<noteq> None \<and> cert_path c \<noteq> None \<and> key_path c \<noteq> None"

definition config_default :: node_config where
  "config_default =
     (let addr = \<lparr>sa_ip = V4 127 0 0 1, sa_port = 50051\<rparr> in
      \<lparr>nc_node_id = 1, listen_addr = addr, advertise_addr = addr, nc_peers = [],
       election_timeout_min_ms = 150, election_timeout_max_ms = 300, heartbeat_interval_ms = 50,
       sandbox = sandbox_default, tls = tls_default, data_dir = None\<rparr>)"

definition config_new :: "node_id \<Rightarrow> socket_addr \<Rightarrow> node_config" where
  "config_new n addr = config_default\<lparr>nc_node_id := n, listen_addr := addr, advertise_addr := addr\<rparr>"

definition with_peer :: "node_id \<Rightarrow> string \<Rightarrow> node_config \<Rightarrow> node_config" where
  "with_peer n addr c = c\<lparr>nc_peers := nc_peers c @ [\<lparr>pc_node_id = n, pc_addr = addr\<rparr>]\<rparr>"

text \<open>The ids of the configured peers, and the whole cluster as this node sees it.\<close>

definition peer_ids :: "node_config \<Rightarrow> node_id list" where
  "peer_ids c = map pc_node_id (nc_peers c)"

definition cluster_ids :: "node_config \<Rightarrow> node_id set" where
  "cluster_ids c = insert (nc_node_id c) (set (peer_ids c))"

definition config_wf :: "node_config \<Rightarrow> bool" where
  "config_wf c \<longleftrightarrow> distinct (nc_node_id c # peer_ids c)"

section \<open>TLS identity\<close>

datatype tls_error =
    MissingCaCert
  | MissingCert
  | MissingKey
  | CaCertNotFound path
  | CertNotFound path
  | KeyNotFound path
  | TlsIoError

record tls_identity =
  id_cert :: string
  id_key :: string
  id_ca_cert :: string

fun ok_or :: "'e \<Rightarrow> 'a option \<Rightarrow> 'e + 'a" where
  "ok_or e None = Inl e"
| "ok_or e (Some x) = Inr x"

fun and_then :: "'e + 'a \<Rightarrow> ('a \<Rightarrow> 'e + 'b) \<Rightarrow> 'e + 'b" where
  "and_then (Inl e) f = Inl e"
| "and_then (Inr x) f = f x"

definition tls_load ::
  "(path \<Rightarrow> bool) \<Rightarrow> (path \<Rightarrow> string option) \<Rightarrow> tls_config \<Rightarrow> tls_error + tls_identity" where
  "tls_load file_exists read_file c =
     and_then (ok_or MissingCaCert (ca_cert_path c)) (\<lambda>ca.
     and_then (ok_or MissingCert (cert_path c)) (\<lambda>cert.
     and_then (ok_or MissingKey (key_path c)) (\<lambda>key.
       if \<not> file_exists ca then Inl (CaCertNotFound ca)
       else if \<not> file_exists cert then Inl (CertNotFound cert)
       else if \<not> file_exists key then Inl (KeyNotFound key)
       else and_then (ok_or TlsIoError (read_file ca)) (\<lambda>ca_pem.
            and_then (ok_or TlsIoError (read_file cert)) (\<lambda>cert_pem.
            and_then (ok_or TlsIoError (read_file key)) (\<lambda>key_pem.
              Inr \<lparr>id_cert = cert_pem, id_key = key_pem, id_ca_cert = ca_pem\<rparr>))))))"

section \<open>Lemmas\<close>

lemma config_new_wf: "config_wf (config_new n addr)"
  by (simp add: config_wf_def config_new_def config_default_def peer_ids_def Let_def)

lemma with_peer_wf: "config_wf c \<Longrightarrow> n \<notin> cluster_ids c \<Longrightarrow> config_wf (with_peer n addr c)"
  by (auto simp: config_wf_def with_peer_def peer_ids_def cluster_ids_def)

lemma cluster_card: "config_wf c \<Longrightarrow> card (cluster_ids c) = Suc (length (nc_peers c))"
  using distinct_card [of "peer_ids c"] by (simp add: config_wf_def cluster_ids_def) (simp add: peer_ids_def)

lemma cluster_finite [simp]: "finite (cluster_ids c)"
  by (simp add: cluster_ids_def)

lemma ok_or_Inr [simp]: "ok_or e o1 = Inr x \<longleftrightarrow> o1 = Some x"
  by (cases o1) auto

lemma and_then_Inr: "and_then r f = Inr y \<longleftrightarrow> (\<exists>x. r = Inr x \<and> f x = Inr y)"
  by (cases r) auto

text \<open>An identity is loaded exactly when the three files are configured, exist and can be read.\<close>

lemma tls_load_ok_iff:
  "tls_load ex rd c = Inr i \<longleftrightarrow>
     (\<exists>ca cert key. ca_cert_path c = Some ca \<and> cert_path c = Some cert \<and> key_path c = Some key \<and>
        ex ca \<and> ex cert \<and> ex key \<and>
        rd ca = Some (id_ca_cert i) \<and> rd cert = Some (id_cert i) \<and> rd key = Some (id_key i))"
  by (cases i) (auto simp: tls_load_def and_then_Inr)

lemma tls_load_complete:
  "tls_enabled c \<Longrightarrow> tls_load ex rd c = Inr i \<Longrightarrow> is_complete c"
  by (auto simp: tls_load_ok_iff is_complete_def)

end
