(* ===== verification/Raft_Node.thy ===== *)
theory Raft_Node
  imports Raft_Handlers Raft_Storage Config
begin

text \<open>
  The Raft node (\<open>RaftNode\<close> of \<open>src/raft/node.rs\<close>). A node is its configuration, its Raft state, the
  peers it holds channels to, the timers and channels it owns, and its database, if it has one. An
  operation that writes to the database returns \<open>None\<close> where the storage layer panics. The code
  releases its lock while it waits for an answer; such an operation is split where the lock is
  released: one function up to the request, one per answer, so that any interleaving with other
  operations is a sequence of these functions. Clock readings and the outcome of a connection attempt
  are arguments.
\<close>

section \<open>The node\<close>

record 'db raft_node =
  rn_config :: node_config
  rn_state :: raft_state
  peers :: "node_id list"
  heartbeat_peers :: "node_id list"
  last_heartbeat :: instant
  commit_notify :: u64
  peer_last_seen :: "(node_id, instant) hmap"
  pending_snapshot :: "raft_snapshot option"
  rn_storage :: "'db option"

definition PEER_TIMEOUT_MS :: u64 where
  "PEER_TIMEOUT_MS = 3000"

abbreviation ns_per_ms :: nat where
  "ns_per_ms \<equiv> 1000000"

definition restored_state :: "persisted_state option \<Rightarrow> raft_state" where
  "restored_state persisted =
     (case persisted of
        None \<Rightarrow> raft_new
      | Some p \<Rightarrow>
          let s = raft_new\<lparr>current_term := ps_current_term p, voted_for := ps_voted_for p,
                log_offset := ps_log_offset p, rlog := ps_log p, snapshot := ps_snapshot p\<rparr>
          in (case ps_snapshot p of
                Some sn \<Rightarrow> s\<lparr>commit_index := last_included_index sn, last_applied := last_included_index sn\<rparr>
              | None \<Rightarrow> s))"

definition new_with_storage ::
  "node_config \<Rightarrow> 'db option \<Rightarrow> persisted_state option \<Rightarrow> instant \<Rightarrow> 'db raft_node" where
  "new_with_storage config db persisted now =
     \<lparr>rn_config = config, rn_state = restored_state persisted, peers = [], heartbeat_peers = [],
      last_heartbeat = now, commit_notify = 0, peer_last_seen = hm_empty, pending_snapshot = None,
      rn_storage = db\<rparr>"

definition raft_node_new :: "node_config \<Rightarrow> instant \<Rightarrow> 'db raft_node" where
  "raft_node_new config now = new_with_storage config None None now"

definition restore_snapshot_for_scheduler :: "'db raft_node \<Rightarrow> 'db raft_node" where
  "restore_snapshot_for_scheduler n =
     (case snapshot (rn_state n) of
        Some sn \<Rightarrow> n\<lparr>pending_snapshot := Some sn, commit_notify := commit_index (rn_state n)\<rparr>
      | None \<Rightarrow> n)"

definition get_peers_status :: "instant \<Rightarrow> 'db raft_node \<Rightarrow> (node_id \<times> bool) list" where
  "get_peers_status now n =
     map (\<lambda>p. (pc_node_id p,
        (case hm_get (peer_last_seen n) (pc_node_id p) of
           Some seen \<Rightarrow> (now - seen) div ns_per_ms < PEER_TIMEOUT_MS
         | None \<Rightarrow> False))) (nc_peers (rn_config n))"

section \<open>Connections\<close>

text \<open>
  What happens when a peer is dialled: an invalid endpoint, TLS settings or connection fail the data
  channel; the heartbeat channel is only tried when the data channel is up.
\<close>

datatype dial_result = Dial_Failed | Dial_Data_Only | Dial_Both

definition peer_uri :: "bool \<Rightarrow> peer_config \<Rightarrow> string" where
  "peer_uri has_tls p = (if has_tls then ''https://'' @ pc_addr p else ''http://'' @ pc_addr p)"

definition connect_to_peer :: "(string \<Rightarrow> dial_result) \<Rightarrow> bool \<Rightarrow> 'db raft_node \<Rightarrow> peer_config \<Rightarrow> 'db raft_node" where
  "connect_to_peer dial has_tls n p =
     (if pc_node_id p \<in> set (peers n) then n
      else case dial (peer_uri has_tls p) of
             Dial_Failed \<Rightarrow> n
           | Dial_Data_Only \<Rightarrow> n\<lparr>peers := peers n @ [pc_node_id p]\<rparr>
           | Dial_Both \<Rightarrow> n\<lparr>peers := peers n @ [pc_node_id p],
                heartbeat_peers := List.insert (pc_node_id p) (heartbeat_peers n)\<rparr>)"

definition connect_to_peers :: "(string \<Rightarrow> dial_result) \<Rightarrow> bool \<Rightarrow> 'db raft_node \<Rightarrow> 'db raft_node" where
  "connect_to_peers dial has_tls n = foldl (connect_to_peer dial has_tls) n (nc_peers (rn_config n))"

definition all_peers_connected :: "'db raft_node \<Rightarrow> bool" where
  "all_peers_connected n \<longleftrightarrow> list_all (\<lambda>p. pc_node_id p \<in> set (peers n)) (nc_peers (rn_config n))"

section \<open>Persistence\<close>

text \<open>\<open>if let Some(ref storage) = self.storage\<close>.\<close>

definition with_storage :: "('db \<Rightarrow> 'db option) \<Rightarrow> 'db raft_node \<Rightarrow> 'db raft_node option" where
  "with_storage f n =
     (case rn_storage n of
        None \<Rightarrow> Some n
      | Some db \<Rightarrow> map_option (\<lambda>db. n\<lparr>rn_storage := Some db\<rparr>) (f db))"

definition persist_hard_state :: "'db kv \<Rightarrow> serde \<Rightarrow> 'db raft_node \<Rightarrow> 'db raft_node option" where
  "persist_hard_state K C n =
     with_storage (save_hard_state K C (current_term (rn_state n)) (voted_for (rn_state n)) (log_offset (rn_state n))) n"

fun append_entries_to_storage :: "'db kv \<Rightarrow> serde \<Rightarrow> log_entry list \<Rightarrow> 'db \<Rightarrow> 'db option" where
  "append_entries_to_storage K C [] db = Some db"
| "append_entries_to_storage K C (e # es) db =
     do { db \<leftarrow> storage_append_entry K C e db; append_entries_to_storage K C es db }"

definition step_down :: "'db kv \<Rightarrow> serde \<Rightarrow> u64 \<Rightarrow> 'db raft_node \<Rightarrow> 'db raft_node option" where
  "step_down K C t n = persist_hard_state K C (n\<lparr>rn_state := become_follower t (rn_state n)\<rparr>)"

definition saw_peer :: "instant \<Rightarrow> node_id \<Rightarrow> 'db raft_node \<Rightarrow> 'db raft_node" where
  "saw_peer now p n = n\<lparr>peer_last_seen := hm_insert p now (peer_last_seen n)\<rparr>"

section \<open>Elections\<close>

text \<open>\<open>start_election\<close>, up to the first request: the new term, the self-vote and the request.\<close>

definition majority_of :: "'db raft_node \<Rightarrow> nat" where
  "majority_of n = (length (nc_peers (rn_config n)) + 1) div 2 + 1"

definition begin_election :: "'db kv \<Rightarrow> serde \<Rightarrow> 'db raft_node \<Rightarrow> ('db raft_node \<times> vote_request) option" where
  "begin_election K C n =
     (let s = become_candidate (nc_node_id (rn_config n)) (rn_state n) in
      do {
        n \<leftarrow> persist_hard_state K C (n\<lparr>rn_state := s\<rparr>);
        Some (n, \<lparr>vr_term = current_term s, vr_candidate_id = nc_node_id (rn_config n),
                  vr_last_log_index = last_log_index s, vr_last_log_term = last_log_term s\<rparr>)
      })"

text \<open>
  The loop over the peers, one answer at a time; \<open>None\<close> is a failed or timed-out call. An answer of a
  higher term ends the election.
\<close>

datatype tally = Counted u64 | Outvoted

definition count_answer ::
  "'db kv \<Rightarrow> serde \<Rightarrow> u64 \<Rightarrow> instant \<Rightarrow> node_id \<times> vote_response option \<Rightarrow> u64 \<Rightarrow> 'db raft_node
    \<Rightarrow> ('db raft_node \<times> tally) option" where
  "count_answer K C trm now a votes n =
     (case a of
        (p, None) \<Rightarrow> Some (n, Counted votes)
      | (p, Some r) \<Rightarrow>
          let n = saw_peer now p n in
          if trm < vres_term r
          then map_option (\<lambda>n. (n, Outvoted)) (step_down K C (vres_term r) n)
          else Some (n, Counted (if vote_granted r then votes + 1 else votes)))"

fun collect_votes ::
  "'db kv \<Rightarrow> serde \<Rightarrow> u64 \<Rightarrow> instant \<Rightarrow> (node_id \<times> vote_response option) list \<Rightarrow> u64 \<Rightarrow> 'db raft_node
    \<Rightarrow> ('db raft_node \<times> tally) option" where
  "collect_votes K C trm now [] votes n = Some (n, Counted votes)"
| "collect_votes K C trm now (a # as) votes n =
     do {
       (n, t) \<leftarrow> count_answer K C trm now a votes n;
       case t of Outvoted \<Rightarrow> Some (n, Outvoted) | Counted votes \<Rightarrow> collect_votes K C trm now as votes n
     }"

definition finish_election :: "u64 \<Rightarrow> u64 \<Rightarrow> 'db raft_node \<Rightarrow> 'db raft_node" where
  "finish_election trm votes n =
     (let s = rn_state n in
      if role s = Candidate \<and> current_term s = trm then
        let s1 = s\<lparr>votes_received := votes\<rparr> in
        n\<lparr>rn_state := (if majority_of n \<le> votes
                       then become_leader (nc_node_id (rn_config n)) (peer_ids (rn_config n)) s1 else s1)\<rparr>
      else n)"

text \<open>An election that nothing interrupts; \<open>ask\<close> gives the answer of each peer.\<close>

definition start_election ::
  "'db kv \<Rightarrow> serde \<Rightarrow> (node_id \<Rightarrow> vote_request \<Rightarrow> vote_response option) \<Rightarrow> instant \<Rightarrow> 'db raft_node \<Rightarrow> 'db raft_node option" where
  "start_election K C ask now n =
     do {
       (n, req) \<leftarrow> begin_election K C n;
       (n, t) \<leftarrow> collect_votes K C (vr_term req) now (map (\<lambda>p. (p, ask p req)) (peers n)) 1 n;
       case t of Outvoted \<Rightarrow> Some n | Counted votes \<Rightarrow> Some (finish_election (vr_term req) votes n)
     }"

section \<open>Heartbeats and replication\<close>

text \<open>One round of the heartbeat task, and the handling of an answer to a heartbeat of term \<open>sent\<close>.\<close>

definition heartbeat_request :: "node_id \<Rightarrow> raft_state \<Rightarrow> append_entries_request" where
  "heartbeat_request me s =
     \<lparr>ae_term = current_term s, ae_leader_id = me, ae_prev_log_index = 0, ae_prev_log_term = 0,
      ae_entries = [], ae_leader_commit = commit_index s\<rparr>"

definition heartbeat_round :: "'db raft_node \<Rightarrow> (node_id \<times> append_entries_request) list" where
  "heartbeat_round n =
     (if role (rn_state n) \<noteq> Leader then []
      else map (\<lambda>p. (p, heartbeat_request (nc_node_id (rn_config n)) (rn_state n))) (heartbeat_peers n))"

definition heartbeat_answer ::
  "'db kv \<Rightarrow> serde \<Rightarrow> instant \<Rightarrow> node_id \<Rightarrow> u64 \<Rightarrow> append_entries_response \<Rightarrow> 'db raft_node \<Rightarrow> 'db raft_node option" where
  "heartbeat_answer K C now p sent r n =
     (let n = saw_peer now p n in
      if sent < aer_term r then step_down K C (aer_term r) n else Some n)"

text \<open>\<open>replicate_to_peers\<close>: what is sent to each connected peer.\<close>

datatype outgoing = SendSnapshot install_snapshot_request | SendEntries append_entries_request | SendNothing

definition snapshot_request :: "ext \<Rightarrow> node_id \<Rightarrow> u64 \<Rightarrow> raft_snapshot \<Rightarrow> install_snapshot_request" where
  "snapshot_request X me trm sn =
     \<lparr>is_term = trm, is_leader_id = me, is_last_included_index = last_included_index sn,
      is_last_included_term = last_included_term sn, is_jobs = map (snapshot_job_to_proto X) (sn_jobs sn),
      is_workers = sn_workers sn\<rparr>"

definition entries_start :: "raft_state \<Rightarrow> u64" where
  "entries_start s =
     (let min_next = (case hm_values (next_index s) of [] \<Rightarrow> 1 | v # vs \<Rightarrow> foldl min v vs)
      in max (min_next - 1) (u64_inc (log_offset s)))"

definition prev_term_of :: "raft_state \<Rightarrow> log_entry list \<Rightarrow> u64 \<Rightarrow> u64" where
  "prev_term_of s es prev =
     (if prev = 0 then 0
      else if prev = log_offset s then (case snapshot s of Some sn \<Rightarrow> last_included_term sn | None \<Rightarrow> 0)
      else (case List.find (\<lambda>e. le_index e = prev) es of Some e \<Rightarrow> le_term e | None \<Rightarrow> 0))"

definition append_request :: "ext \<Rightarrow> node_id \<Rightarrow> raft_state \<Rightarrow> u64 \<Rightarrow> append_entries_request" where
  "append_request X me s next =
     (let es = get_entries_from s (entries_start s); prev = next - 1 in
      \<lparr>ae_term = current_term s, ae_leader_id = me, ae_prev_log_index = prev,
       ae_prev_log_term = prev_term_of s es prev,
       ae_entries = map (log_entry_to_proto X) (filter (\<lambda>e. next \<le> le_index e) es),
       ae_leader_commit = commit_index s\<rparr>)"

definition replicate_to_peer :: "ext \<Rightarrow> node_id \<Rightarrow> raft_state \<Rightarrow> node_id \<Rightarrow> outgoing" where
  "replicate_to_peer X me s p =
     (let next = (case hm_get (next_index s) p of Some i \<Rightarrow> i | None \<Rightarrow> 1);
          req = append_request X me s next;
          known = (case hm_get (match_index s) p of Some i \<Rightarrow> i | None \<Rightarrow> 0);
          normal = (if ae_entries req = [] \<and> commit_index s \<le> known then SendNothing else SendEntries req)
      in if next \<le> log_offset s
         then (case snapshot s of
                 Some sn \<Rightarrow> SendSnapshot (snapshot_request X me (current_term s) sn)
               | None \<Rightarrow> normal)
         else normal)"

definition replicate_to_peers :: "ext \<Rightarrow> 'db raft_node \<Rightarrow> (node_id \<times> outgoing) list" where
  "replicate_to_peers X n =
     (let s = rn_state n in
      if role s \<noteq> Leader then []
      else map (\<lambda>p. (p, replicate_to_peer X (nc_node_id (rn_config n)) s p)) (peers n))"

text \<open>The two tasks that wait for the answers.\<close>

definition snapshot_answer ::
  "'db kv \<Rightarrow> serde \<Rightarrow> instant \<Rightarrow> node_id \<Rightarrow> u64 \<Rightarrow> install_snapshot_response \<Rightarrow> 'db raft_node \<Rightarrow> 'db raft_node option" where
  "snapshot_answer K C now p snapshot_last r n =
     (let n = saw_peer now p n; s = rn_state n in
      if current_term s < isr_term r then step_down K C (isr_term r) n
      else Some (n\<lparr>rn_state := s\<lparr>next_index := hm_insert p (u64_inc snapshot_last) (next_index s),
                              match_index := hm_insert p snapshot_last (match_index s)\<rparr>\<rparr>))"

definition majority_match :: "raft_state \<Rightarrow> u64" where
  "majority_match s =
     (let ms = sort (hm_values (match_index s) @ [last_log_index s]) in ms ! (length ms div 2))"

definition advance_commit :: "raft_state \<Rightarrow> raft_state" where
  "advance_commit s =
     (let new = majority_match s in
      if commit_index s < new then
        (case get_entry s new of
           Some e \<Rightarrow> if le_term e = current_term s then s\<lparr>commit_index := new\<rparr> else s
         | None \<Rightarrow> s)
      else s)"

definition append_answer ::
  "'db kv \<Rightarrow> serde \<Rightarrow> instant \<Rightarrow> node_id \<Rightarrow> append_entries_response \<Rightarrow> 'db raft_node \<Rightarrow> 'db raft_node option" where
  "append_answer K C now p r n =
     (let n = saw_peer now p n; s = rn_state n in
      if current_term s < aer_term r then step_down K C (aer_term r) n
      else if role s = Leader \<and> aer_success r then
        let s1 = s\<lparr>match_index := hm_insert p (aer_match_index r) (match_index s),
                    next_index := hm_insert p (u64_inc (aer_match_index r)) (next_index s)\<rparr>;
            s2 = advance_commit s1
        in Some (n\<lparr>rn_state := s2,
                   commit_notify := (if commit_index s1 < commit_index s2 then commit_index s2 else commit_notify n)\<rparr>)
      else if role s = Leader then
        let current = (case hm_get (next_index s) p of Some i \<Rightarrow> i | None \<Rightarrow> 1)
        in Some (if 1 < current
                 then n\<lparr>rn_state := s\<lparr>next_index := hm_insert p (current - 1) (next_index s)\<rparr>\<rparr> else n)
      else Some n)"

section \<open>Handlers\<close>

text \<open>
  \<open>handle_append_command\<close>. The lock is released between the append to the log and the write to the
  database, hence two functions.
\<close>

definition show_leader :: "node_id option \<Rightarrow> string" where
  "show_leader l = (case l of None \<Rightarrow> ''None'' | Some i \<Rightarrow> ''Some('' @ show_nat i @ '')'')"

definition append_command :: "command \<Rightarrow> 'db raft_node \<Rightarrow> 'db raft_node \<times> (string + log_entry)" where
  "append_command c n =
     (let s = rn_state n in
      if role s \<noteq> Leader then (n, Inl (''Not leader. Current leader: '' @ show_leader (leader_id s)))
      else let (s', e) = append_entry c s in (n\<lparr>rn_state := s'\<rparr>, Inr e))"

definition persist_entry :: "'db kv \<Rightarrow> serde \<Rightarrow> log_entry \<Rightarrow> 'db raft_node \<Rightarrow> 'db raft_node option" where
  "persist_entry K C e n = with_storage (storage_append_entry K C e) n"

definition handle_append_command ::
  "'db kv \<Rightarrow> serde \<Rightarrow> command \<Rightarrow> 'db raft_node \<Rightarrow> ('db raft_node \<times> (string + u64)) option" where
  "handle_append_command K C c n =
     (case append_command c n of
        (n', Inl err) \<Rightarrow> Some (n', Inl err)
      | (n', Inr e) \<Rightarrow> map_option (\<lambda>n. (n, Inr (le_index e))) (persist_entry K C e n'))"

definition handle_vote_request ::
  "'db kv \<Rightarrow> serde \<Rightarrow> instant \<Rightarrow> vote_request \<Rightarrow> 'db raft_node \<Rightarrow> ('db raft_node \<times> vote_response) option" where
  "handle_vote_request K C now req n =
     (let (s, r) = handle_request_vote req (rn_state n) in
      do {
        n \<leftarrow> persist_hard_state K C (n\<lparr>rn_state := s\<rparr>);
        Some (if vote_granted r then n\<lparr>last_heartbeat := now\<rparr> else n, r)
      })"

text \<open>
  The node's \<open>handle_append_entries\<close>: after the hard state, the database follows the log. On success
  with entries it is truncated and refilled from the first new index; when a mismatch cut the log, it
  is cut as well.
\<close>

definition sync_log ::
  "'db kv \<Rightarrow> serde \<Rightarrow> append_entries_request \<Rightarrow> append_entries_response \<Rightarrow> u64 \<Rightarrow> raft_state \<Rightarrow> 'db \<Rightarrow> 'db option" where
  "sync_log K C req r old_last s db =
     (if aer_success r \<and> ae_entries req \<noteq> [] then
        let start = u64_inc (ae_prev_log_index req) in
        do { db \<leftarrow> truncate_from K start db; append_entries_to_storage K C (get_entries_from s start) db }
      else if \<not> aer_success r \<and> last_log_index s < old_last
      then truncate_from K (u64_inc (last_log_index s)) db
      else Some db)"

definition handle_append_entries_node ::
  "'db kv \<Rightarrow> serde \<Rightarrow> ext \<Rightarrow> instant \<Rightarrow> append_entries_request \<Rightarrow> 'db raft_node
    \<Rightarrow> ('db raft_node \<times> append_entries_response) option" where
  "handle_append_entries_node K C X now req n =
     (let (s, r) = handle_append_entries X req (rn_state n) in
      do {
        n1 \<leftarrow> persist_hard_state K C (n\<lparr>rn_state := s\<rparr>);
        n2 \<leftarrow> with_storage (sync_log K C req r (last_log_index (rn_state n)) s) n1;
        let n3 = (if aer_success r \<and> commit_index (rn_state n) < commit_index s
                  then n2\<lparr>commit_notify := commit_index s\<rparr> else n2);
            n4 = (if aer_success r then n3\<lparr>last_heartbeat := now\<rparr> else n3)
        in Some (n4, r)
      })"

text \<open>
  After the Raft handler: a snapshot that covers the requested index is saved and offered to the
  scheduler loop.
\<close>

definition offer_snapshot ::
  "'db kv \<Rightarrow> serde \<Rightarrow> install_snapshot_request \<Rightarrow> 'db raft_node \<Rightarrow> 'db raft_node option" where
  "offer_snapshot K C req n =
     (case snapshot (rn_state n) of
        Some sn \<Rightarrow>
          if is_last_included_index req \<le> log_offset (rn_state n) then
            do {
              n \<leftarrow> with_storage (save_snapshot K C sn (log_offset (rn_state n))) n;
              Some (n\<lparr>pending_snapshot := Some sn, commit_notify := commit_index (rn_state n)\<rparr>)
            }
          else Some n
      | None \<Rightarrow> Some n)"

definition handle_install_snapshot_node ::
  "'db kv \<Rightarrow> serde \<Rightarrow> ext \<Rightarrow> instant \<Rightarrow> install_snapshot_request \<Rightarrow> 'db raft_node
    \<Rightarrow> ('db raft_node \<times> install_snapshot_response) option" where
  "handle_install_snapshot_node K C X now req n =
     (let (s, r) = handle_install_snapshot X req (rn_state n) in
      do {
        n \<leftarrow> persist_hard_state K C (n\<lparr>rn_state := s\<rparr>);
        n \<leftarrow> offer_snapshot K C req n;
        Some (n\<lparr>last_heartbeat := now\<rparr>, r)
      })"

definition take_pending_snapshot :: "'db raft_node \<Rightarrow> 'db raft_node \<times> raft_snapshot option" where
  "take_pending_snapshot n = (n\<lparr>pending_snapshot := None\<rparr>, pending_snapshot n)"

definition is_leader :: "'db raft_node \<Rightarrow> bool" where
  "is_leader n \<longleftrightarrow> role (rn_state n) = Leader"

definition get_leader_id :: "'db raft_node \<Rightarrow> node_id option" where
  "get_leader_id n =
     (if role (rn_state n) = Leader then Some (nc_node_id (rn_config n)) else leader_id (rn_state n))"

text \<open>\<open>get_committed_entries\<close>: the loop moves \<open>last_applied\<close> up to the commit index.\<close>

function committed_loop :: "raft_state \<Rightarrow> log_entry list \<Rightarrow> raft_state \<times> log_entry list" where
  "committed_loop s acc =
     (if last_applied s < commit_index s then
        let s' = s\<lparr>last_applied := last_applied s + 1\<rparr> in
        committed_loop s' (case get_entry s' (last_applied s') of Some e \<Rightarrow> acc @ [e] | None \<Rightarrow> acc)
      else (s, acc))"
  by pat_completeness auto
termination
  by (relation "measure (\<lambda>(s, acc). commit_index s - last_applied s)") (auto simp: Let_def)

declare committed_loop.simps [simp del]

definition get_committed_entries :: "'db raft_node \<Rightarrow> 'db raft_node \<times> log_entry list" where
  "get_committed_entries n =
     (let (s, es) = committed_loop (rn_state n) [] in (n\<lparr>rn_state := s\<rparr>, es))"

section \<open>Leadership transfer\<close>

definition not_leader_msg :: string where
  "not_leader_msg = ''Not the leader''"

definition pick_target :: "node_id option \<Rightarrow> 'db raft_node \<Rightarrow> string + node_id" where
  "pick_target target n =
     (if role (rn_state n) \<noteq> Leader then Inl not_leader_msg
      else case target of
             Some i \<Rightarrow> if i \<in> set (peer_ids (rn_config n)) then Inr i else Inl (''Unknown target node '' @ show_nat i)
           | None \<Rightarrow>
               (case max_by_key snd (match_index (rn_state n)) of
                  Some (i, m) \<Rightarrow> Inr i
                | None \<Rightarrow> Inl ''No peers available for transfer''))"

text \<open>One turn of the wait for the target to catch up with the index the leader had at the start.\<close>

definition caught_up :: "node_id \<Rightarrow> u64 \<Rightarrow> 'db raft_node \<Rightarrow> bool" where
  "caught_up target leader_last n \<longleftrightarrow>
     leader_last \<le> (case hm_get (match_index (rn_state n)) target of Some i \<Rightarrow> i | None \<Rightarrow> 0)"

datatype wait_turn = Ready | GiveUp string | PushAndSleep

definition transfer_wait :: "node_id \<Rightarrow> u64 \<Rightarrow> instant \<Rightarrow> instant \<Rightarrow> 'db raft_node \<Rightarrow> wait_turn" where
  "transfer_wait target leader_last deadline now n =
     (if caught_up target leader_last n then Ready
      else if deadline \<le> now
      then GiveUp (''Target node '' @ show_nat target @ '' did not catch up within 2s'')
      else PushAndSleep)"

record timeout_now_request =
  tn_term :: u64
  tn_leader_id :: node_id

record timeout_now_response =
  tnr_term :: u64
  tnr_success :: bool

datatype 'r rpc_outcome = RpcOk 'r | RpcError string | RpcTimeout

definition send_timeout_now ::
  "(node_id \<Rightarrow> timeout_now_request \<Rightarrow> timeout_now_response rpc_outcome) \<Rightarrow> node_id \<Rightarrow> u64 \<Rightarrow> 'db raft_node \<Rightarrow> string + unit" where
  "send_timeout_now call target trm n =
     (if target \<notin> set (peers n) then Inl (''Not connected to target node '' @ show_nat target)
      else case call target \<lparr>tn_term = trm, tn_leader_id = nc_node_id (rn_config n)\<rparr> of
             RpcOk r \<Rightarrow>
               if tnr_success r then Inr ()
               else Inl (''TimeoutNow rejected by node '' @ show_nat target @ '' (term '' @ show_nat (tnr_term r) @ '')'')
           | RpcError e \<Rightarrow> Inl (''TimeoutNow RPC failed: '' @ e)
           | RpcTimeout \<Rightarrow> Inl (''TimeoutNow RPC to node '' @ show_nat target @ '' timed out''))"

text \<open>The end of a transfer, on the state of that moment: step down in the term of the start.\<close>

definition finish_transfer :: "'db kv \<Rightarrow> serde \<Rightarrow> node_id \<Rightarrow> u64 \<Rightarrow> string + unit \<Rightarrow> 'db raft_node
    \<Rightarrow> ('db raft_node \<times> (string + node_id)) option" where
  "finish_transfer K C target trm sent n =
     (case sent of
        Inl e \<Rightarrow> Some (n, Inl e)
      | Inr _ \<Rightarrow> map_option (\<lambda>n. (n, Inr target)) (step_down K C trm n))"

text \<open>\<open>handle_timeout_now\<close>, with the election run to its end.\<close>

definition handle_timeout_now ::
  "'db kv \<Rightarrow> serde \<Rightarrow> (node_id \<Rightarrow> vote_request \<Rightarrow> vote_response option) \<Rightarrow> instant \<Rightarrow> timeout_now_request
    \<Rightarrow> 'db raft_node \<Rightarrow> ('db raft_node \<times> timeout_now_response) option" where
  "handle_timeout_now K C ask now req n =
     (if tn_term req < current_term (rn_state n)
      then Some (n, \<lparr>tnr_term = current_term (rn_state n), tnr_success = False\<rparr>)
      else map_option (\<lambda>n. (n, \<lparr>tnr_term = current_term (rn_state n), tnr_success = True\<rparr>))
             (start_election K C ask now n))"

end
