(* ===== verification/Raft_Persist.thy ===== *)
theory Raft_Persist
  imports Raft_Node
begin

text \<open>
  Durability of the Raft node: whatever a node has in its durable fields when an operation returns,
  a restart from its database brings back. \<open>recoverable\<close> is the invariant, one lemma per operation
  that writes.
\<close>

section \<open>The invariant\<close>

definition durable :: "raft_state \<Rightarrow> persisted_state" where
  "durable s = \<lparr>ps_current_term = current_term s, ps_voted_for = voted_for s, ps_log_offset = log_offset s,
     ps_snapshot = snapshot s, ps_log = rlog s\<rparr>"

text \<open>The database has the log of the node, or the node has no database.\<close>

fun log_stored :: "'db kv \<Rightarrow> serde \<Rightarrow> 'db option \<Rightarrow> raft_state \<Rightarrow> bool" where
  "log_stored K C None s = True"
| "log_stored K C (Some db) s = stored_log K C db (log_offset s) (snapshot s) (rlog s)"

text \<open>A database that was never written to belongs to a node that never left its initial state.\<close>

definition recoverable :: "'db kv \<Rightarrow> serde \<Rightarrow> 'db raft_node \<Rightarrow> bool" where
  "recoverable K C n \<longleftrightarrow>
     (case rn_storage n of
        None \<Rightarrow> True
      | Some db \<Rightarrow> stored K C db (durable (rn_state n)) \<or>
          ((\<forall>k. contents K db k = None) \<and> durable (rn_state n) = durable raft_new \<and> role (rn_state n) \<noteq> Leader))"

lemma recoverable_cong:
  assumes "rn_storage n' = rn_storage n" and "durable (rn_state n') = durable (rn_state n)"
    and "role (rn_state n') = Leader \<Longrightarrow> role (rn_state n) = Leader"
  shows "recoverable K C n \<Longrightarrow> recoverable K C n'"
  using assms by (auto simp: recoverable_def split: option.splits)

lemma recoverable_log: "recoverable K C n \<Longrightarrow> log_stored K C (rn_storage n) (rn_state n)"
  by (cases "rn_storage n")
     (auto simp: recoverable_def stored_def durable_def raft_new_def stored_log_fresh)

lemma recoverable_leader:
  "recoverable K C n \<Longrightarrow> role (rn_state n) = Leader \<Longrightarrow> rn_storage n = Some db \<Longrightarrow> stored K C db (durable (rn_state n))"
  by (simp add: recoverable_def)

lemma log_stored_cong:
  "rlog s' = rlog s \<Longrightarrow> log_offset s' = log_offset s \<Longrightarrow> snapshot s' = snapshot s \<Longrightarrow>
   log_stored K C st s' = log_stored K C st s"
  by (cases st) simp_all

lemma log_stored_same [simp]:
  "log_stored K C st (become_follower t s) = log_stored K C st s"
  "log_stored K C st (become_candidate me s) = log_stored K C st s"
  "log_stored K C st (fst (handle_request_vote req s)) = log_stored K C st s"
  by (cases st; simp)+

section \<open>Writing\<close>

lemma with_storage_sel:
  assumes "with_storage f n = Some n'"
  shows "rn_state n' = rn_state n" "rn_config n' = rn_config n" "peers n' = peers n"
    "heartbeat_peers n' = heartbeat_peers n" "last_heartbeat n' = last_heartbeat n"
    "commit_notify n' = commit_notify n" "peer_last_seen n' = peer_last_seen n"
    "pending_snapshot n' = pending_snapshot n"
    "rn_storage n' = None \<longleftrightarrow> rn_storage n = None"
    "rn_storage n = Some db \<Longrightarrow> \<exists>db'. rn_storage n' = Some db' \<and> f db = Some db'"
  using assms by (auto simp: with_storage_def split: option.splits)

lemma persist_hard_state_sel:
  assumes "persist_hard_state K C n = Some n'"
  shows "rn_state n' = rn_state n" "rn_config n' = rn_config n" "peers n' = peers n"
    "heartbeat_peers n' = heartbeat_peers n" "last_heartbeat n' = last_heartbeat n"
    "commit_notify n' = commit_notify n" "peer_last_seen n' = peer_last_seen n"
    "pending_snapshot n' = pending_snapshot n"
  using with_storage_sel [of _ n n'] assms by (auto simp: persist_hard_state_def)

lemma persist_hard_state_recoverable:
  assumes "kv_laws K" and "serde_laws C" and "persist_hard_state K C n = Some n'"
    and "log_stored K C (rn_storage n) (rn_state n)" and "current_term (rn_state n) \<le> u64_max"
  shows "recoverable K C n'"
proof (cases "rn_storage n")
  case None
  with assms(3) show ?thesis
    using with_storage_sel(9) [of _ n n'] by (simp add: persist_hard_state_def recoverable_def)
next
  case (Some db)
  with assms(3) obtain db' where db': "rn_storage n' = Some db'"
    "save_hard_state K C (current_term (rn_state n)) (voted_for (rn_state n)) (log_offset (rn_state n)) db = Some db'"
    using with_storage_sel(10) [of _ n n' db] by (auto simp: persist_hard_state_def)
  from assms(4) Some have "stored_log K C db (log_offset (rn_state n)) (snapshot (rn_state n)) (rlog (rn_state n))"
    by simp
  from save_hard_state_stored [OF assms(1,2) db'(2) this assms(5)] db'(1) show ?thesis
    by (simp add: recoverable_def stored_def durable_def persist_hard_state_sel(1) [OF assms(3)])
qed

lemma step_down_recoverable:
  assumes "kv_laws K" and "serde_laws C" and "step_down K C t n = Some n'" and "recoverable K C n" and "t \<le> u64_max"
  shows "recoverable K C n'"
  by (rule persist_hard_state_recoverable [OF assms(1,2) assms(3) [unfolded step_down_def]])
     (use recoverable_log [OF assms(4)] assms(5) in simp_all)

lemma append_entries_to_storage_stored:
  assumes "kv_laws K" and "serde_laws C"
  shows "append_entries_to_storage K C es db = Some db' \<Longrightarrow> stored_log K C db offset sn es0 \<Longrightarrow>
    indexed_from (Suc (offset + length es0)) es \<Longrightarrow> offset + length es0 + length es \<le> u64_max \<Longrightarrow>
    stored_log K C db' offset sn (es0 @ es) \<and>
    (stored_hard K C db t v o1 \<longrightarrow> stored_hard K C db' t v o1)"
proof (induction es arbitrary: db es0)
  case (Cons e es)
  from Cons.prems(1) obtain db1 where d: "storage_append_entry K C e db = Some db1"
    "append_entries_to_storage K C es db1 = Some db'" by (auto simp: bind_eq_Some_conv)
  from Cons.prems(3) have ix: "le_index e = Suc (offset + length es0)" "indexed_from (Suc (Suc (offset + length es0))) es"
    using indexed_from_append [of "Suc (offset + length es0)" "[e]" es] by (simp_all add: indexed_from_def)
  note a = storage_append_entry_stored [OF assms d(1) Cons.prems(2) ix(1)]
  show ?case using Cons.IH [OF d(2) a(1)] a(2) Cons.prems(4) ix by auto
qed simp

section \<open>One lemma per operation\<close>

lemma begin_election_recoverable:
  assumes "kv_laws K" and "serde_laws C" and "recoverable K C n" and "begin_election K C n = Some (n', req)"
  shows "recoverable K C n'"
proof -
  let ?n = "n\<lparr>rn_state := become_candidate (nc_node_id (rn_config n)) (rn_state n)\<rparr>"
  from assms(4) have "persist_hard_state K C ?n = Some n'"
    by (auto simp: begin_election_def Let_def bind_eq_Some_conv)
  then show ?thesis
    by (rule persist_hard_state_recoverable [OF assms(1,2)])
       (use recoverable_log [OF assms(3)] u64_inc_bound in simp_all)
qed

lemma handle_vote_request_recoverable:
  assumes "kv_laws K" and "serde_laws C" and "recoverable K C n"
    and "handle_vote_request K C now req n = Some (n', r)"
    and "current_term (rn_state n) \<le> u64_max" and "vr_term req \<le> u64_max"
  shows "recoverable K C n'"
proof -
  let ?n = "n\<lparr>rn_state := fst (handle_request_vote req (rn_state n))\<rparr>"
  from assms(4) obtain n1 where p: "persist_hard_state K C ?n = Some n1"
    and n': "n' = (if vote_granted r then n1\<lparr>last_heartbeat := now\<rparr> else n1)"
    by (auto simp: handle_vote_request_def bind_eq_Some_conv split: prod.splits)
  have "recoverable K C n1"
    by (rule persist_hard_state_recoverable [OF assms(1,2) p])
       (use recoverable_log [OF assms(3)] assms(5,6) in \<open>simp_all add: rv_term\<close>)
  then show ?thesis by (rule recoverable_cong [rotated 3]) (simp_all add: n' split: if_splits)
qed

lemma append_command_recoverable:
  assumes "kv_laws K" and "serde_laws C" and rec: "recoverable K C n" and wf: "log_wf (rn_state n)"
    and room: "last_log_index (rn_state n) < u64_max"
    and op: "handle_append_command K C c n = Some (n', r)"
  shows "recoverable K C n'"
proof (cases "role (rn_state n) = Leader")
  case False
  with op rec show ?thesis by (auto simp: handle_append_command_def append_command_def Let_def)
next
  case True
  let ?s = "fst (append_entry c (rn_state n))" and ?e = "snd (append_entry c (rn_state n))"
  from op True have p: "persist_entry K C ?e (n\<lparr>rn_state := ?s\<rparr>) = Some n'"
    by (auto simp: handle_append_command_def append_command_def Let_def split: prod.splits)
  have st: "rn_state n' = ?s" using p with_storage_sel(1) [of _ _ n'] by (force simp: persist_entry_def)
  have ix: "le_index ?e = Suc (log_offset (rn_state n) + length (rlog (rn_state n)))" "le_index ?e \<le> u64_max"
    using append_entry_log(4) [OF room] room by (simp_all add: log_wf_last_index [OF wf])
  show ?thesis
  proof (cases "rn_storage n")
    case None
    with p show ?thesis by (auto simp: persist_entry_def with_storage_def recoverable_def)
  next
    case (Some db)
    with p obtain db' where db': "rn_storage n' = Some db'" "storage_append_entry K C ?e db = Some db'"
      by (auto simp: persist_entry_def with_storage_def)
    have "stored K C db (durable (rn_state n))" by (rule recoverable_leader [OF rec True Some])
    then have sl: "stored_log K C db (log_offset (rn_state n)) (snapshot (rn_state n)) (rlog (rn_state n))"
      and sh: "stored_hard K C db (current_term (rn_state n)) (voted_for (rn_state n)) (log_offset (rn_state n))"
      by (auto simp: stored_def durable_def)
    from storage_append_entry_stored [OF assms(1,2) db'(2) sl ix] sh show ?thesis
      by (simp add: recoverable_def db' stored_def durable_def st append_entry_log(1)) (simp add: append_entry_def Let_def)
  qed
qed

lemma sync_log_success:
  assumes "kv_laws K" and "serde_laws C" and wf: "log_wf s" and ok: "request_wf X req s"
    and succ: "aer_success (snd (handle_append_entries X req s))" and ne: "ae_entries req \<noteq> []"
    and op: "sync_log K C req (snd (handle_append_entries X req s)) old (fst (handle_append_entries X req s)) db = Some db'"
    and st: "stored_log K C db (log_offset s) (snapshot s) (rlog s)"
  shows "stored_log K C db' (log_offset s) (snapshot s) (rlog (fst (handle_append_entries X req s))) \<and>
    (stored_hard K C db t v o1 \<longrightarrow> stored_hard K C db' t v o1)"
proof -
  let ?s = "fst (handle_append_entries X req s)" and ?prev = "ae_prev_log_index req"
  let ?old = "take (?prev - log_offset s) (rlog s)" and ?new = "new_entries X req"
  have r: "log_offset s \<le> ?prev" "?prev < u64_max" "indexed_from (Suc ?prev) ?new" "?prev + length ?new \<le> u64_max"
    using ok ne by (auto simp: request_wf_def)
  have log: "rlog ?s = ?old @ ?new" by (rule hae_log [OF wf ok succ ne])
  have len: "log_offset s + length ?old = ?prev"
    using r(1) hae_prev_bound [OF wf ok succ ne] by (simp add: log_wf_last_index [OF wf])
  have off: "log_offset s < u64_max" using r by simp
  have "get_entries_from ?s (Suc ?prev) = drop (?prev - log_offset s) (rlog ?s)"
    using get_entries_from_drop [OF hae_wf [OF wf ok], of "Suc ?prev"] r off by (simp add: hae_offset)
  also have "\<dots> = ?new" using len r(1) by (simp add: log)
  finally have new: "get_entries_from ?s (Suc ?prev) = ?new" .
  from op succ ne obtain db1 where t: "truncate_from K (Suc ?prev) db = Some db1"
    and a: "append_entries_to_storage K C ?new db1 = Some db'"
    using r(2) new by (auto simp: sync_log_def Let_def u64_inc_small bind_eq_Some_conv)
  have lo: "log_offset s < Suc ?prev" "Suc ?prev \<le> u64_max" using r by auto
  note tr = truncate_from_stored [OF assms(1) t st lo]
  have "stored_log K C db1 (log_offset s) (snapshot s) ?old" using tr(1) by simp
  from append_entries_to_storage_stored [OF assms(1,2) a this, of t v o1] tr(2) [of t v o1] r len show ?thesis
    by (simp add: log)
qed

lemma sync_log_failure:
  assumes "kv_laws K" and wf: "log_wf s" and fail: "\<not> aer_success (snd (handle_append_entries X req s))"
    and op: "sync_log K C req (snd (handle_append_entries X req s)) (last_log_index s)
      (fst (handle_append_entries X req s)) db = Some db'"
    and st: "stored_log K C db (log_offset s) (snapshot s) (rlog s)"
  shows "stored_log K C db' (log_offset s) (snapshot s) (rlog (fst (handle_append_entries X req s))) \<and>
    (stored_hard K C db t v o1 \<longrightarrow> stored_hard K C db' t v o1)"
proof -
  let ?s = "fst (handle_append_entries X req s)"
  obtain k where k: "rlog ?s = take k (rlog s)" using hae_failure(1) [OF fail] by blast
  have wf': "log_wf ?s" by (rule take_log_wf [OF wf k hae_offset])
  have li: "last_log_index ?s = log_offset s + length (rlog ?s)" "last_log_index s = log_offset s + length (rlog s)"
    using log_wf_last_index [OF wf'] log_wf_last_index [OF wf] by (simp_all add: hae_offset)
  show ?thesis
  proof (cases "last_log_index ?s < last_log_index s")
    case True
    have bd: "last_log_index s \<le> u64_max" by (rule log_wf_last_bound [OF wf])
    with True fail op have t: "truncate_from K (Suc (last_log_index ?s)) db = Some db'"
      by (simp add: sync_log_def u64_inc_small)
    have "take (length (rlog ?s)) (rlog s) = rlog ?s" using k by (simp add: min_def)
    with truncate_from_stored [OF assms(1) t st] True bd li show ?thesis by auto
  next
    case False
    then have "rlog ?s = rlog s" using k li by simp
    with False fail op st show ?thesis by (simp add: sync_log_def)
  qed
qed

lemma sync_log_stored:
  assumes "kv_laws K" and "serde_laws C" and "log_wf s" and "request_wf X req s"
    and op: "sync_log K C req (snd (handle_append_entries X req s)) (last_log_index s)
      (fst (handle_append_entries X req s)) db = Some db'"
    and st: "stored_log K C db (log_offset s) (snapshot s) (rlog s)"
  shows "stored_log K C db' (log_offset s) (snapshot s) (rlog (fst (handle_append_entries X req s))) \<and>
    (stored_hard K C db t v o1 \<longrightarrow> stored_hard K C db' t v o1)"
proof (cases "aer_success (snd (handle_append_entries X req s))")
  case True
  show ?thesis
  proof (cases "ae_entries req = []")
    case heartbeat: True
    then have "rlog (fst (handle_append_entries X req s)) = rlog s"
      using accept_entries_heartbeat(1) [OF heartbeat, of X "adopted req s"] by (simp add: hae_success(3) [OF True])
    with heartbeat True op st show ?thesis by (simp add: sync_log_def)
  qed (rule sync_log_success [OF assms(1-4) True _ op st])
qed (rule sync_log_failure [OF assms(1,3) _ op st])

lemma handle_append_entries_recoverable:
  assumes "kv_laws K" and "serde_laws C" and rec: "recoverable K C n" and wf: "log_wf (rn_state n)"
    and ok: "request_wf X req (rn_state n)" and op: "handle_append_entries_node K C X now req n = Some (n', r)"
    and bd: "current_term (rn_state n) \<le> u64_max" "ae_term req \<le> u64_max"
  shows "recoverable K C n'"
proof -
  let ?s = "fst (handle_append_entries X req (rn_state n))" and ?r = "snd (handle_append_entries X req (rn_state n))"
  from op obtain n1 n2 where p: "persist_hard_state K C (n\<lparr>rn_state := ?s\<rparr>) = Some n1"
    and w: "with_storage (sync_log K C req ?r (last_log_index (rn_state n)) ?s) n1 = Some n2"
    and n': "rn_storage n' = rn_storage n2" "rn_state n' = rn_state n2"
    by (auto simp: handle_append_entries_node_def bind_eq_Some_conv Let_def split: prod.splits if_splits)
  have st: "rn_state n' = ?s"
    using n'(2) persist_hard_state_sel(1) [OF p] with_storage_sel(1) [OF w] by simp
  show ?thesis
  proof (cases "rn_storage n")
    case None
    with p w n'(1) show ?thesis
      by (auto simp: recoverable_def persist_hard_state_def with_storage_def)
  next
    case (Some db)
    obtain db1 where db1: "rn_storage n1 = Some db1"
      "save_hard_state K C (current_term ?s) (voted_for ?s) (log_offset ?s) db = Some db1"
      using p Some by (auto simp: persist_hard_state_def with_storage_def)
    obtain db2 where db2: "rn_storage n2 = Some db2"
      "sync_log K C req ?r (last_log_index (rn_state n)) ?s db1 = Some db2"
      using w db1 by (auto simp: with_storage_def)
    have "stored_log K C db (log_offset (rn_state n)) (snapshot (rn_state n)) (rlog (rn_state n))"
      using recoverable_log [OF rec] Some by simp
    from save_hard_state_stored [OF assms(1,2) db1(2) this] bd
    have h: "stored_log K C db1 (log_offset (rn_state n)) (snapshot (rn_state n)) (rlog (rn_state n))"
      "stored_hard K C db1 (current_term ?s) (voted_for ?s) (log_offset ?s)" by (simp_all add: hae_term)
    from sync_log_stored [OF assms(1,2) wf ok db2(2) h(1)] h(2) show ?thesis
      by (simp add: recoverable_def n'(1) db2(1) st stored_def durable_def hae_offset)
  qed
qed

lemma his_log:
  assumes "log_wf s" and "is_last_included_index req < u64_max"
  shows "log_offset s \<le> log_offset (fst (handle_install_snapshot X req s))"
    and "rlog (fst (handle_install_snapshot X req s)) =
      drop (log_offset (fst (handle_install_snapshot X req s)) - log_offset s) (rlog s)"
    and "log_offset (fst (handle_install_snapshot X req s)) = log_offset s \<Longrightarrow>
      snapshot (fst (handle_install_snapshot X req s)) = snapshot s"
    and "log_offset (fst (handle_install_snapshot X req s)) \<noteq> log_offset s \<Longrightarrow>
      log_offset (fst (handle_install_snapshot X req s)) = is_last_included_index req \<and>
      snapshot (fst (handle_install_snapshot X req s)) \<noteq> None"
proof -
  let ?s = "(if current_term s < is_term req then become_follower (is_term req) s else s)
      \<lparr>leader_id := Some (is_leader_id req)\<rparr>"
  let ?s' = "fst (handle_install_snapshot X req s)" and ?sn = "request_snapshot X req"
  have eq: "?s' = s \<or> ?s' = fst (install_snapshot ?sn ?s)"
    by (cases "is_term req < current_term s") (auto simp: his_cases)
  have wf: "log_wf ?s" using assms(1) by (simp add: log_wf_def)
  have [simp]: "last_included_index ?sn = is_last_included_index req" by (simp add: request_snapshot_def)
  have [simp]: "rlog ?s = rlog s" "log_offset ?s = log_offset s" "snapshot ?s = snapshot s" by simp_all
  have lo: "rlog (fst (install_snapshot ?sn ?s)) = drop (is_last_included_index req - log_offset s) (rlog s)"
    using install_snapshot_log [OF wf, of ?sn] install_snapshot_fields(3) [of ?sn ?s] assms(2)
    by (cases "is_last_included_index req \<le> log_offset s") auto
  show "log_offset s \<le> log_offset ?s'"
    and "rlog ?s' = drop (log_offset ?s' - log_offset s) (rlog s)"
    and "log_offset ?s' = log_offset s \<Longrightarrow> snapshot ?s' = snapshot s"
    and "log_offset ?s' \<noteq> log_offset s \<Longrightarrow> log_offset ?s' = is_last_included_index req \<and> snapshot ?s' \<noteq> None"
    using eq lo by (auto simp: install_snapshot_fields max_def split: if_splits)
qed

lemma offer_snapshot_cases:
  assumes "offer_snapshot K C req n = Some n'"
  obtains (saved) sn n2 where "snapshot (rn_state n) = Some sn"
      and "is_last_included_index req \<le> log_offset (rn_state n)"
      and "with_storage (save_snapshot K C sn (log_offset (rn_state n))) n = Some n2"
      and "rn_storage n' = rn_storage n2" and "rn_state n' = rn_state n2"
  | (skipped) "snapshot (rn_state n) = None \<or> log_offset (rn_state n) < is_last_included_index req" and "n' = n"
  using assms by (auto simp: offer_snapshot_def bind_eq_Some_conv split: option.splits if_splits)

lemma handle_install_snapshot_recoverable:
  assumes "kv_laws K" and "serde_laws C" and rec: "recoverable K C n" and wf: "log_wf (rn_state n)"
    and op: "handle_install_snapshot_node K C X now req n = Some (n', r)"
    and bd: "current_term (rn_state n) \<le> u64_max" "is_term req \<le> u64_max" "is_last_included_index req < u64_max"
  shows "recoverable K C n'"
proof -
  let ?s = "fst (handle_install_snapshot X req (rn_state n))"
  obtain n1 n2 where p: "persist_hard_state K C (n\<lparr>rn_state := ?s\<rparr>) = Some n1"
    and q: "offer_snapshot K C req n1 = Some n2"
    and n': "rn_storage n' = rn_storage n2" "rn_state n' = rn_state n2"
    using op by (auto simp: handle_install_snapshot_node_def bind_eq_Some_conv split: prod.splits)
  have s1: "rn_state n1 = ?s" using persist_hard_state_sel(1) [OF p] by simp
  have st: "rn_state n' = ?s"
    using q by (cases rule: offer_snapshot_cases) (use n' s1 in \<open>auto dest: with_storage_sel(1)\<close>)
  note l = his_log [OF wf bd(3), of X]
  show ?thesis
  proof (cases "rn_storage n")
    case None
    then have "rn_storage n1 = None" using p by (auto simp: persist_hard_state_def with_storage_def)
    with q have "rn_storage n2 = None"
      by (cases rule: offer_snapshot_cases) (auto simp: with_storage_def)
    then show ?thesis by (simp add: recoverable_def n')
  next
    case (Some db)
    obtain db1 where db1: "rn_storage n1 = Some db1"
      "save_hard_state K C (current_term ?s) (voted_for ?s) (log_offset ?s) db = Some db1"
      using p Some by (auto simp: persist_hard_state_def with_storage_def)
    have "stored_log K C db (log_offset (rn_state n)) (snapshot (rn_state n)) (rlog (rn_state n))"
      using recoverable_log [OF rec] Some by simp
    from save_hard_state_stored [OF assms(1,2) db1(2) this] bd
    have h: "stored_log K C db1 (log_offset (rn_state n)) (snapshot (rn_state n)) (rlog (rn_state n))"
      "stored_hard K C db1 (current_term ?s) (voted_for ?s) (log_offset ?s)" by (simp_all add: his_term)
    have off: "log_offset (rn_state n) < u64_max" using h(1) by (simp add: stored_log_def)
    from q show ?thesis
    proof (cases rule: offer_snapshot_cases)
      case (saved sn n3)
      then obtain db2 where db2: "rn_storage n' = Some db2" "save_snapshot K C sn (log_offset ?s) db1 = Some db2"
        using db1(1) n'(1) s1 by (auto simp: with_storage_def)
      have "log_offset ?s < u64_max" using l(4) bd(3) off by (cases "log_offset ?s = log_offset (rn_state n)") auto
      from save_snapshot_stored [OF assms(1,2) db2(2) h(1) l(1) this] h(2) saved(1) l(2) s1 show ?thesis
        by (simp add: recoverable_def db2(1) st stored_def durable_def)
    next
      case skipped
      then have same: "log_offset ?s = log_offset (rn_state n)" using l(4) s1 by (metis less_irrefl)
      with h skipped(2) db1(1) l(2) l(3) [OF same] n'(1) show ?thesis
        by (simp add: recoverable_def st stored_def durable_def)
    qed
  qed
qed

lemma snapshot_answer_recoverable:
  assumes "kv_laws K" and "serde_laws C" and "recoverable K C n" and "isr_term r \<le> u64_max"
    and op: "snapshot_answer K C now p i r n = Some n'"
  shows "recoverable K C n'"
proof -
  have r1: "recoverable K C (saw_peer now p n)"
    using assms(3) by (rule recoverable_cong [rotated 3]) (simp_all add: saw_peer_def)
  show ?thesis
  proof (cases "current_term (rn_state n) < isr_term r")
    case True
    with op have "step_down K C (isr_term r) (saw_peer now p n) = Some n'"
      by (simp add: snapshot_answer_def Let_def saw_peer_def)
    from step_down_recoverable [OF assms(1,2) this r1 assms(4)] show ?thesis .
  next
    case False
    with op show ?thesis
      by (intro recoverable_cong [OF _ _ _ r1]) (auto simp: snapshot_answer_def Let_def saw_peer_def durable_def)
  qed
qed

lemma advance_commit_frame [simp]:
  "current_term (advance_commit s) = current_term s" "voted_for (advance_commit s) = voted_for s"
  "rlog (advance_commit s) = rlog s" "log_offset (advance_commit s) = log_offset s"
  "snapshot (advance_commit s) = snapshot s" "role (advance_commit s) = role s"
  "next_index (advance_commit s) = next_index s" "match_index (advance_commit s) = match_index s"
  "last_applied (advance_commit s) = last_applied s" "leader_id (advance_commit s) = leader_id s"
  by (simp_all add: advance_commit_def Let_def split: option.split)

lemma append_answer_recoverable:
  assumes "kv_laws K" and "serde_laws C" and "recoverable K C n" and "aer_term r \<le> u64_max"
    and op: "append_answer K C now p r n = Some n'"
  shows "recoverable K C n'"
proof -
  have r1: "recoverable K C (saw_peer now p n)"
    using assms(3) by (rule recoverable_cong [rotated 3]) (simp_all add: saw_peer_def)
  show ?thesis
  proof (cases "current_term (rn_state n) < aer_term r")
    case True
    with op have "step_down K C (aer_term r) (saw_peer now p n) = Some n'"
      by (simp add: append_answer_def Let_def saw_peer_def)
    from step_down_recoverable [OF assms(1,2) this r1 assms(4)] show ?thesis .
  next
    case False
    with op show ?thesis
      by (intro recoverable_cong [OF _ _ _ r1])
         (auto simp: append_answer_def Let_def saw_peer_def durable_def split: if_splits)
  qed
qed

section \<open>Restart\<close>

text \<open>A node that comes up again from a database: \<open>Node::new\<close> loads it and builds the Raft node.\<close>

definition restart :: "'db kv \<Rightarrow> serde \<Rightarrow> node_config \<Rightarrow> instant \<Rightarrow> 'db \<Rightarrow> 'db raft_node option" where
  "restart K C config now db =
     map_option (\<lambda>p. new_with_storage config (Some db) p now) (load_state K C db)"

lemma restored_durable: "durable (restored_state (Some p)) = p"
  by (cases p) (simp add: restored_state_def durable_def Let_def split: option.split)

lemma restart_recovers:
  assumes K: "kv_laws K" and A: "kv_available K C" and rec: "recoverable K C n" and db: "rn_storage n = Some db"
  shows "\<exists>n'. restart K C config now db = Some n' \<and> durable (rn_state n') = durable (rn_state n)"
proof (cases "stored K C db (durable (rn_state n))")
  case True
  from load_stored [OF K A this] show ?thesis
    by (simp add: restart_def new_with_storage_def restored_durable)
next
  case False
  with rec db have "\<forall>k. contents K db k = None" "durable (rn_state n) = durable raft_new"
    by (auto simp: recoverable_def)
  with load_state_fresh [OF K A, of db] show ?thesis
    by (simp add: restart_def new_with_storage_def restored_state_def)
qed

text \<open>
  The restarted node continues where the snapshot ends: it has applied exactly what the snapshot
  covers, which is what its log starts after.
\<close>

lemma restored_applied:
  assumes "log_wf s" and "snapshot s = Some sn"
  shows "applied_wf (restored_state (Some (durable s)))"
    and "log_wf (restored_state (Some (durable s)))"
  using assms by (simp_all add: restored_state_def durable_def Let_def applied_wf_def log_wf_def)

text \<open>
  The hard state with the new offset is written before the snapshot it belongs to. A crash between
  the two leaves a database from which the node restarts behind its own offset, without the snapshot:
  what lies between is gone.
\<close>

lemma crash_before_snapshot_save:
  assumes K: "kv_laws K" and C: "serde_laws C" and A: "kv_available K C"
    and st: "stored K C db (durable s)" and t: "t \<le> u64_max"
    and idx: "log_offset s + length (rlog s) < i" "i < u64_max"
    and wr: "save_hard_state K C t v i db = Some db1"
  shows "\<exists>n. restart K C config now db1 = Some n \<and> log_offset (rn_state n) = i \<and>
    snapshot (rn_state n) = snapshot s \<and> rlog (rn_state n) = []"
proof -
  have "stored_log K C db (log_offset s) (snapshot s) (rlog s)"
    using st by (simp add: stored_def durable_def)
  from save_hard_state_stored [OF K C wr this t]
  have l: "stored_log K C db1 (log_offset s) (snapshot s) (rlog s)" and h: "stored_hard K C db1 t v i" by auto
  have "stored_log K C db1 i (snapshot s) []"
    using l idx by (auto simp: stored_log_def)
  from load_state_stored [OF K A this h] show ?thesis
    by (auto simp: restart_def new_with_storage_def restored_state_def Let_def split: option.split)
qed

end
