(* ===== verification/Raft_Replication.thy ===== *)
theory Raft_Replication
  imports Raft_Node
begin

text \<open>
  What elections and replication of the Raft node (\<open>src/raft/node.rs\<close>) achieve: who made a leader a
  leader, how many nodes hold an entry when the commit index passes it, what a replication request
  contains, and which entries the scheduler is handed.
\<close>

section \<open>Vote counting\<close>

definition granted :: "node_id \<times> vote_response option \<Rightarrow> bool" where
  "granted a \<longleftrightarrow> (case snd a of Some r \<Rightarrow> vote_granted r | None \<Rightarrow> False)"

lemma collect_votes_counted:
  assumes "collect_votes K C trm now as v n = Some (n', Counted votes)"
  shows "votes = v + length (filter granted as)"
    and "rn_state n' = rn_state n" and "rn_config n' = rn_config n" and "peers n' = peers n"
    and "rn_storage n' = rn_storage n"
    and "\<forall>(p, r)\<in>set as. \<forall>x. r = Some x \<longrightarrow> vres_term x \<le> trm"
proof -
  have "votes = v + length (filter granted as) \<and> rn_state n' = rn_state n \<and> rn_config n' = rn_config n \<and>
      peers n' = peers n \<and> rn_storage n' = rn_storage n \<and>
      (\<forall>(p, r)\<in>set as. \<forall>x. r = Some x \<longrightarrow> vres_term x \<le> trm)"
    using assms
  proof (induction as arbitrary: v n)
    case (Cons a as)
    obtain p r where a: "a = (p, r)" by (cases a)
    show ?case
    proof (cases r)
      case None
      with Cons.prems a have "collect_votes K C trm now as v n = Some (n', Counted votes)"
        by (simp add: count_answer_def)
      from Cons.IH [OF this] a None show ?thesis by (simp add: granted_def)
    next
      case (Some x)
      show ?thesis
      proof (cases "trm < vres_term x")
        case True
        with Cons.prems a Some show ?thesis
          by (auto simp: count_answer_def Let_def bind_eq_Some_conv)
      next
        case False
        with Cons.prems a Some
        have "collect_votes K C trm now as (if vote_granted x then v + 1 else v) (saw_peer now p n) = Some (n', Counted votes)"
          by (simp add: count_answer_def Let_def)
        from Cons.IH [OF this] a Some False show ?thesis by (auto simp: granted_def saw_peer_def)
      qed
    qed
  qed simp
  then show "votes = v + length (filter granted as)"
    and "rn_state n' = rn_state n" and "rn_config n' = rn_config n" and "peers n' = peers n"
    and "rn_storage n' = rn_storage n"
    and "\<forall>(p, r)\<in>set as. \<forall>x. r = Some x \<longrightarrow> vres_term x \<le> trm" by blast+
qed

lemma collect_votes_outvoted:
  "collect_votes K C trm now as v n = Some (n', Outvoted) \<Longrightarrow>
   role (rn_state n') = Follower \<and> trm < current_term (rn_state n')"
proof (induction as arbitrary: v n)
  case (Cons a as)
  obtain p r where a: "a = (p, r)" by (cases a)
  show ?case
  proof (cases "\<exists>x. r = Some x \<and> trm < vres_term x")
    case True
    with Cons.prems a obtain x m where "r = Some x" "trm < vres_term x" "step_down K C (vres_term x) m = Some n'"
      by (auto simp: count_answer_def Let_def bind_eq_Some_conv)
    then show ?thesis
      by (auto simp: step_down_def persist_hard_state_def with_storage_def split: option.splits)
  next
    case False
    with Cons.prems a Cons.IH show ?thesis
      by (cases r) (auto simp: count_answer_def Let_def bind_eq_Some_conv)
  qed
qed simp

text \<open>A node leaves \<open>start_election\<close> as leader only with the votes of a majority, its own included.\<close>

definition voters :: "(node_id \<Rightarrow> vote_request \<Rightarrow> vote_response option) \<Rightarrow> vote_request \<Rightarrow> node_id list \<Rightarrow> node_id set" where
  "voters ask req ps = {p \<in> set ps. \<exists>r. ask p req = Some r \<and> vote_granted r \<and> vres_term r \<le> vr_term req}"

definition own_request :: "'db raft_node \<Rightarrow> vote_request" where
  "own_request n =
     (let s = become_candidate (nc_node_id (rn_config n)) (rn_state n)
      in \<lparr>vr_term = current_term s, vr_candidate_id = nc_node_id (rn_config n),
          vr_last_log_index = last_log_index s, vr_last_log_term = last_log_term s\<rparr>)"

lemma begin_election_result:
  assumes "begin_election K C n = Some (n1, req)"
  shows "req = own_request n" "rn_config n1 = rn_config n" "peers n1 = peers n"
    "rn_state n1 = become_candidate (nc_node_id (rn_config n)) (rn_state n)"
  using assms by (auto simp: begin_election_def own_request_def Let_def bind_eq_Some_conv
      persist_hard_state_def with_storage_def split: option.splits)

lemma start_election_leader:
  assumes op: "start_election K C ask now n = Some n'" and lead: "role (rn_state n') = Leader"
    and d: "distinct (peers n)" and me: "nc_node_id (rn_config n) \<notin> set (peers n)"
  shows "majority_of n \<le> card (insert (nc_node_id (rn_config n)) (voters ask (own_request n) (peers n)))"
    and "current_term (rn_state n') = u64_inc (current_term (rn_state n))"
    and "voted_for (rn_state n') = Some (nc_node_id (rn_config n))"
    and "rlog (rn_state n') = rlog (rn_state n)"
proof -
  let ?me = "nc_node_id (rn_config n)" and ?req = "own_request n"
  let ?as = "map (\<lambda>p. (p, ask p ?req)) (peers n)"
  from op obtain n1 req where b: "begin_election K C n = Some (n1, req)"
    by (auto simp: start_election_def bind_eq_Some_conv)
  note br = begin_election_result [OF b]
  from op obtain n2 t where c: "collect_votes K C (vr_term ?req) now ?as 1 n1 = Some (n2, t)"
    and e: "(case t of Outvoted \<Rightarrow> Some n2 | Counted votes \<Rightarrow> Some (finish_election (vr_term ?req) votes n2)) = Some n'"
    using b br by (auto simp: start_election_def bind_eq_Some_conv)
  obtain votes where t: "t = Counted votes"
    using collect_votes_outvoted [of K C _ now ?as 1 n1 n2] c e lead by (cases t) auto
  note cv = collect_votes_counted [OF c [unfolded t]]
  have s2: "rn_state n2 = become_candidate ?me (rn_state n)" using cv(2) br(4) by simp
  have n': "n' = finish_election (vr_term ?req) votes n2" using e t by simp
  have m2: "majority_of n2 = majority_of n" using cv(3) br(2) by (simp add: majority_of_def)
  have votes: "majority_of n \<le> votes"
    using lead n' s2 m2 by (auto simp: finish_election_def Let_def split: if_splits)
  have "set (filter (\<lambda>p. granted (p, ask p ?req)) (peers n)) \<subseteq> voters ask ?req (peers n)"
    using cv(6) by (auto simp: voters_def granted_def split: option.splits)
  then have "card (set (filter (\<lambda>p. granted (p, ask p ?req)) (peers n))) \<le> card (voters ask ?req (peers n))"
    by (rule card_mono [rotated]) (simp add: voters_def)
  then have "length (filter (\<lambda>p. granted (p, ask p ?req)) (peers n)) \<le> card (voters ask ?req (peers n))"
    using distinct_card [of "filter (\<lambda>p. granted (p, ask p ?req)) (peers n)"] d by simp
  moreover have "votes = 1 + length (filter (\<lambda>p. granted (p, ask p ?req)) (peers n))"
    using cv(1) by (simp add: filter_map comp_def)
  moreover have "?me \<notin> voters ask ?req (peers n)" "finite (voters ask ?req (peers n))"
    using me by (auto simp: voters_def)
  ultimately show "majority_of n \<le> card (insert ?me (voters ask ?req (peers n)))"
    using votes by simp
  show "current_term (rn_state n') = u64_inc (current_term (rn_state n))"
    and "voted_for (rn_state n') = Some ?me" and "rlog (rn_state n') = rlog (rn_state n)"
    using n' s2 by (auto simp: finish_election_def Let_def become_leader_def)
qed

text \<open>Conversely, a candidate that is not outvoted and has a majority becomes leader.\<close>

lemma collect_votes_returns:
  "(\<forall>(p, r)\<in>set as. \<forall>x. r = Some x \<longrightarrow> vres_term x \<le> trm) \<Longrightarrow>
   \<exists>n'. collect_votes K C trm now as v n = Some (n', Counted (v + length (filter granted as)))"
proof (induction as arbitrary: v n)
  case (Cons a as)
  obtain p r where a: "a = (p, r)" by (cases a)
  show ?case
  proof (cases r)
    case None
    with Cons.IH [of v n] Cons.prems a show ?thesis by (simp add: count_answer_def granted_def)
  next
    case (Some x)
    with Cons.IH [of "if vote_granted x then v + 1 else v" "saw_peer now p n"] Cons.prems a show ?thesis
      by (auto simp: count_answer_def granted_def Let_def)
  qed
qed simp

lemma persist_hard_state_returns: "kv_available K C \<Longrightarrow> \<exists>n'. persist_hard_state K C n = Some n'"
  using storage_step_returns [of K C _ "OpHard (current_term (rn_state n)) (voted_for (rn_state n)) (log_offset (rn_state n))"]
  by (auto simp: persist_hard_state_def with_storage_def split: option.split)

lemma start_election_wins:
  assumes A: "kv_available K C" and d: "distinct (peers n)" and bd: "current_term (rn_state n) < u64_max"
    and low: "\<And>p r. p \<in> set (peers n) \<Longrightarrow> ask p (own_request n) = Some r \<Longrightarrow> vres_term r \<le> vr_term (own_request n)"
    and maj: "majority_of n \<le> Suc (card (voters ask (own_request n) (peers n)))"
  shows "\<exists>n'. start_election K C ask now n = Some n' \<and> role (rn_state n') = Leader \<and>
    current_term (rn_state n') = Suc (current_term (rn_state n))"
proof -
  let ?req = "own_request n" and ?me = "nc_node_id (rn_config n)"
  let ?as = "map (\<lambda>p. (p, ask p ?req)) (peers n)"
  obtain n1 where p: "persist_hard_state K C (n\<lparr>rn_state := become_candidate ?me (rn_state n)\<rparr>) = Some n1"
    using persist_hard_state_returns [OF A] by blast
  moreover from this have "rn_config n1 = rn_config n"
    by (auto simp: persist_hard_state_def with_storage_def split: option.splits)
  ultimately have b: "begin_election K C n = Some (n1, ?req)" by (simp add: begin_election_def own_request_def Let_def)
  note br = begin_election_result [OF b]
  have "\<forall>(p, r)\<in>set ?as. \<forall>x. r = Some x \<longrightarrow> vres_term x \<le> vr_term ?req" using low by auto
  from collect_votes_returns [OF this] obtain n2 where
    c: "collect_votes K C (vr_term ?req) now ?as 1 n1 = Some (n2, Counted (1 + length (filter granted ?as)))" by blast
  note cv = collect_votes_counted(2,3) [OF c]
  have "voters ask ?req (peers n) \<subseteq> set (filter (\<lambda>p. granted (p, ask p ?req)) (peers n))"
    by (auto simp: voters_def granted_def)
  then have "card (voters ask ?req (peers n)) \<le> card (set (filter (\<lambda>p. granted (p, ask p ?req)) (peers n)))"
    by (rule card_mono [rotated]) simp
  also have "\<dots> \<le> length (filter (\<lambda>p. granted (p, ask p ?req)) (peers n))" by (rule card_length)
  finally have m: "majority_of n2 \<le> 1 + length (filter granted ?as)"
    using maj by (simp add: majority_of_def cv(2) br(2) filter_map comp_def)
  have s: "rn_state n2 = become_candidate ?me (rn_state n)" using cv(1) br(4) by simp
  have t: "vr_term ?req = Suc (current_term (rn_state n))" "current_term (rn_state n2) = Suc (current_term (rn_state n))"
    "role (rn_state n2) = Candidate"
    using bd by (simp_all add: s own_request_def Let_def become_candidate_def u64_inc_small)
  have "start_election K C ask now n = Some (finish_election (vr_term ?req) (1 + length (filter granted ?as)) n2)"
    using b c br(3) by (simp add: start_election_def)
  moreover have "role (rn_state (finish_election (vr_term ?req) (1 + length (filter granted ?as)) n2)) = Leader"
    "current_term (rn_state (finish_election (vr_term ?req) (1 + length (filter granted ?as)) n2)) = Suc (current_term (rn_state n))"
    using m by (simp_all add: finish_election_def t become_leader_def Let_def)
  ultimately show ?thesis by blast
qed

section \<open>The commit rule\<close>

text \<open>The nodes a leader knows to hold its log up to an index, itself included.\<close>

definition holders :: "node_id \<Rightarrow> raft_state \<Rightarrow> u64 \<Rightarrow> node_id set" where
  "holders me s i =
     {p. \<exists>m. hm_get (match_index s) p = Some m \<and> i \<le> m} \<union> (if i \<le> last_log_index s then {me} else {})"

lemma holders_card:
  assumes wf: "hm_wf (match_index s)" and me: "hm_get (match_index s) me = None"
  shows "card (holders me s i) = length (filter (\<lambda>m. i \<le> m) (hm_values (match_index s) @ [last_log_index s]))"
    and "finite (holders me s i)"
proof -
  let ?m = "match_index s"
  have "{p. \<exists>v. hm_get ?m p = Some v \<and> i \<le> v} = fst ` set (filter (\<lambda>x. i \<le> snd x) ?m)"
    using wf by (force simp: hm_get_iff)
  moreover have "distinct (map fst (filter (\<lambda>x. i \<le> snd x) ?m))"
    using wf by (simp add: hm_wf_def distinct_map_filter)
  then have "card (set (map fst (filter (\<lambda>x. i \<le> snd x) ?m))) = length (filter (\<lambda>x. i \<le> snd x) ?m)"
    by (simp only: distinct_card length_map)
  moreover have "length (filter (\<lambda>x. i \<le> snd x) ?m) = length (filter (\<lambda>v. i \<le> v) (hm_values ?m))"
    by (simp add: hm_values_def filter_map comp_def)
  moreover have "me \<notin> {p. \<exists>v. hm_get ?m p = Some v \<and> i \<le> v}" using me by simp
  moreover have "finite {p. \<exists>v. hm_get ?m p = Some v \<and> i \<le> v}" by (simp add: calculation(1))
  ultimately show "card (holders me s i) = length (filter (\<lambda>m. i \<le> m) (hm_values ?m @ [last_log_index s]))"
    and "finite (holders me s i)"
    by (simp_all add: holders_def)
qed

lemma majority_match_count:
  fixes s :: raft_state
  defines "ms \<equiv> hm_values (match_index s) @ [last_log_index s]"
  shows "length ms - length ms div 2 \<le> length (filter (\<lambda>m. majority_match s \<le> m) ms)"
proof -
  have "length (sort ms) div 2 < length (sort ms)" by (simp add: ms_def)
  from sorted_count_ge [OF sorted_sort this] have
    "length ms - length ms div 2 \<le> length (filter (\<lambda>m. majority_match s \<le> m) (sort ms))"
    by (simp add: majority_match_def ms_def Let_def)
  then show ?thesis using length_filter_mset_cong [of "sort ms" ms] by simp
qed

lemma advance_commit_cases:
  obtains (kept) "advance_commit s = s"
  | (moved) e where "commit_index s < majority_match s" "get_entry s (majority_match s) = Some e"
      "le_term e = current_term s" "advance_commit s = s\<lparr>commit_index := majority_match s\<rparr>"
proof (cases "commit_index s < majority_match s")
  case True
  then show ?thesis
  proof (cases "get_entry s (majority_match s)")
    case (Some e)
    with True show ?thesis
      by (cases "le_term e = current_term s") (use that in \<open>simp_all add: advance_commit_def Let_def\<close>)
  qed (use that in \<open>simp add: advance_commit_def Let_def\<close>)
qed (use that in \<open>simp add: advance_commit_def Let_def\<close>)

lemma advance_commit_quorum:
  assumes wf: "hm_wf (match_index s)" and me: "hm_get (match_index s) me = None"
    and moved: "commit_index (advance_commit s) \<noteq> commit_index s"
  shows "commit_index s < commit_index (advance_commit s)"
    and "\<exists>e. get_entry s (commit_index (advance_commit s)) = Some e \<and> le_term e = current_term s"
    and "Suc (length (match_index s)) \<le> 2 * card (holders me s (commit_index (advance_commit s)))"
proof -
  have h: "Suc (length (match_index s)) - Suc (length (match_index s)) div 2 \<le> card (holders me s (majority_match s))"
    using majority_match_count [of s] by (simp add: holders_card(1) [OF wf me] hm_values_def)
  show "commit_index s < commit_index (advance_commit s)"
    and "\<exists>e. get_entry s (commit_index (advance_commit s)) = Some e \<and> le_term e = current_term s"
    and "Suc (length (match_index s)) \<le> 2 * card (holders me s (commit_index (advance_commit s)))"
    using moved h by (cases s rule: advance_commit_cases; force)+
qed

text \<open>
  The number of peers of a leader: \<open>become_leader\<close> gives every configured peer an entry, and an answer
  only changes the entry of a peer.
\<close>

definition peers_tracked :: "'db raft_node \<Rightarrow> bool" where
  "peers_tracked n \<longleftrightarrow> hm_wf (match_index (rn_state n)) \<and>
     (\<forall>p. hm_get (match_index (rn_state n)) p = None \<longleftrightarrow> p \<notin> set (peer_ids (rn_config n)))"

lemma finish_election_tracked:
  assumes "role (rn_state n) = Candidate" and "role (rn_state (finish_election trm votes n)) = Leader"
  shows "peers_tracked (finish_election trm votes n)"
  using assms
  by (auto simp: finish_election_def Let_def peers_tracked_def become_leader_def init_peers_wf init_peers_get
      split: if_splits)

lemma append_answer_match:
  assumes "append_answer K C now p r n = Some n'"
  shows "rn_config n' = rn_config n"
    and "match_index (rn_state n') \<in>
      {match_index (rn_state n), hm_insert p (aer_match_index r) (match_index (rn_state n))}"
proof -
  have a: "match_index (advance_commit s) = match_index s" for s
    by (simp add: advance_commit_def Let_def split: option.split)
  show "rn_config n' = rn_config n"
    and "match_index (rn_state n') \<in>
      {match_index (rn_state n), hm_insert p (aer_match_index r) (match_index (rn_state n))}"
    using assms
    by (auto simp: append_answer_def Let_def a step_down_def persist_hard_state_def with_storage_def
        become_follower_def saw_peer_def split: if_splits option.splits)
qed

lemma append_answer_tracked:
  assumes "append_answer K C now p r n = Some n'" and "peers_tracked n" and "p \<in> set (peer_ids (rn_config n))"
  shows "peers_tracked n'"
proof -
  let ?m = "match_index (rn_state n)"
  have m: "hm_wf ?m" "hm_get ?m q = None \<longleftrightarrow> q \<notin> set (peer_ids (rn_config n))" for q
    using assms(2) by (simp_all add: peers_tracked_def)
  have "hm_get (hm_insert p v ?m) q = None \<longleftrightarrow> q \<notin> set (peer_ids (rn_config n))" for q v
    using assms(3) m(2) [of q] by simp
  with m show ?thesis using append_answer_match [OF assms(1)] hm.wf_insert [OF m(1)]
    by (auto simp only: peers_tracked_def insert_iff empty_iff)
qed

lemma tracked_length:
  assumes "config_wf (rn_config n)" and "peers_tracked n"
  shows "Suc (length (match_index (rn_state n))) = card (cluster_ids (rn_config n))"
    and "hm_get (match_index (rn_state n)) (nc_node_id (rn_config n)) = None"
proof -
  have "length (match_index (rn_state n)) = card (fst ` set (match_index (rn_state n)))"
    using assms(2) distinct_card [of "map fst (match_index (rn_state n))"] by (simp add: peers_tracked_def hm_wf_def)
  also have "fst ` set (match_index (rn_state n)) = set (peer_ids (rn_config n))"
    using assms(2) by (simp add: peers_tracked_def hm_keys_dom dom_def)
  also have "card (set (peer_ids (rn_config n))) = length (nc_peers (rn_config n))"
    using assms(1) distinct_card [of "peer_ids (rn_config n)"] by (simp add: config_wf_def) (simp add: peer_ids_def)
  finally show "Suc (length (match_index (rn_state n))) = card (cluster_ids (rn_config n))"
    by (simp add: cluster_card [OF assms(1)])
  show "hm_get (match_index (rn_state n)) (nc_node_id (rn_config n)) = None"
    using assms by (auto simp: peers_tracked_def config_wf_def)
qed

section \<open>Requests\<close>

lemma foldl_min_le: "foldl min (v :: nat) vs \<le> v \<and> (\<forall>w \<in> set vs. foldl min v vs \<le> w)"
proof (induction vs arbitrary: v)
  case (Cons w ws)
  from Cons.IH [of "min v w"] show ?case by auto
qed simp

lemma entries_start_le:
  assumes "hm_get (next_index s) p = Some next"
  shows "entries_start s \<le> max (next - 1) (u64_inc (log_offset s))"
proof -
  have "next \<in> set (hm_values (next_index s))" by (rule hm_get_values [OF assms])
  then have "(case hm_values (next_index s) of [] \<Rightarrow> 1 | v # vs \<Rightarrow> foldl min v vs) \<le> next"
    using foldl_min_le by (auto split: list.split)
  then show ?thesis by (auto simp: entries_start_def Let_def)
qed

lemma entries_start_ge: "u64_inc (log_offset s) \<le> entries_start s"
  by (simp add: entries_start_def Let_def)

text \<open>
  What a leader sends to a peer whose next index is behind the compacted prefix: all entries from
  that index on, and the term of the entry before it.
\<close>

lemma append_request_entries:
  assumes wf: "log_wf s" and room: "log_offset s < u64_max"
    and nx: "hm_get (next_index s) p = Some next" and lo: "log_offset s < next"
  shows "ae_entries (append_request X me s next) =
    map (log_entry_to_proto X) (drop (next - Suc (log_offset s)) (rlog s))"
proof -
  have inc: "u64_inc (log_offset s) = Suc (log_offset s)" by (rule u64_inc_small [OF room])
  have le: "entries_start s \<le> next" using entries_start_le [OF nx] lo inc by auto
  have "filter (\<lambda>e. next \<le> le_index e) (get_entries_from s (entries_start s)) =
      filter (\<lambda>e. next \<le> le_index e \<and> entries_start s \<le> le_index e) (rlog s)"
    by (simp add: get_entries_from_filter [OF wf room] conj_commute)
  also have "\<dots> = filter (\<lambda>e. next \<le> le_index e) (rlog s)"
    using le by (intro filter_cong) auto
  also have "\<dots> = drop (next - Suc (log_offset s)) (rlog s)"
    using indexed_from_filter [of "Suc (log_offset s)" "rlog s" "next"] wf lo by (simp add: log_wf_def)
  finally show ?thesis by (simp add: append_request_def Let_def)
qed

lemma find_conj: "(\<And>e. e \<in> set es \<Longrightarrow> Q e \<Longrightarrow> P e) \<Longrightarrow> List.find (\<lambda>e. P e \<and> Q e) es = List.find Q es"
  by (induction es) auto

lemma find_filter_index:
  assumes "indexed_from m es" and "P (es ! (k - m))" and "m \<le> k" and "k < m + length es"
  shows "List.find (\<lambda>e. le_index e = k) (filter P es) = Some (es ! (k - m))"
proof -
  have "List.find (\<lambda>e. le_index e = k) (filter P es) = List.find (\<lambda>e. P e \<and> le_index e = k) es"
    by (induction es) auto
  also have "\<dots> = List.find (\<lambda>e. le_index e = k) es"
  proof (rule find_conj)
    fix e
    assume "e \<in> set es" "le_index e = k"
    then obtain i where i: "i < length es" "e = es ! i" by (auto simp: in_set_conv_nth)
    with indexed_from_nth [OF assms(1) i(1)] \<open>le_index e = k\<close> have "k - m = i" by simp
    with i assms(2) show "P e" by simp
  qed
  also have "\<dots> = Some (es ! (k - m))"
    using upt_find_nth [of le_index es m k] assms by (simp add: indexed_from_def)
  finally show ?thesis .
qed

lemma append_request_prev:
  assumes wf: "log_wf s" and room: "log_offset s < u64_max"
    and nx: "hm_get (next_index s) p = Some next" and lo: "log_offset s < next" and hi: "next \<le> Suc (last_log_index s)"
  shows "ae_prev_log_index (append_request X me s next) = next - 1"
    and "log_offset s < next - 1 \<Longrightarrow>
      \<exists>e. get_entry s (next - 1) = Some e \<and> ae_prev_log_term (append_request X me s next) = le_term e"
    and "0 < log_offset s \<Longrightarrow> next - 1 = log_offset s \<Longrightarrow> snapshot s = Some sn \<Longrightarrow>
      ae_prev_log_term (append_request X me s next) = last_included_term sn"
proof -
  show "ae_prev_log_index (append_request X me s next) = next - 1" by (simp add: append_request_def Let_def)
  show "0 < log_offset s \<Longrightarrow> next - 1 = log_offset s \<Longrightarrow> snapshot s = Some sn \<Longrightarrow>
      ae_prev_log_term (append_request X me s next) = last_included_term sn"
    by (simp add: append_request_def Let_def prev_term_of_def)
  assume prev: "log_offset s < next - 1"
  let ?k = "next - 1 - Suc (log_offset s)"
  have ix: "indexed_from (Suc (log_offset s)) (rlog s)" using wf by (simp add: log_wf_def)
  have k: "Suc (log_offset s) \<le> next - 1" "next - 1 < Suc (log_offset s) + length (rlog s)"
    using prev hi by (auto simp: log_wf_last_index [OF wf])
  have li: "le_index (rlog s ! ?k) = next - 1" using indexed_from_nth [OF ix, of ?k] k by simp
  have "entries_start s \<le> next - 1"
    using entries_start_le [OF nx] prev u64_inc_small [OF room] by auto
  then have f: "List.find (\<lambda>e. le_index e = next - 1) (get_entries_from s (entries_start s)) = Some (rlog s ! ?k)"
    unfolding get_entries_from_filter [OF wf room] by (intro find_filter_index [OF ix _ k]) (simp only: li)
  have "get_entry s (next - 1) = Some (rlog s ! ?k)"
    using prev hi by (simp add: get_entry_cases [OF wf])
  with f prev show "\<exists>e. get_entry s (next - 1) = Some e \<and> ae_prev_log_term (append_request X me s next) = le_term e"
    by (auto simp: append_request_def Let_def prev_term_of_def)
qed

text \<open>
  A follower whose log reaches the position accepts entries exactly as the leader has them, up to what
  the wire format keeps of an entry.
\<close>

lemma append_request_wf:
  assumes X: "uuid_laws X" and wf: "log_wf s" and room: "log_offset s < u64_max"
    and nx: "hm_get (next_index s) p = Some next" and lo: "log_offset s < next" and hi: "next \<le> Suc (last_log_index s)"
    and off: "log_offset f \<le> next - 1"
  shows "new_entries X (append_request X me s next) = map (norm_entry X) (drop (next - Suc (log_offset s)) (rlog s))"
    and "request_wf X (append_request X me s next) f"
proof -
  let ?k = "next - Suc (log_offset s)"
  note e = append_request_entries [OF wf room nx lo]
  show n: "new_entries X (append_request X me s next) = map (norm_entry X) (drop ?k (rlog s))"
    by (rule new_entries_sent [OF X e])
  have k: "?k \<le> length (rlog s)" using hi lo by (simp add: log_wf_last_index [OF wf])
  have ix: "indexed_from next (drop ?k (rlog s))"
    using indexed_from_drop [OF _ k, of "Suc (log_offset s)"] wf lo by (simp add: log_wf_def)
  have "length (rlog s) + log_offset s \<le> u64_max" using wf by (simp add: log_wf_def)
  then show "request_wf X (append_request X me s next) f"
    using ix lo off k unfolding request_wf_def n
    by (auto simp: e append_request_prev(1) [OF wf room nx lo hi])
qed

lemma replicated:
  assumes X: "uuid_laws X" and wf: "log_wf s" and room: "log_offset s < u64_max"
    and nx: "hm_get (next_index s) p = Some next" and lo: "log_offset s < next" and hi: "next \<le> last_log_index s"
    and f: "log_wf f" "log_offset f \<le> next - 1"
    and succ: "aer_success (snd (handle_append_entries X (append_request X me s next) f))"
  shows "next \<le> k \<Longrightarrow> get_entry (fst (handle_append_entries X (append_request X me s next) f)) k =
      map_option (norm_entry X) (get_entry s k)"
    and "k < next \<Longrightarrow> get_entry (fst (handle_append_entries X (append_request X me s next) f)) k = get_entry f k"
    and "aer_match_index (snd (handle_append_entries X (append_request X me s next) f)) = last_log_index s"
proof -
  let ?req = "append_request X me s next"
  have hi': "next \<le> Suc (last_log_index s)" using hi by simp
  note w = append_request_wf [OF X wf room nx lo hi' f(2), of me]
  have prev: "ae_prev_log_index ?req = next - 1" by (rule append_request_prev [OF wf room nx lo hi'])
  have len: "length (new_entries X ?req) = Suc (last_log_index s) - next" using lo by (simp add: w(1) log_wf_last_index [OF wf])
  have ne: "ae_entries ?req \<noteq> []" using len hi append_request_entries [OF wf room nx lo, of X me] by (simp add: w(1))
  note g = hae_get [OF f(1) w(2) succ ne, unfolded prev len]
  show "get_entry (fst (handle_append_entries X ?req f)) k = map_option (norm_entry X) (get_entry s k)" if "next \<le> k"
    using that lo hi by (simp add: g(1) get_entry_cases [OF wf] log_wf_last_index [OF wf] w(1))
      (auto simp: nth_append algebra_simps)
  show "get_entry (fst (handle_append_entries X ?req f)) k = get_entry f k" if "k < next" using that by (auto simp: g(1))
  show "aer_match_index (snd (handle_append_entries X ?req f)) = last_log_index s"
    using lo hi by (simp add: hae_reply g(2))
qed

section \<open>Applying\<close>

lemma committed_loop_result:
  "committed_loop s acc =
     (s\<lparr>last_applied := max (last_applied s) (commit_index s)\<rparr>,
      acc @ List.map_filter (get_entry s) [Suc (last_applied s)..<Suc (commit_index s)])"
proof (induction s acc rule: committed_loop.induct)
  case (1 s acc)
  show ?case
  proof (cases "last_applied s < commit_index s")
    case True
    let ?s = "s\<lparr>last_applied := last_applied s + 1\<rparr>"
    have g: "get_entry (s\<lparr>last_applied := v\<rparr>) = get_entry s" for v by (rule ext) (simp add: get_entry_def Let_def)
    have "[Suc (last_applied s)..<Suc (commit_index s)] =
        Suc (last_applied s) # [Suc (last_applied ?s)..<Suc (commit_index ?s)]"
      using True by (simp add: upt_conv_Cons del: upt_Suc)
    with 1 [OF True refl] True show ?thesis
      by (subst committed_loop.simps)
         (simp add: g List.map_filter_simps max_def Suc_le_eq del: upt_Suc split: option.splits)
  next
    case False
    then show ?thesis by (subst committed_loop.simps) (simp add: List.map_filter_simps max_def)
  qed
qed

lemma get_committed_entries_result:
  assumes "log_wf (rn_state n)" and "applied_wf (rn_state n)" and "commit_index (rn_state n) \<le> last_log_index (rn_state n)"
    and "get_committed_entries n = (n', es)"
  shows "map Some es = map (get_entry (rn_state n)) [Suc (last_applied (rn_state n))..<Suc (commit_index (rn_state n))]"
    and "last_applied (rn_state n') = commit_index (rn_state n)"
    and "n' = n\<lparr>rn_state := (rn_state n)\<lparr>last_applied := commit_index (rn_state n)\<rparr>\<rparr>"
proof -
  let ?s = "rn_state n"
  have all: "get_entry ?s i = Some (the (get_entry ?s i))" if "i \<in> set [Suc (last_applied ?s)..<Suc (commit_index ?s)]" for i
  proof -
    have "log_offset ?s < i \<and> i \<le> last_log_index ?s"
      using that assms(2,3) by (auto simp: applied_wf_def simp del: upt_Suc)
    with get_entry_some_iff [OF assms(1), of i] show ?thesis by auto
  qed
  have "es = List.map_filter (get_entry ?s) [Suc (last_applied ?s)..<Suc (commit_index ?s)]"
    using assms(4) by (simp add: get_committed_entries_def committed_loop_result del: upt_Suc)
  also have "\<dots> = map (\<lambda>i. the (get_entry ?s i)) [Suc (last_applied ?s)..<Suc (commit_index ?s)]"
    by (rule map_filter_map_Some [OF all])
  finally show "map Some es = map (get_entry ?s) [Suc (last_applied ?s)..<Suc (commit_index ?s)]"
    using all by (simp add: comp_def del: upt_Suc)
  show "last_applied (rn_state n') = commit_index ?s"
    and "n' = n\<lparr>rn_state := ?s\<lparr>last_applied := commit_index ?s\<rparr>\<rparr>"
    using assms(2,4) by (auto simp: get_committed_entries_def committed_loop_result applied_wf_def max_def)
qed

section \<open>Leadership transfer\<close>

lemma pick_target_auto:
  assumes "pick_target None n = Inr i" and "hm_wf (match_index (rn_state n))"
  shows "\<exists>m. hm_get (match_index (rn_state n)) i = Some m \<and>
    (\<forall>p v. hm_get (match_index (rn_state n)) p = Some v \<longrightarrow> v \<le> m)"
proof -
  from assms(1) obtain m where m: "max_by_key snd (match_index (rn_state n)) = Some (i, m)"
    by (auto simp: pick_target_def split: if_splits option.splits)
  from max_by_key_Some [OF m] show ?thesis
    by (intro exI [of _ m]) (auto simp: hm_get_iff [OF assms(2)])
qed

section \<open>Limits\<close>

definition bare_node :: "node_id \<Rightarrow> node_id list \<Rightarrow> raft_state \<Rightarrow> unit raft_node" where
  "bare_node me ps s =
     (raft_node_new (config_default\<lparr>nc_node_id := me, nc_peers := map (\<lambda>p. \<lparr>pc_node_id = p, pc_addr = []\<rparr>) ps\<rparr>) 0)
       \<lparr>rn_state := s, peers := ps\<rparr>"

definition no_kv :: "unit kv" where
  "no_kv = \<lparr>kv_put = (\<lambda>k v db. None), kv_delete = (\<lambda>k db. None), kv_get = (\<lambda>db k. None),
     kv_iter_from = (\<lambda>db k. None), contents = (\<lambda>db k. None)\<rparr>"

lemmas bare_defs = bare_node_def raft_node_new_def new_with_storage_def restored_state_def config_default_def Let_def

text \<open>
  In a cluster of an even size the middle of the sorted match indices belongs to one node less than a
  majority: two of four nodes are enough to commit, although an election needs three.
\<close>

definition even_leader :: raft_state where
  "even_leader = (noop_state 1 0 [noop_entry 1 1])\<lparr>role := Leader, match_index := [(2, 1), (3, 0), (4, 0)]\<rparr>"

lemma even_cluster_commits_with_half:
  "commit_index even_leader = 0 \<and> commit_index (advance_commit even_leader) = 1 \<and>
   holders 1 even_leader 1 = {1, 2} \<and> majority_of (bare_node 1 [2, 3, 4] even_leader) = 3"
proof -
  have "last_log_index even_leader = 1"
    by (simp add: even_leader_def noop_state_def last_log_index_def raft_new_def)
  moreover have "holders 1 even_leader 1 = {1, 2}"
    by (auto simp: holders_def even_leader_def noop_state_def last_log_index_def hm_get_def split: if_splits)
  ultimately show ?thesis
    by (simp add: even_leader_def noop_state_def raft_new_def advance_commit_def majority_match_def
        hm_values_def get_entry_def majority_of_def bare_defs)
qed

text \<open>
  A transfer steps down in the term it started in. Meanwhile the target has asked for votes in the
  next term and got one from the old leader; stepping down brings the old term back and forgets that
  vote, and the old leader can vote again in the new term.
\<close>

definition vote_for :: "node_id \<Rightarrow> vote_request" where
  "vote_for c = \<lparr>vr_term = 2, vr_candidate_id = c, vr_last_log_index = 0, vr_last_log_term = 0\<rparr>"

lemma transfer_forgets_vote:
  "let s0 = (noop_state 1 0 [])\<lparr>role := Leader\<rparr>;
       s1 = fst (handle_request_vote (vote_for 2) s0);
       n1 = bare_node 1 [2, 3] s1
   in current_term s1 = 2 \<and> voted_for s1 = Some 2 \<and>
      (\<exists>n2. finish_transfer no_kv serde_unary 2 1 (Inr ()) n1 = Some (n2, Inr 2) \<and>
        current_term (rn_state n2) = 1 \<and> voted_for (rn_state n2) = None \<and>
        vote_granted (snd (handle_request_vote (vote_for 3) (rn_state n2))))"
  by (simp add: noop_state_def raft_new_def vote_for_def handler_defs finish_transfer_def step_down_def
      persist_hard_state_def with_storage_def bare_defs)

text \<open>
  The answer to a heartbeat is compared with the term the heartbeat was sent in, not with the current
  one: a late answer takes a node of term 5 back to term 2.
\<close>

lemma heartbeat_answer_goes_back:
  "\<exists>n. heartbeat_answer no_kv serde_unary 0 2 1 \<lparr>aer_term = 2, aer_success = False, aer_match_index = 0\<rparr>
     (bare_node 1 [2, 3] ((noop_state 5 0 [])\<lparr>voted_for := Some 1\<rparr>)) = Some n \<and>
   current_term (rn_state n) = 2 \<and> voted_for (rn_state n) = None"
  by (simp add: noop_state_def raft_new_def heartbeat_answer_def saw_peer_def handler_defs step_down_def
      persist_hard_state_def with_storage_def bare_defs)

text \<open>The commit index only moves when an answer arrives: a cluster of one node never commits.\<close>

lemma single_node_no_requests:
  "peers n = [] \<Longrightarrow> replicate_to_peers X n = []"
  by (simp add: replicate_to_peers_def Let_def)

end
