(* ===== verification/Job_Queue.thy ===== *)
theory Job_Queue
  imports Job Hash_Map
begin

text \<open>
  The job queue (\<open>src/scheduler/queue.rs\<close>): a hash map of jobs with a limit on the active ones.
  An operation that changes the queue returns the new queue, paired with the code's result.
  \<open>Utc::now()\<close> is an argument.
\<close>

section \<open>State and operations\<close>

record job_queue =
  jobs :: "(uuid, job) hmap"
  max_jobs :: nat

definition DEFAULT_MAX_JOBS :: nat where
  "DEFAULT_MAX_JOBS = 10000"

definition with_capacity :: "nat \<Rightarrow> job_queue" where
  "with_capacity n = \<lparr>jobs = hm_empty, max_jobs = n\<rparr>"

definition queue_new :: job_queue where
  "queue_new = with_capacity DEFAULT_MAX_JOBS"

definition active_job_count :: "job_queue \<Rightarrow> nat" where
  "active_job_count q = hm_count job_active (jobs q)"

definition is_full :: "job_queue \<Rightarrow> bool" where
  "is_full q \<longleftrightarrow> max_jobs q \<le> active_job_count q"

definition add_job :: "job \<Rightarrow> job_queue \<Rightarrow> job_queue \<times> bool" where
  "add_job j q =
     (if max_jobs q \<le> active_job_count q then (q, False)
      else (q\<lparr>jobs := hm_insert (j_id j) j (jobs q)\<rparr>, True))"

definition get_job :: "job_queue \<Rightarrow> uuid \<Rightarrow> job option" where
  "get_job q i = hm_get (jobs q) i"

text \<open>\<open>if let Some(job) = self.jobs.get_mut(id) { ...; true } else { false }\<close>.\<close>

definition update_job :: "uuid \<Rightarrow> (job \<Rightarrow> job) \<Rightarrow> job_queue \<Rightarrow> job_queue \<times> bool" where
  "update_job i f q =
     (case hm_get (jobs q) i of
        Some _ \<Rightarrow> (q\<lparr>jobs := hm_modify i f (jobs q)\<rparr>, True)
      | None \<Rightarrow> (q, False))"

definition update_status ::
  "uuid \<Rightarrow> job_status \<Rightarrow> string option \<Rightarrow> string option \<Rightarrow> datetime \<Rightarrow> job_queue \<Rightarrow> job_queue \<times> bool" where
  "update_status i st out err now q = update_job i (\<lambda>j.
     let j1 = j\<lparr>j_status := st\<rparr>;
         j2 = (if out \<noteq> None then j1\<lparr>j_output := out\<rparr> else j1);
         j3 = (if err \<noteq> None then j2\<lparr>j_error := err\<rparr> else j2)
     in if (st = Completed \<or> st = Failed) \<and> j_completed_at j3 = None
        then j3\<lparr>j_completed_at := Some now\<rparr> else j3) q"

definition update_job_result ::
  "uuid \<Rightarrow> job_status \<Rightarrow> u64 \<Rightarrow> i32 option \<Rightarrow> string option \<Rightarrow> string option \<Rightarrow> datetime
    \<Rightarrow> job_queue \<Rightarrow> job_queue \<times> bool" where
  "update_job_result i st by_node code out err t q = update_job i (\<lambda>j.
     j\<lparr>j_status := st, j_executed_by := Some by_node, j_exit_code := code, j_output := out,
       j_error := err, j_completed_at := Some t\<rparr>) q"

definition update_status_metadata ::
  "uuid \<Rightarrow> job_status \<Rightarrow> u64 \<Rightarrow> i32 option \<Rightarrow> datetime option \<Rightarrow> job_queue \<Rightarrow> job_queue \<times> bool" where
  "update_status_metadata i st by_node code t q = update_job i (\<lambda>j.
     j\<lparr>j_status := st, j_executed_by := Some by_node, j_exit_code := code, j_completed_at := t\<rparr>) q"

definition assign_job :: "uuid \<Rightarrow> u64 \<Rightarrow> job_queue \<Rightarrow> job_queue \<times> bool" where
  "assign_job i w q = update_job i (\<lambda>j. j\<lparr>j_assigned_worker := Some w, j_status := Running\<rparr>) q"

definition cancel_job :: "uuid \<Rightarrow> datetime \<Rightarrow> job_queue \<Rightarrow> job_queue \<times> bool" where
  "cancel_job i now q =
     (case hm_get (jobs q) i of
        Some j \<Rightarrow>
          (if job_active j
           then (q\<lparr>jobs := hm_modify i (\<lambda>j. j\<lparr>j_status := Cancelled, j_completed_at := Some now\<rparr>) (jobs q)\<rparr>, True)
           else (q, False))
      | None \<Rightarrow> (q, False))"

definition pending_jobs :: "job_queue \<Rightarrow> job list" where
  "pending_jobs q = filter (\<lambda>j. j_status j = Pending) (hm_values (jobs q))"

definition all_jobs :: "job_queue \<Rightarrow> job list" where
  "all_jobs q = sort_key j_created_at (hm_values (jobs q))"

text \<open>
  The filter of \<open>filtered_jobs\<close>. Unicode lower-casing (\<open>lower\<close>) and chrono's partial conversion
  of milliseconds to an instant (\<open>of_ms\<close>) are arguments; an unrepresentable bound is no bound.
\<close>

definition job_matches ::
  "(string \<Rightarrow> string) \<Rightarrow> (int \<Rightarrow> datetime option) \<Rightarrow> job_status option \<Rightarrow> u64 option \<Rightarrow> string option
    \<Rightarrow> int option \<Rightarrow> int option \<Rightarrow> job \<Rightarrow> bool" where
  "job_matches lower of_ms st worker cmd after before j =
     ((case st of Some s \<Rightarrow> j_status j = s | None \<Rightarrow> True)
      \<and> (case worker of Some w \<Rightarrow> j_assigned_worker j = Some w \<or> j_executed_by j = Some w | None \<Rightarrow> True)
      \<and> (case map_option lower cmd of Some l \<Rightarrow> str_contains (lower (j_command j)) l | None \<Rightarrow> True)
      \<and> (case Option.bind after of_ms of Some a \<Rightarrow> a \<le> j_created_at j | None \<Rightarrow> True)
      \<and> (case Option.bind before of_ms of Some b \<Rightarrow> j_created_at j \<le> b | None \<Rightarrow> True))"

definition filtered_jobs ::
  "(string \<Rightarrow> string) \<Rightarrow> (int \<Rightarrow> datetime option) \<Rightarrow> job_status option \<Rightarrow> u64 option \<Rightarrow> string option
    \<Rightarrow> int option \<Rightarrow> int option \<Rightarrow> job_queue \<Rightarrow> job list" where
  "filtered_jobs lower of_ms st worker cmd after before q =
     sort_key j_created_at
       (filter (job_matches lower of_ms st worker cmd after before) (hm_values (jobs q)))"

definition running_jobs_on_worker :: "u64 \<Rightarrow> job_queue \<Rightarrow> nat" where
  "running_jobs_on_worker w q =
     length (filter (\<lambda>j. j_status j = Running \<and> j_assigned_worker j = Some w) (hm_values (jobs q)))"

definition jobs_for_worker :: "u64 \<Rightarrow> job_queue \<Rightarrow> job list" where
  "jobs_for_worker w q = filter (\<lambda>j. j_assigned_worker j = Some w) (hm_values (jobs q))"

definition jobs_assigned_to :: "u64 \<Rightarrow> job_queue \<Rightarrow> (uuid \<times> string \<times> string option) list" where
  "jobs_assigned_to w q =
     map (\<lambda>j. (j_id j, j_command j, j_image j))
       (filter (\<lambda>j. j_assigned_worker j = Some w \<and> j_status j = Running) (hm_values (jobs q)))"

text \<open>The predicate of \<open>retain\<close>; the retention period is well inside chrono's range.\<close>

definition keep_finished :: "datetime \<Rightarrow> job \<Rightarrow> bool" where
  "keep_finished cutoff j =
     (case j_status j of
        Completed \<Rightarrow> (case j_completed_at j of None \<Rightarrow> True | Some t \<Rightarrow> cutoff < t)
      | Failed \<Rightarrow> (case j_completed_at j of None \<Rightarrow> True | Some t \<Rightarrow> cutoff < t)
      | Cancelled \<Rightarrow> (case j_completed_at j of None \<Rightarrow> True | Some t \<Rightarrow> cutoff < t)
      | _ \<Rightarrow> True)"

definition cleanup_finished_jobs :: "nat \<Rightarrow> datetime \<Rightarrow> job_queue \<Rightarrow> job_queue \<times> nat" where
  "cleanup_finished_jobs retention_secs now q =
     (let before = length (jobs q);
          cutoff = now - int retention_secs * 1000000000;
          jobs' = hm_retain (\<lambda>_ j. keep_finished cutoff j) (jobs q)
      in (q\<lparr>jobs := jobs'\<rparr>, before - length jobs'))"

definition queue_len :: "job_queue \<Rightarrow> nat" where
  "queue_len q = length (jobs q)"

definition queue_is_empty :: "job_queue \<Rightarrow> bool" where
  "queue_is_empty q \<longleftrightarrow> jobs q = []"

definition queue_clear :: "job_queue \<Rightarrow> job_queue" where
  "queue_clear q = q\<lparr>jobs := hm_empty\<rparr>"

lemmas queue_update_defs = update_status_def update_job_result_def update_status_metadata_def
  assign_job_def

section \<open>Well-formedness\<close>

text \<open>
  The invariant every operation keeps: keys are distinct and each job is stored under its own
  identifier.
\<close>

definition queue_wf :: "job_queue \<Rightarrow> bool" where
  "queue_wf q \<longleftrightarrow> hm_wf (jobs q) \<and> hm.keyed j_id (jobs q)"

lemma queue_wf_get: "queue_wf q \<Longrightarrow> get_job q i = Some j \<Longrightarrow> j_id j = i"
  by (simp add: queue_wf_def hm.keyed_def get_job_def)

lemma queue_wf_new [wf_keep]: "queue_wf (with_capacity n)"
  by (simp add: queue_wf_def with_capacity_def hm.keyed_empty)

lemma queue_wf_clear [wf_keep]: "queue_wf (queue_clear q)"
  by (simp add: queue_wf_def queue_clear_def hm.keyed_empty)

lemma queue_wf_add [wf_keep]: "queue_wf q \<Longrightarrow> queue_wf (fst (add_job j q))"
  by (simp add: queue_wf_def add_job_def hm.wf_insert hm.keyed_insert)

lemma queue_wf_update_job:
  "queue_wf q \<Longrightarrow> (\<And>j. j_id (f j) = j_id j) \<Longrightarrow> queue_wf (fst (update_job i f q))"
  by (auto simp: queue_wf_def update_job_def hm.wf_modify hm.keyed_modify split: option.splits)

lemma queue_wf_updates [wf_keep]:
  "queue_wf q \<Longrightarrow> queue_wf (fst (update_status i st out err now q))"
  "queue_wf q \<Longrightarrow> queue_wf (fst (update_job_result i st b code out err t q))"
  "queue_wf q \<Longrightarrow> queue_wf (fst (update_status_metadata i st b code t' q))"
  "queue_wf q \<Longrightarrow> queue_wf (fst (assign_job i w q))"
  by (simp_all add: queue_update_defs queue_wf_update_job Let_def)

lemma queue_wf_cancel [wf_keep]: "queue_wf q \<Longrightarrow> queue_wf (fst (cancel_job i now q))"
  by (auto simp: queue_wf_def cancel_job_def hm.wf_modify hm.keyed_modify split: option.splits)

lemma queue_wf_cleanup [wf_keep]: "queue_wf q \<Longrightarrow> queue_wf (fst (cleanup_finished_jobs r now q))"
  by (simp add: queue_wf_def cleanup_finished_jobs_def Let_def hm.wf_retain hm.keyed_retain)

section \<open>Functional behaviour\<close>

text \<open>
  The abstract view of a queue is the map from identifiers to jobs. Each operation is the update
  of that map its documentation promises.
\<close>

lemma get_job_new [simp]: "get_job (with_capacity n) i = None"
  by (simp add: get_job_def with_capacity_def)

lemma get_job_clear [simp]: "get_job (queue_clear q) i = None"
  by (simp add: get_job_def queue_clear_def)

lemma get_job_add:
  "get_job (fst (add_job j q)) i
     = (if i = j_id j \<and> \<not> is_full q then Some j else get_job q i)"
  by (auto simp: get_job_def add_job_def is_full_def)

lemma add_job_result: "snd (add_job j q) \<longleftrightarrow> \<not> is_full q"
  by (simp add: add_job_def is_full_def)

lemma get_job_update_job:
  "get_job (fst (update_job i f q)) i' = (if i' = i then map_option f (get_job q i) else get_job q i')"
  by (auto simp: get_job_def update_job_def split: option.splits)

lemma update_job_result_flag: "snd (update_job i f q) \<longleftrightarrow> get_job q i \<noteq> None"
  by (auto simp: get_job_def update_job_def split: option.splits)

lemma get_job_updates:
  "get_job (fst (update_status_metadata i st b code t q)) i'
     = (if i' = i then map_option (\<lambda>j. j\<lparr>j_status := st, j_executed_by := Some b, j_exit_code := code,
          j_completed_at := t\<rparr>) (get_job q i) else get_job q i')"
  "get_job (fst (assign_job i w q)) i'
     = (if i' = i then map_option (\<lambda>j. j\<lparr>j_assigned_worker := Some w, j_status := Running\<rparr>) (get_job q i)
        else get_job q i')"
  "get_job (fst (update_job_result i st b code out err t' q)) i'
     = (if i' = i then map_option (\<lambda>j. j\<lparr>j_status := st, j_executed_by := Some b, j_exit_code := code,
          j_output := out, j_error := err, j_completed_at := Some t'\<rparr>) (get_job q i) else get_job q i')"
  by (simp_all add: update_status_metadata_def assign_job_def update_job_result_def
      get_job_update_job)

lemma get_job_cancel:
  "get_job (fst (cancel_job i now q)) i'
     = (case get_job q i' of
          None \<Rightarrow> None
        | Some j \<Rightarrow> Some (if i' = i \<and> job_active j
            then j\<lparr>j_status := Cancelled, j_completed_at := Some now\<rparr> else j))"
  by (auto simp: get_job_def cancel_job_def split: option.splits)

lemma cancel_job_result:
  "snd (cancel_job i now q) \<longleftrightarrow> (\<exists>j. get_job q i = Some j \<and> job_active j)"
  by (auto simp: get_job_def cancel_job_def split: option.splits)

lemma get_job_cleanup:
  "queue_wf q \<Longrightarrow> get_job (fst (cleanup_finished_jobs r now q)) i
     = (case get_job q i of
          None \<Rightarrow> None
        | Some j \<Rightarrow> if keep_finished (now - int r * 1000000000) j then Some j else None)"
  by (simp add: get_job_def queue_wf_def cleanup_finished_jobs_def Let_def hm.get_retain)

lemma max_jobs_frame [frame]:
  "max_jobs (fst (add_job j q)) = max_jobs q"
  "max_jobs (fst (update_job i f q)) = max_jobs q"
  "max_jobs (fst (cancel_job i now q)) = max_jobs q"
  "max_jobs (fst (cleanup_finished_jobs r now q)) = max_jobs q"
  "max_jobs (queue_clear q) = max_jobs q"
  by (auto simp: add_job_def update_job_def cancel_job_def cleanup_finished_jobs_def Let_def
      queue_clear_def split: option.splits)

section \<open>The limit on active jobs\<close>

definition within_limit :: "job_queue \<Rightarrow> bool" where
  "within_limit q \<longleftrightarrow> active_job_count q \<le> max_jobs q"

lemma active_count_add:
  "\<not> is_full q \<Longrightarrow> active_job_count (fst (add_job j q)) \<le> Suc (active_job_count q)"
proof (cases "hm_get (jobs q) (j_id j)")
  case None
  assume "\<not> is_full q"
  with None hm_count_insert_new [OF None, of job_active j] show ?thesis
    by (simp add: add_job_def is_full_def active_job_count_def)
next
  case (Some u)
  assume "\<not> is_full q"
  with hm_count_insert_old [OF Some, of job_active j] show ?thesis
    by (auto simp: add_job_def is_full_def active_job_count_def split: if_splits)
qed

lemma within_limit_add: "within_limit q \<Longrightarrow> within_limit (fst (add_job j q))"
  using active_count_add [of q j]
  by (cases "is_full q") (auto simp: within_limit_def is_full_def add_job_def)

lemma active_count_update_job:
  "queue_wf q \<Longrightarrow> get_job q i = Some j \<Longrightarrow>
   active_job_count (fst (update_job i f q)) + (if job_active j then 1 else 0)
     = active_job_count q + (if job_active (f j) then 1 else 0)"
  using hm_count_modify [of "jobs q" i j job_active f]
  by (simp add: queue_wf_def get_job_def update_job_def active_job_count_def)

lemma active_count_update_absent:
  "get_job q i = None \<Longrightarrow> active_job_count (fst (update_job i f q)) = active_job_count q"
  by (simp add: get_job_def update_job_def)

lemma cancel_job_update:
  "get_job q i = Some j \<Longrightarrow> job_active j \<Longrightarrow>
   fst (cancel_job i now q) = fst (update_job i (\<lambda>j. j\<lparr>j_status := Cancelled, j_completed_at := Some now\<rparr>) q)"
  by (simp add: cancel_job_def update_job_def get_job_def)

lemma cancel_job_idle:
  "(\<And>j. get_job q i = Some j \<Longrightarrow> \<not> job_active j) \<Longrightarrow> fst (cancel_job i now q) = q"
  by (auto simp: cancel_job_def get_job_def split: option.splits)

text \<open>Cancelling an active job frees exactly one slot.\<close>

lemma active_count_cancel:
  assumes "queue_wf q" and "get_job q i = Some j" and "job_active j"
  shows "Suc (active_job_count (fst (cancel_job i now q))) = active_job_count q"
  using active_count_update_job [OF assms(1,2), of "\<lambda>j. j\<lparr>j_status := Cancelled, j_completed_at := Some now\<rparr>"]
    assms(3) cancel_job_update [OF assms(2,3)]
  by simp

lemma active_count_assign_pending:
  assumes "queue_wf q" and "get_job q i = Some j" and "j_status j = Pending"
  shows "active_job_count (fst (assign_job i w q)) = active_job_count q"
  using active_count_update_job [OF assms(1,2), of "\<lambda>j. j\<lparr>j_assigned_worker := Some w, j_status := Running\<rparr>"]
    assms(3)
  by (simp add: assign_job_def)

lemma active_count_cleanup: "active_job_count (fst (cleanup_finished_jobs r now q)) = active_job_count q"
proof -
  have "hm_count job_active (filter (\<lambda>(_, j). keep_finished c j) m) = hm_count job_active m" for c m
    by (induction m) (auto simp: hm_count_cons keep_finished_def split: job_status.splits option.splits)
  then show ?thesis
    by (simp add: active_job_count_def cleanup_finished_jobs_def Let_def hm_retain_def)
qed

section \<open>Listing\<close>

lemma all_jobs_sorted: "sorted (map j_created_at (all_jobs q))"
  by (simp add: all_jobs_def)

lemma all_jobs_mset: "mset (all_jobs q) = mset (hm_values (jobs q))"
  by (simp add: all_jobs_def)

lemma all_jobs_set: "queue_wf q \<Longrightarrow> j \<in> set (all_jobs q) \<longleftrightarrow> get_job q (j_id j) = Some j"
proof -
  assume wf: "queue_wf q"
  have "j \<in> set (all_jobs q) \<longleftrightarrow> (\<exists>i. hm_get (jobs q) i = Some j)"
    using wf by (simp add: all_jobs_def hm_values_get queue_wf_def)
  also have "\<dots> \<longleftrightarrow> get_job q (j_id j) = Some j"
    using queue_wf_get [OF wf] by (auto simp: get_job_def)
  finally show ?thesis .
qed

lemma hm_values_ids_distinct: "queue_wf q \<Longrightarrow> distinct (map j_id (hm_values (jobs q)))"
proof -
  assume wf: "queue_wf q"
  have "map j_id (hm_values (jobs q)) = map fst (jobs q)"
    using wf by (auto simp: hm_values_def queue_wf_def hm.keyed_def hm_get_iff)
  with wf show ?thesis by (simp add: queue_wf_def hm_wf_def)
qed

lemma all_jobs_distinct: "queue_wf q \<Longrightarrow> distinct (map j_id (all_jobs q))"
  using hm_values_ids_distinct [of q] all_jobs_mset [of q]
  by (metis mset_eq_imp_distinct_iff mset_map)

lemma filtered_jobs_set:
  "queue_wf q \<Longrightarrow>
   j \<in> set (filtered_jobs lower of_ms st w cmd a b q)
     \<longleftrightarrow> get_job q (j_id j) = Some j \<and> job_matches lower of_ms st w cmd a b j"
  using all_jobs_set [of q j] by (auto simp: filtered_jobs_def all_jobs_def)

lemma filtered_jobs_sorted: "sorted (map j_created_at (filtered_jobs lower of_ms st w cmd a b q))"
  by (simp add: filtered_jobs_def)

text \<open>With no filter at all, the filtered listing is the full one.\<close>

lemma filtered_jobs_none: "filtered_jobs lower of_ms None None None None None q = all_jobs q"
proof -
  have "job_matches lower of_ms None None None None None = (\<lambda>_. True)"
    by (simp add: job_matches_def fun_eq_iff)
  then show ?thesis by (simp add: filtered_jobs_def all_jobs_def)
qed

lemma pending_first:
  "queue_wf q \<Longrightarrow> pending_jobs q = j # js \<Longrightarrow> get_job q (j_id j) = Some j \<and> j_status j = Pending"
proof -
  assume wf: "queue_wf q" and "pending_jobs q = j # js"
  then have "j \<in> set (pending_jobs q)" by simp
  then have "j \<in> set (hm_values (jobs q))" and "j_status j = Pending"
    by (auto simp: pending_jobs_def)
  with wf all_jobs_set [OF wf, of j] show ?thesis by (simp add: all_jobs_def)
qed

lemma jobs_assigned_to_iff:
  "queue_wf q \<Longrightarrow>
   (i, c, img) \<in> set (jobs_assigned_to w q) \<longleftrightarrow>
     (\<exists>j. get_job q i = Some j \<and> j_assigned_worker j = Some w \<and> j_status j = Running
        \<and> j_command j = c \<and> j_image j = img)"
  using all_jobs_set [of q] queue_wf_get [of q i]
  by (auto simp: jobs_assigned_to_def all_jobs_def)

end
