(* ===== verification/Job_Assigner.thy ===== *)
theory Job_Assigner
  imports Job_Queue
begin

text \<open>
  The worker registry and the assignment of jobs (\<open>src/scheduler/assigner.rs\<close>). An \<open>Instant\<close> is a
  reading of the monotonic clock in nanoseconds; the operations that read the clock take the
  reading as an argument.
\<close>

section \<open>State and operations\<close>

record worker_state =
  ws_id :: u64
  ws_last_heartbeat :: instant
  ws_running_jobs :: "uuid set"

record job_assigner =
  workers :: "(u64, worker_state) hmap"
  worker_timeout_ms :: u64

definition worker_new :: "instant \<Rightarrow> u64 \<Rightarrow> worker_state" where
  "worker_new now i = \<lparr>ws_id = i, ws_last_heartbeat = now, ws_running_jobs = {}\<rparr>"

definition update_heartbeat :: "instant \<Rightarrow> worker_state \<Rightarrow> worker_state" where
  "update_heartbeat now w = w\<lparr>ws_last_heartbeat := now\<rparr>"

text \<open>\<open>elapsed()\<close> saturates at zero, \<open>as_millis()\<close> rounds down.\<close>

definition is_alive :: "instant \<Rightarrow> u64 \<Rightarrow> worker_state \<Rightarrow> bool" where
  "is_alive now timeout_ms w \<longleftrightarrow> (now - ws_last_heartbeat w) div 1000000 < timeout_ms"

definition assigner_new :: "u64 \<Rightarrow> job_assigner" where
  "assigner_new t = \<lparr>workers = hm_empty, worker_timeout_ms = t\<rparr>"

definition register_worker :: "instant \<Rightarrow> u64 \<Rightarrow> job_assigner \<Rightarrow> job_assigner" where
  "register_worker now i a = a\<lparr>workers := hm_insert i (worker_new now i) (workers a)\<rparr>"

definition worker_heartbeat :: "instant \<Rightarrow> u64 \<Rightarrow> job_assigner \<Rightarrow> job_assigner" where
  "worker_heartbeat now i a =
     (case hm_get (workers a) i of
        Some _ \<Rightarrow> a\<lparr>workers := hm_modify i (update_heartbeat now) (workers a)\<rparr>
      | None \<Rightarrow> register_worker now i a)"

definition available_workers :: "instant \<Rightarrow> job_assigner \<Rightarrow> u64 list" where
  "available_workers now a =
     map ws_id (filter (is_alive now (worker_timeout_ms a)) (hm_values (workers a)))"

text \<open>The key of the \<open>min_by_key\<close> that picks a worker.\<close>

definition load :: "job_assigner \<Rightarrow> u64 \<Rightarrow> nat" where
  "load a i = (case hm_get (workers a) i of
     Some w \<Rightarrow> card (ws_running_jobs w) | None \<Rightarrow> 18446744073709551615)"

definition note_running :: "u64 \<Rightarrow> uuid \<Rightarrow> job_assigner \<Rightarrow> job_assigner" where
  "note_running w i a =
     a\<lparr>workers := hm_modify w (\<lambda>s. s\<lparr>ws_running_jobs := insert i (ws_running_jobs s)\<rparr>) (workers a)\<rparr>"

definition assign_next_job ::
  "instant \<Rightarrow> job_assigner \<Rightarrow> job_queue \<Rightarrow> job_assigner \<times> job_queue \<times> (uuid \<times> u64) option" where
  "assign_next_job now a q =
     (let available = available_workers now a in
      if available = [] then (a, q, None)
      else case min_by_key (load a) available of
        None \<Rightarrow> (a, q, None)
      | Some w \<Rightarrow>
          (case pending_jobs q of
             [] \<Rightarrow> (a, q, None)
           | j # _ \<Rightarrow>
               (let (q', ok) = assign_job (j_id j) w q in
                if ok then (note_running w (j_id j) a, q', Some (j_id j, w)) else (a, q', None))))"

definition job_completed :: "u64 \<Rightarrow> uuid \<Rightarrow> job_assigner \<Rightarrow> job_assigner" where
  "job_completed w i a =
     a\<lparr>workers := hm_modify w (\<lambda>s. s\<lparr>ws_running_jobs := ws_running_jobs s - {i}\<rparr>) (workers a)\<rparr>"

definition all_workers :: "job_assigner \<Rightarrow> worker_state list" where
  "all_workers a = hm_values (workers a)"

definition check_dead_workers :: "instant \<Rightarrow> job_assigner \<Rightarrow> u64 list" where
  "check_dead_workers now a =
     map ws_id (filter (\<lambda>w. \<not> is_alive now (worker_timeout_ms a) w) (hm_values (workers a)))"

definition assigner_clear :: "job_assigner \<Rightarrow> job_assigner" where
  "assigner_clear a = a\<lparr>workers := hm_empty\<rparr>"

section \<open>Well-formedness\<close>

definition assigner_wf :: "job_assigner \<Rightarrow> bool" where
  "assigner_wf a \<longleftrightarrow> hm_wf (workers a) \<and> hm.keyed ws_id (workers a)"

lemma assigner_wf_get: "assigner_wf a \<Longrightarrow> hm_get (workers a) i = Some w \<Longrightarrow> ws_id w = i"
  by (simp add: assigner_wf_def hm.keyed_def)

lemma assigner_wf_new [wf_keep]: "assigner_wf (assigner_new t)"
  by (simp add: assigner_wf_def assigner_new_def hm.keyed_empty)

lemma assigner_wf_clear [wf_keep]: "assigner_wf (assigner_clear a)"
  by (simp add: assigner_wf_def assigner_clear_def hm.keyed_empty)

lemma assigner_wf_register [wf_keep]: "assigner_wf a \<Longrightarrow> assigner_wf (register_worker now i a)"
  using hm.keyed_insert [of ws_id "workers a" "worker_new now i"]
  by (simp add: assigner_wf_def register_worker_def hm.wf_insert worker_new_def)

lemma assigner_wf_heartbeat [wf_keep]: "assigner_wf a \<Longrightarrow> assigner_wf (worker_heartbeat now i a)"
  using assigner_wf_register [of a now i]
  by (auto simp: worker_heartbeat_def assigner_wf_def hm.wf_modify update_heartbeat_def
      intro!: hm.keyed_modify split: option.splits)

lemma assigner_wf_running [wf_keep]:
  "assigner_wf a \<Longrightarrow> assigner_wf (note_running w i a)"
  "assigner_wf a \<Longrightarrow> assigner_wf (job_completed w i a)"
  by (auto simp: note_running_def job_completed_def assigner_wf_def hm.wf_modify
      intro!: hm.keyed_modify)

lemma workers_by_id:
  assumes "assigner_wf a"
  shows "(\<exists>w \<in> set (hm_values (workers a)). ws_id w = i \<and> P w)
    \<longleftrightarrow> (\<exists>w. hm_get (workers a) i = Some w \<and> P w)"
proof -
  have "w \<in> set (hm_values (workers a)) \<and> ws_id w = i \<longleftrightarrow> hm_get (workers a) i = Some w" for w
    using assms assigner_wf_get [OF assms] by (auto simp: assigner_wf_def hm_values_get)
  then show ?thesis by blast
qed

section \<open>Liveness of workers\<close>

lemma available_workers_iff:
  assumes "assigner_wf a"
  shows "i \<in> set (available_workers now a) \<longleftrightarrow>
    (\<exists>w. hm_get (workers a) i = Some w \<and> is_alive now (worker_timeout_ms a) w)"
proof -
  have "i \<in> set (available_workers now a) \<longleftrightarrow>
    (\<exists>w \<in> set (hm_values (workers a)). ws_id w = i \<and> is_alive now (worker_timeout_ms a) w)"
    by (auto simp: available_workers_def)
  also have "\<dots> \<longleftrightarrow> (\<exists>w. hm_get (workers a) i = Some w \<and> is_alive now (worker_timeout_ms a) w)"
    by (rule workers_by_id [OF assms])
  finally show ?thesis .
qed

text \<open>At any instant, a registered worker is either available or reported dead, never both.\<close>

lemma workers_partition:
  assumes "assigner_wf a"
  shows "i \<in> set (check_dead_workers now a) \<longleftrightarrow>
    hm_contains_key (workers a) i \<and> i \<notin> set (available_workers now a)"
proof -
  have "i \<in> set (check_dead_workers now a) \<longleftrightarrow>
    (\<exists>w \<in> set (hm_values (workers a)). ws_id w = i \<and> \<not> is_alive now (worker_timeout_ms a) w)"
    by (auto simp: check_dead_workers_def)
  also have "\<dots> \<longleftrightarrow> (\<exists>w. hm_get (workers a) i = Some w \<and> \<not> is_alive now (worker_timeout_ms a) w)"
    by (rule workers_by_id [OF assms])
  finally show ?thesis using available_workers_iff [OF assms, of i now] by auto
qed

text \<open>A heartbeat makes its sender available until the timeout has passed, registered or not.\<close>

lemma heartbeat_available:
  assumes "assigner_wf a" and "(later - now) div 1000000 < worker_timeout_ms a"
  shows "i \<in> set (available_workers later (worker_heartbeat now i a))"
proof (cases "hm_get (workers a) i")
  case None
  then have "hm_get (workers (worker_heartbeat now i a)) i = Some (worker_new now i)"
    by (simp add: worker_heartbeat_def register_worker_def)
  with assms show ?thesis
    using available_workers_iff [OF assigner_wf_heartbeat [OF assms(1)], of i later now i]
    by (simp add: is_alive_def worker_new_def worker_heartbeat_def register_worker_def None)
next
  case (Some w)
  then have "hm_get (workers (worker_heartbeat now i a)) i = Some (update_heartbeat now w)"
    by (simp add: worker_heartbeat_def)
  with assms show ?thesis
    using available_workers_iff [OF assigner_wf_heartbeat [OF assms(1)], of i later now i]
    by (simp add: is_alive_def update_heartbeat_def worker_heartbeat_def Some)
qed

section \<open>Choosing a worker\<close>

lemma pick_least_loaded:
  assumes "min_by_key (load a) (available_workers now a) = Some w"
  shows "w \<in> set (available_workers now a) \<and>
    (\<forall>v \<in> set (available_workers now a). load a w \<le> load a v)"
  using min_by_key_Some [OF assms] .

lemma load_note_running:
  assumes "hm_get (workers a) w = Some s" and "finite (ws_running_jobs s)" and "i \<notin> ws_running_jobs s"
  shows "load (note_running w i a) w = Suc (load a w)"
  using assms by (simp add: load_def note_running_def)

lemma load_job_completed:
  assumes "hm_get (workers a) w = Some s" and "finite (ws_running_jobs s)" and "i \<in> ws_running_jobs s"
  shows "Suc (load (job_completed w i a) w) = load a w"
  using assms card_Suc_Diff1 [OF assms(2,3)] by (simp add: load_def job_completed_def del: card_Diff_insert)

lemma load_other:
  "v \<noteq> w \<Longrightarrow> load (note_running w i a) v = load a v"
  "v \<noteq> w \<Longrightarrow> load (job_completed w i a) v = load a v"
  by (simp_all add: load_def note_running_def job_completed_def)

lemma assign_next_job_some:
  assumes "queue_wf q" and "assign_next_job now a q = (a', q', Some (i, w))"
  shows "(\<exists>j. get_job q i = Some j \<and> j_status j = Pending \<and>
            get_job q' i = Some (j\<lparr>j_assigned_worker := Some w, j_status := Running\<rparr>))"
    and "w \<in> set (available_workers now a)"
    and "\<forall>v \<in> set (available_workers now a). load a w \<le> load a v"
    and "\<forall>k. k \<noteq> i \<longrightarrow> get_job q' k = get_job q k"
proof -
  from assms(2) obtain j js where p: "pending_jobs q = j # js"
    and w: "min_by_key (load a) (available_workers now a) = Some w"
    and i: "i = j_id j" and q': "q' = fst (assign_job (j_id j) w q)"
    by (auto simp: assign_next_job_def Let_def split: if_splits option.splits list.splits prod.splits)
  from pending_first [OF assms(1) p] i q' show "\<exists>j. get_job q i = Some j \<and> j_status j = Pending \<and>
      get_job q' i = Some (j\<lparr>j_assigned_worker := Some w, j_status := Running\<rparr>)"
    by (auto simp: get_job_updates)
  from pick_least_loaded [OF w] show "w \<in> set (available_workers now a)"
    and "\<forall>v \<in> set (available_workers now a). load a w \<le> load a v" by simp_all
  from i q' show "\<forall>k. k \<noteq> i \<longrightarrow> get_job q' k = get_job q k" by (simp add: get_job_updates)
qed

text \<open>No assignment exactly when there is no live worker or nothing is pending.\<close>

lemma assign_next_job_none:
  assumes "queue_wf q"
  shows "snd (snd (assign_next_job now a q)) = None \<longleftrightarrow>
    available_workers now a = [] \<or> pending_jobs q = []"
proof (cases "available_workers now a = [] \<or> pending_jobs q = []")
  case True
  then show ?thesis
    by (auto simp: assign_next_job_def Let_def split: option.splits)
next
  case False
  then obtain j js where p: "pending_jobs q = j # js" by (cases "pending_jobs q") auto
  from pending_first [OF assms p] have "snd (assign_job (j_id j) w q)" for w
    by (simp add: assign_job_def update_job_result_flag)
  with False p show ?thesis
    by (auto simp: assign_next_job_def Let_def split: option.splits prod.splits)
       (metis snd_conv)+
qed

end
