(* ===== verification/Scheduler.thy ===== *)
theory Scheduler
  imports Raft_Persist Raft_Replication Job_Assigner
begin

text \<open>
  The node that ties the parts together (\<open>Node\<close> of \<open>src/node.rs\<close>): the scheduler loop, which applies
  committed entries to the job queue and the worker registry and assigns jobs on the leader, the
  snapshots it builds and rebuilds from, log compaction, and the turns of the worker loop. Readings of
  the two clocks, the result of an execution and \<open>Uuid::as_simple\<close> are arguments.
\<close>

section \<open>The node\<close>

record 'db node =
  nd_raft :: "'db raft_node"
  nd_queue :: job_queue
  nd_assigner :: job_assigner
  nd_job_notify :: bool
  nd_worker_notify :: bool
  nd_draining :: bool

definition LOG_COMPACTION_THRESHOLD :: nat where
  "LOG_COMPACTION_THRESHOLD = 1000"

definition JOB_HISTORY_RETENTION_SECS :: nat where
  "JOB_HISTORY_RETENTION_SECS = 3600"

text \<open>\<open>Node::new\<close>; \<open>open_db\<close> is the database at a path. \<open>None\<close> where loading it panics.\<close>

definition node_new :: "'db kv \<Rightarrow> serde \<Rightarrow> (path \<Rightarrow> 'db) \<Rightarrow> instant \<Rightarrow> node_config \<Rightarrow> 'db node option" where
  "node_new K C open_db now config =
     do {
       raft \<leftarrow> (case data_dir config of
                  Some dir \<Rightarrow> restart K C config now (open_db dir)
                | None \<Rightarrow> Some (new_with_storage config None None now));
       Some \<lparr>nd_raft = raft, nd_queue = queue_new, nd_assigner = assigner_new 5000,
             nd_job_notify = False, nd_worker_notify = False, nd_draining = False\<rparr>
     }"

section \<open>Applying committed entries\<close>

text \<open>The state machine, with what applying an entry triggers: wake-ups and containers to remove.\<close>

record app =
  app_queue :: job_queue
  app_assigner :: job_assigner
  wake_assigner :: bool
  wake_worker :: bool
  kills :: "string list"

definition container_name :: "(uuid \<Rightarrow> string) \<Rightarrow> uuid \<Rightarrow> string" where
  "container_name simple i = ''nomad-'' @ simple i"

definition apply_submit :: "uuid \<Rightarrow> string \<Rightarrow> datetime \<Rightarrow> string option \<Rightarrow> job_queue \<Rightarrow> job_queue" where
  "apply_submit i cmd created img q =
     (if get_job q i = None then fst (add_job ((with_id i cmd created)\<lparr>j_image := img\<rparr>) q) else q)"

definition apply_update :: "job_status_update \<Rightarrow> job_queue \<Rightarrow> job_queue" where
  "apply_update u q =
     (if map_option j_status (get_job q (jsu_job_id u)) = Some Cancelled then q
      else fst (update_status_metadata (jsu_job_id u) (jsu_status u) (jsu_executed_by u) (jsu_exit_code u)
             (jsu_completed_at u) q))"

definition apply_assign :: "instant \<Rightarrow> uuid \<Rightarrow> u64 \<Rightarrow> app \<Rightarrow> app" where
  "apply_assign now i w a =
     (if map_option j_status (get_job (app_queue a) i) = Some Pending
      then a\<lparr>app_queue := fst (assign_job i w (app_queue a)),
             app_assigner := worker_heartbeat now w (app_assigner a)\<rparr>
      else a)"

definition apply_cancel :: "node_id \<Rightarrow> (uuid \<Rightarrow> string) \<Rightarrow> datetime \<Rightarrow> uuid \<Rightarrow> app \<Rightarrow> app" where
  "apply_cancel me simple utc i a =
     (case get_job (app_queue a) i of
        Some j \<Rightarrow>
          if job_active j
          then a\<lparr>app_queue := fst (cancel_job i utc (app_queue a)),
                 kills := kills a @ (if j_status j = Running \<and> j_assigned_worker j = Some me
                                     then [container_name simple i] else [])\<rparr>
          else a
      | None \<Rightarrow> a)"

fun apply_command :: "node_id \<Rightarrow> (uuid \<Rightarrow> string) \<Rightarrow> datetime \<Rightarrow> instant \<Rightarrow> command \<Rightarrow> app \<Rightarrow> app" where
  "apply_command me simple utc now (SubmitJob i cmd created img) a =
     a\<lparr>app_queue := apply_submit i cmd created img (app_queue a), wake_assigner := True\<rparr>"
| "apply_command me simple utc now (UpdateJobStatus i st b code t) a =
     a\<lparr>app_queue := apply_update \<lparr>jsu_job_id = i, jsu_status = st, jsu_executed_by = b, jsu_exit_code = code,
                                   jsu_completed_at = t\<rparr> (app_queue a)\<rparr>"
| "apply_command me simple utc now (BatchUpdateJobStatus us) a =
     a\<lparr>app_queue := foldl (\<lambda>q u. apply_update u q) (app_queue a) us\<rparr>"
| "apply_command me simple utc now (RegisterWorker w) a =
     a\<lparr>app_assigner := register_worker now w (app_assigner a), wake_assigner := True\<rparr>"
| "apply_command me simple utc now (AssignJob i w) a =
     (let a1 = apply_assign now i w a in if w = me then a1\<lparr>wake_worker := True\<rparr> else a1)"
| "apply_command me simple utc now (CancelJob i) a = apply_cancel me simple utc i a"
| "apply_command me simple utc now Noop a = a"

definition apply_entries ::
  "node_id \<Rightarrow> (uuid \<Rightarrow> string) \<Rightarrow> datetime \<Rightarrow> instant \<Rightarrow> log_entry list \<Rightarrow> app \<Rightarrow> app" where
  "apply_entries me simple utc now es a = foldl (\<lambda>a e. apply_command me simple utc now (le_command e) a) a es"

section \<open>Snapshots and compaction\<close>

definition build_snapshot :: "u64 \<Rightarrow> u64 \<Rightarrow> job_queue \<Rightarrow> job_assigner \<Rightarrow> raft_snapshot" where
  "build_snapshot idx trm q a =
     \<lparr>last_included_index = idx, last_included_term = trm, sn_jobs = map to_snapshot (all_jobs q),
      sn_workers = map ws_id (all_workers a)\<rparr>"

definition rebuild_from_snapshot :: "instant \<Rightarrow> raft_snapshot \<Rightarrow> job_queue \<times> job_assigner \<Rightarrow> job_queue \<times> job_assigner" where
  "rebuild_from_snapshot now sn qa =
     (foldl (\<lambda>q sj. fst (add_job (from_snapshot sj) q)) (queue_clear (fst qa)) (sn_jobs sn),
      foldl (\<lambda>a w. register_worker now w a) (assigner_clear (snd qa)) (sn_workers sn))"

definition last_applied_term :: "raft_state \<Rightarrow> u64" where
  "last_applied_term s =
     (case get_entry s (last_applied s) of
        Some e \<Rightarrow> le_term e
      | None \<Rightarrow> (case snapshot s of
                  Some sn \<Rightarrow> if last_included_index sn = last_applied s then last_included_term sn else 0
                | None \<Rightarrow> 0))"

text \<open>
  The compaction of the log, in the three parts between which the code gives up the locks: whether to compact and up to
  where, the snapshot of the tables (\<open>build_snapshot\<close>), and the compaction with what has been stored of it.
\<close>

definition compaction_point :: "raft_state \<Rightarrow> (u64 \<times> u64) option" where
  "compaction_point s =
     (if length (rlog s) < LOG_COMPACTION_THRESHOLD \<or> last_applied s = 0 then None
      else Some (last_applied s, last_applied_term s))"

definition compact_with :: "'db kv \<Rightarrow> serde \<Rightarrow> raft_snapshot \<Rightarrow> 'db raft_node \<Rightarrow> 'db raft_node option" where
  "compact_with K C sn n =
     (let s = compact_log sn (rn_state n); n' = n\<lparr>rn_state := s\<rparr> in
      case snapshot s of
        Some sn' \<Rightarrow> with_storage (save_snapshot K C sn' (log_offset s)) n'
      | None \<Rightarrow> Some n')"

text \<open>The whole, when nothing comes between.\<close>

definition maybe_compact_log :: "'db kv \<Rightarrow> serde \<Rightarrow> 'db node \<Rightarrow> 'db node option" where
  "maybe_compact_log K C n =
     (case compaction_point (rn_state (nd_raft n)) of
        None \<Rightarrow> Some n
      | Some (idx, trm) \<Rightarrow> map_option (\<lambda>raft. n\<lparr>nd_raft := raft\<rparr>)
          (compact_with K C (build_snapshot idx trm (nd_queue n) (nd_assigner n)) (nd_raft n)))"

section \<open>The scheduler loop\<close>

text \<open>The branch of the commit notification. A pending snapshot replaces the state machine.\<close>

definition on_commit ::
  "'db kv \<Rightarrow> serde \<Rightarrow> (uuid \<Rightarrow> string) \<Rightarrow> datetime \<Rightarrow> instant \<Rightarrow> 'db node \<Rightarrow> ('db node \<times> string list) option" where
  "on_commit K C simple utc now n =
     (case take_pending_snapshot (nd_raft n) of
        (raft, Some sn) \<Rightarrow>
          let (q, a) = rebuild_from_snapshot now sn (nd_queue n, nd_assigner n)
          in Some (n\<lparr>nd_raft := raft, nd_queue := q, nd_assigner := a\<rparr>, [])
      | (raft, None) \<Rightarrow>
          let (raft', es) = get_committed_entries raft;
              a = apply_entries (nc_node_id (rn_config raft)) simple utc now es
                    \<lparr>app_queue = nd_queue n, app_assigner = nd_assigner n, wake_assigner = False,
                     wake_worker = False, kills = []\<rparr>;
              n' = n\<lparr>nd_raft := raft', nd_queue := app_queue a, nd_assigner := app_assigner a,
                     nd_job_notify := nd_job_notify n \<or> wake_assigner a,
                     nd_worker_notify := nd_worker_notify n \<or> wake_worker a\<rparr>
          in map_option (\<lambda>n. (n, kills a)) (maybe_compact_log K C n'))"

definition on_cleanup :: "datetime \<Rightarrow> 'db node \<Rightarrow> 'db node" where
  "on_cleanup utc n = n\<lparr>nd_queue := fst (cleanup_finished_jobs JOB_HISTORY_RETENTION_SECS utc (nd_queue n))\<rparr>"

text \<open>
  The assignment loop of the leader: \<open>clock k\<close> is the reading of the \<open>k\<close>-th turn. It returns the
  commands it sent to the Raft node, \<open>None\<close> when the fuel runs out.
\<close>

definition next_assignment :: "instant \<Rightarrow> job_queue \<Rightarrow> job_assigner \<Rightarrow> (uuid \<times> u64) option" where
  "next_assignment now q a =
     (case (pending_jobs q, min_by_key (load a) (available_workers now a)) of
        (j # _, Some w) \<Rightarrow> Some (j_id j, w)
      | _ \<Rightarrow> None)"

fun assign_loop ::
  "nat \<Rightarrow> (nat \<Rightarrow> instant) \<Rightarrow> nat \<Rightarrow> job_queue \<Rightarrow> job_assigner \<Rightarrow> command list
    \<Rightarrow> (job_queue \<times> job_assigner \<times> command list) option" where
  "assign_loop 0 clock k q a sent = None"
| "assign_loop (Suc fuel) clock k q a sent =
     (case next_assignment (clock k) q a of
        Some (i, w) \<Rightarrow>
          assign_loop fuel clock (Suc k) (fst (assign_job i w q)) (note_running w i a) (sent @ [AssignJob i w])
      | None \<Rightarrow> Some (q, a, sent))"

definition on_job_notify :: "(nat \<Rightarrow> instant) \<Rightarrow> 'db node \<Rightarrow> ('db node \<times> command list) option" where
  "on_job_notify clock n =
     (let n1 = n\<lparr>nd_job_notify := False\<rparr> in
      if \<not> is_leader (nd_raft n) then Some (n1, [])
      else map_option (\<lambda>(q, a, sent). (n1\<lparr>nd_queue := q, nd_assigner := a\<rparr>, sent))
             (assign_loop (Suc (length (pending_jobs (nd_queue n)))) clock 0 (nd_queue n) (nd_assigner n) []))"

end
