(* ===== verification/Utf8.thy ===== *)
theory Utf8
  imports Rust_Str
begin

text \<open>
  UTF-8 as the Rust standard library reads it: the decoding of output bytes by
  \<open>String::from_utf8_lossy\<close>, the strings that are valid UTF-8, and slicing at character boundaries.
\<close>

section \<open>Decoding\<close>

definition byte :: "char \<Rightarrow> nat" where
  "byte c = of_char c"

definition continuation :: "char \<Rightarrow> bool" where
  "continuation c \<longleftrightarrow> 0x80 \<le> byte c \<and> byte c \<le> 0xBF"

text \<open>The admissible second bytes after a lead byte; no other byte starts a longer character.\<close>

definition second_range :: "nat \<Rightarrow> (nat \<times> nat) option" where
  "second_range b =
     (if 0xC2 \<le> b \<and> b \<le> 0xDF then Some (0x80, 0xBF)
      else if b = 0xE0 then Some (0xA0, 0xBF)
      else if b = 0xED then Some (0x80, 0x9F)
      else if 0xE1 \<le> b \<and> b \<le> 0xEF then Some (0x80, 0xBF)
      else if b = 0xF0 then Some (0x90, 0xBF)
      else if 0xF1 \<le> b \<and> b \<le> 0xF3 then Some (0x80, 0xBF)
      else if b = 0xF4 then Some (0x80, 0x8F)
      else None)"

text \<open>
  The first chunk of a byte string: its length, and whether it is a character. A chunk that is not is
  the longest prefix of a character that went wrong, or a single byte.
\<close>

fun utf8_chunk :: "string \<Rightarrow> nat \<times> bool" where
  "utf8_chunk [] = (0, True)"
| "utf8_chunk (c # cs) =
     (if byte c < 0x80 then (1, True)
      else case second_range (byte c) of
             None \<Rightarrow> (1, False)
           | Some (lo, hi) \<Rightarrow>
               (case cs of
                  [] \<Rightarrow> (1, False)
                | d # ds \<Rightarrow>
                    if \<not> (lo \<le> byte d \<and> byte d \<le> hi) then (1, False)
                    else if byte c < 0xE0 then (2, True)
                    else (case ds of
                            [] \<Rightarrow> (2, False)
                          | e # es \<Rightarrow>
                              if \<not> continuation e then (2, False)
                              else if byte c < 0xF0 then (3, True)
                              else (case es of
                                      [] \<Rightarrow> (3, False)
                                    | f # fs \<Rightarrow> if continuation f then (4, True) else (3, False)))))"

lemma utf8_chunk_pos: "s \<noteq> [] \<Longrightarrow> 0 < fst (utf8_chunk s)"
  by (cases s) (auto split: option.split list.split)

definition replacement :: string where
  "replacement = [CHR 0xEF, CHR 0xBF, CHR 0xBD]"

function from_utf8_lossy :: "string \<Rightarrow> string" where
  "from_utf8_lossy s =
     (if s = [] then []
      else let (n, ok) = utf8_chunk s
           in (if ok then take n s else replacement) @ from_utf8_lossy (drop n s))"
  by pat_completeness auto
termination
proof (relation "measure length")
  fix s :: string and x n ok
  assume "s \<noteq> []" and x: "x = utf8_chunk s" and "(n, ok) = x"
  then have "0 < n" using utf8_chunk_pos [of s] by (simp add: x [symmetric] prod_eq_iff)
  with \<open>s \<noteq> []\<close> show "(drop n s, s) \<in> measure length" by simp
qed simp

function valid_utf8 :: "string \<Rightarrow> bool" where
  "valid_utf8 s \<longleftrightarrow>
     (if s = [] then True
      else snd (utf8_chunk s) \<and> valid_utf8 (drop (fst (utf8_chunk s)) s))"
  by pat_completeness auto
termination
  by (relation "measure length") (simp_all add: utf8_chunk_pos)

declare from_utf8_lossy.simps [simp del] valid_utf8.simps [simp del] utf8_chunk.simps(2) [simp del]

lemma from_utf8_lossy_nil [simp]: "from_utf8_lossy [] = []"
  by (simp add: from_utf8_lossy.simps)

lemma valid_utf8_nil [simp]: "valid_utf8 []"
  by (simp add: valid_utf8.simps)

lemma utf8_chunk_le: "fst (utf8_chunk s) \<le> length s"
  by (cases s) (auto simp: utf8_chunk.simps split: option.split list.split)

text \<open>Whether a chunk is a character depends on its own bytes only.\<close>

lemma utf8_chunk_take:
  assumes "utf8_chunk s = (n, True)" and "s \<noteq> []"
  shows "utf8_chunk (take n s @ t) = (n, True)"
proof (cases s)
  case (Cons c cs)
  with assms show ?thesis
    by (auto simp: utf8_chunk.simps split: if_splits option.splits list.splits)
qed (use assms in simp)

lemma valid_utf8_char:
  assumes "utf8_chunk s = (n, True)" and "s \<noteq> []" and "valid_utf8 t"
  shows "valid_utf8 (take n s @ t)"
proof -
  have "n \<le> length s" and "0 < n" using utf8_chunk_le [of s] utf8_chunk_pos [of s] assms by auto
  then have "drop n (take n s @ t) = t" and "take n s @ t \<noteq> []" using \<open>s \<noteq> []\<close> by auto
  with utf8_chunk_take [OF assms(1,2), of t] assms(3) show ?thesis by (simp add: valid_utf8.simps [of "take n s @ t"])
qed

lemma utf8_chunk_replacement: "utf8_chunk replacement = (3, True)"
  by (simp add: replacement_def utf8_chunk.simps byte_def continuation_def second_range_def)

section \<open>Lossy decoding is a projection on the valid strings\<close>

lemma from_utf8_lossy_valid: "valid_utf8 (from_utf8_lossy s)"
proof (induction s rule: from_utf8_lossy.induct)
  case (1 s)
  show ?case
  proof (cases "s = []")
    case False
    obtain n ok where c: "utf8_chunk s = (n, ok)" by fastforce
    with "1.IH" [OF False] have "valid_utf8 (from_utf8_lossy (drop n s))" by simp
    then show ?thesis
      using False c valid_utf8_char [of s n] valid_utf8_char [OF utf8_chunk_replacement]
      by (cases ok) (simp_all add: from_utf8_lossy.simps [of s] replacement_def)
  qed simp
qed

lemma from_utf8_lossy_id: "valid_utf8 s \<Longrightarrow> from_utf8_lossy s = s"
proof (induction s rule: valid_utf8.induct)
  case (1 s)
  show ?case
  proof (cases "s = []")
    case False
    with "1.prems" have "snd (utf8_chunk s)" "valid_utf8 (drop (fst (utf8_chunk s)) s)"
      by (simp_all add: valid_utf8.simps [of s])
    with "1.IH" False show ?thesis by (simp add: from_utf8_lossy.simps [of s] split_beta)
  qed simp
qed

section \<open>Slicing\<close>

text \<open>\<open>&s[..k]\<close>, which panics (\<open>None\<close>) unless \<open>k\<close> is a character boundary.\<close>

definition is_char_boundary :: "string \<Rightarrow> nat \<Rightarrow> bool" where
  "is_char_boundary s k \<longleftrightarrow> k = 0 \<or> k = length s \<or> k < length s \<and> \<not> continuation (s ! k)"

definition str_prefix :: "nat \<Rightarrow> string \<Rightarrow> string option" where
  "str_prefix k s = (if is_char_boundary s k then Some (take k s) else None)"

end
