(* ===== verification/Executor.thy ===== *)
theory Executor
  imports Job Config Utf8
begin

text \<open>
  The execution of a job in a container (\<open>JobExecutor\<close> of \<open>src/worker/executor.rs\<close>): the command line
  given to docker and the reading of its outcome. Docker itself is an argument, a function from the
  argument list to what comes back; so is \<open>Uuid::as_simple\<close>.
\<close>

section \<open>Types\<close>

record execution_result =
  er_job_id :: uuid
  er_status :: job_status
  er_exit_code :: "i32 option"
  er_output :: "string option"
  er_error :: "string option"

text \<open>An exit status without a code is a process killed by a signal.\<close>

record process_result =
  pr_stdout :: string
  pr_stderr :: string
  pr_code :: "i32 option"

datatype docker_run =
    SpawnFailed string
  | WaitFailed string
  | TimedOut
  | Finished process_result

section \<open>Operations\<close>

definition show_i32 :: "i32 \<Rightarrow> string" where
  "show_i32 i = (if i < 0 then ''-'' @ show_nat (nat (- i)) else show_nat (nat i))"

definition show_exit_code :: "i32 option \<Rightarrow> string" where
  "show_exit_code c = (case c of None \<Rightarrow> ''None'' | Some i \<Rightarrow> ''Some('' @ show_i32 i @ '')'')"

definition docker_args :: "(uuid \<Rightarrow> string) \<Rightarrow> sandbox_config \<Rightarrow> uuid \<Rightarrow> string \<Rightarrow> string option \<Rightarrow> string list" where
  "docker_args simple c i command img =
     [''run'', ''--rm'', ''--name'', ''nomad-'' @ simple i] @
     (if network_disabled c then [''--network=none''] else []) @
     (case memory_limit c of Some l \<Rightarrow> [''--memory='' @ l] | None \<Rightarrow> []) @
     (case cpu_limit c of Some l \<Rightarrow> [''--cpus='' @ l] | None \<Rightarrow> []) @
     [''--cap-drop=ALL'', ''--security-opt=no-new-privileges'', ''--read-only''] @
     [(case img of Some x \<Rightarrow> x | None \<Rightarrow> sb_image c), ''sh'', ''-c'', command]"

definition failed_result :: "uuid \<Rightarrow> string \<Rightarrow> execution_result" where
  "failed_result i e = \<lparr>er_job_id = i, er_status = Failed, er_exit_code = None, er_output = None, er_error = Some e\<rparr>"

definition process_output :: "uuid \<Rightarrow> string + process_result \<Rightarrow> execution_result" where
  "process_output i r =
     (case r of
        Inl e \<Rightarrow> failed_result i e
      | Inr p \<Rightarrow>
          let out = from_utf8_lossy (pr_stdout p); err = from_utf8_lossy (pr_stderr p);
              (st, e) = (if pr_code p = Some 0 then (Completed, None)
                         else (Failed, Some (if err = [] then ''Exit code: '' @ show_exit_code (pr_code p) else err)))
          in \<lparr>er_job_id = i, er_status = st, er_exit_code = pr_code p,
              er_output = (if out = [] then None else Some out), er_error = e\<rparr>)"

text \<open>The second component is the command lines of the clean-up after a timeout.\<close>

definition execute ::
  "(string list \<Rightarrow> docker_run) \<Rightarrow> (uuid \<Rightarrow> string) \<Rightarrow> sandbox_config \<Rightarrow> uuid \<Rightarrow> string
    \<Rightarrow> string option \<Rightarrow> execution_result \<times> string list list" where
  "execute docker simple c i command img =
     (case docker (docker_args simple c i command img) of
        SpawnFailed e \<Rightarrow> (failed_result i e, [])
      | WaitFailed e \<Rightarrow> (process_output i (Inl e), [])
      | Finished p \<Rightarrow> (process_output i (Inr p), [])
      | TimedOut \<Rightarrow>
          (failed_result i (''Timed out after '' @ show_nat (timeout_secs c) @ ''s''),
           [[''rm'', ''-f'', ''nomad-'' @ simple i]]))"

section \<open>Outcomes\<close>

text \<open>A job is completed exactly when docker ran to the end with exit code zero; else it failed.\<close>

lemma execute_completed_iff:
  "er_status (fst (execute docker simple c i cmd img)) = Completed \<longleftrightarrow>
     (\<exists>p. docker (docker_args simple c i cmd img) = Finished p \<and> pr_code p = Some 0)"
  by (auto simp: execute_def process_output_def failed_result_def Let_def split: docker_run.split)

lemma execute_terminal:
  "er_status (fst (execute docker simple c i cmd img)) \<in> {Completed, Failed}"
  by (auto simp: execute_def process_output_def failed_result_def Let_def split: docker_run.split)

text \<open>A failure always comes with a reason, a success never does.\<close>

lemma execute_error_iff:
  "er_error (fst (execute docker simple c i cmd img)) = None \<longleftrightarrow>
     er_status (fst (execute docker simple c i cmd img)) = Completed"
  by (auto simp: execute_def process_output_def failed_result_def Let_def split: docker_run.split)

lemma execute_id: "er_job_id (fst (execute docker simple c i cmd img)) = i"
  by (auto simp: execute_def process_output_def failed_result_def Let_def split: docker_run.split)

text \<open>
  Whatever the job's command is, it is one argument, the last, of a shell inside the container, and
  the options before the image do not depend on it.
\<close>

definition sandbox_options :: "(uuid \<Rightarrow> string) \<Rightarrow> sandbox_config \<Rightarrow> uuid \<Rightarrow> string list" where
  "sandbox_options simple c i =
     [''run'', ''--rm'', ''--name'', ''nomad-'' @ simple i] @
     (if network_disabled c then [''--network=none''] else []) @
     (case memory_limit c of Some l \<Rightarrow> [''--memory='' @ l] | None \<Rightarrow> []) @
     (case cpu_limit c of Some l \<Rightarrow> [''--cpus='' @ l] | None \<Rightarrow> []) @
     [''--cap-drop=ALL'', ''--security-opt=no-new-privileges'', ''--read-only'']"

lemma docker_args_command:
  "docker_args simple c i cmd img =
     sandbox_options simple c i @ [(case img of Some x \<Rightarrow> x | None \<Rightarrow> sb_image c), ''sh'', ''-c'', cmd]"
  by (simp add: docker_args_def sandbox_options_def)

lemma sandbox_options_hardened:
  "{''--cap-drop=ALL'', ''--security-opt=no-new-privileges'', ''--read-only''} \<subseteq> set (sandbox_options simple c i)"
  "network_disabled c \<Longrightarrow> ''--network=none'' \<in> set (sandbox_options simple c i)"
  "memory_limit c = Some l \<Longrightarrow> ''--memory='' @ l \<in> set (sandbox_options simple c i)"
  by (auto simp: sandbox_options_def)

text \<open>
  The image is not separated from the options: an image name that starts with a dash is read by
  docker as one more option.
\<close>

lemma image_can_be_an_option:
  "docker_args simple c i cmd (Some ''--privileged'') =
     sandbox_options simple c i @ [''--privileged'', ''sh'', ''-c'', cmd]"
  by (simp add: docker_args_command)

end
