(* ===== verification/Worker_Loop.thy ===== *)
theory Worker_Loop
  imports Scheduler Executor
begin

text \<open>
  The worker loop of the node (\<open>worker_loop\<close> of \<open>src/node.rs\<close>): registration, the heartbeat to the
  current leader, the execution of assigned jobs and the replication of their results. Between the
  execution of a job and the recording of its result other operations may run, so recording is a
  function of its own.
\<close>

section \<open>Start and heartbeat\<close>

definition worker_start :: "instant \<Rightarrow> 'db node \<Rightarrow> 'db node \<times> command" where
  "worker_start now n =
     (let me = nc_node_id (rn_config (nd_raft n))
      in (n\<lparr>nd_assigner := register_worker now me (nd_assigner n)\<rparr>, RegisterWorker me))"

text \<open>Which leader the loop holds a connection to; \<open>connect\<close> tells whether dialling succeeds.\<close>

definition leader_addr :: "'db raft_node \<Rightarrow> node_id \<Rightarrow> string option" where
  "leader_addr r l =
     map_option (\<lambda>p. ''http://'' @ pc_addr p) (List.find (\<lambda>p. pc_node_id p = l) (nc_peers (rn_config r)))"

definition reconnect :: "(string \<Rightarrow> bool) \<Rightarrow> 'db raft_node \<Rightarrow> node_id \<Rightarrow> node_id option \<Rightarrow> node_id option" where
  "reconnect connect r l cached =
     (if cached = Some l then cached
      else case leader_addr r l of
             Some addr \<Rightarrow> if connect addr then Some l else cached
           | None \<Rightarrow> cached)"

datatype heartbeat = LocalBeat | RemoteBeat node_id | NoBeat

definition send_heartbeat ::
  "(string \<Rightarrow> bool) \<Rightarrow> instant \<Rightarrow> node_id option \<Rightarrow> 'db node \<Rightarrow> 'db node \<times> node_id option \<times> heartbeat" where
  "send_heartbeat connect now cached n =
     (let r = nd_raft n; me = nc_node_id (rn_config r) in
      if is_leader r then (n\<lparr>nd_assigner := worker_heartbeat now me (nd_assigner n)\<rparr>, cached, LocalBeat)
      else case get_leader_id r of
             Some l \<Rightarrow>
               (case reconnect connect r l cached of
                  Some c \<Rightarrow> (n, Some c, RemoteBeat c)
                | None \<Rightarrow> (n, None, NoBeat))
           | None \<Rightarrow> (n, cached, NoBeat))"

section \<open>Recording results\<close>

definition record_result ::
  "datetime \<Rightarrow> uuid \<Rightarrow> execution_result \<Rightarrow> 'db node \<Rightarrow> 'db node \<times> job_status_update list" where
  "record_result utc i r n =
     (let me = nc_node_id (rn_config (nd_raft n));
          a = job_completed me i (nd_assigner n) in
      if map_option j_status (get_job (nd_queue n) i) = Some Cancelled
      then (n\<lparr>nd_assigner := a\<rparr>, [])
      else (n\<lparr>nd_queue := fst (update_job_result i (er_status r) me (er_exit_code r) (er_output r) (er_error r)
                                 utc (nd_queue n)),
              nd_assigner := a\<rparr>,
            [\<lparr>jsu_job_id = i, jsu_status = er_status r, jsu_executed_by = me, jsu_exit_code = er_exit_code r,
              jsu_completed_at = Some utc\<rparr>]))"

text \<open>A turn that nothing interrupts: all jobs assigned to this node, each executed and recorded.\<close>

fun run_jobs ::
  "(uuid \<Rightarrow> string \<Rightarrow> string option \<Rightarrow> execution_result) \<Rightarrow> datetime \<Rightarrow> (uuid \<times> string \<times> string option) list
    \<Rightarrow> 'db node \<Rightarrow> 'db node \<times> job_status_update list" where
  "run_jobs exec utc [] n = (n, [])"
| "run_jobs exec utc ((i, cmd, img) # js) n =
     (let (n1, us) = record_result utc i (exec i cmd img) n;
          (n2, vs) = run_jobs exec utc js n1
      in (n2, us @ vs))"

definition worker_turn ::
  "(uuid \<Rightarrow> string \<Rightarrow> string option \<Rightarrow> execution_result) \<Rightarrow> datetime \<Rightarrow> 'db node \<Rightarrow> 'db node \<times> job_status_update list" where
  "worker_turn exec utc n =
     run_jobs exec utc (jobs_assigned_to (nc_node_id (rn_config (nd_raft n))) (nd_queue n)) n"

section \<open>Replicating results\<close>

definition updates_command :: "job_status_update list \<Rightarrow> command" where
  "updates_command us =
     (case us of
        [u] \<Rightarrow> UpdateJobStatus (jsu_job_id u) (jsu_status u) (jsu_executed_by u) (jsu_exit_code u) (jsu_completed_at u)
      | _ \<Rightarrow> BatchUpdateJobStatus us)"

fun worker_status_number :: "job_status \<Rightarrow> int" where
  "worker_status_number Pending = proto_status_number PPending"
| "worker_status_number Running = proto_status_number PRunning"
| "worker_status_number Completed = proto_status_number PCompleted"
| "worker_status_number Failed = proto_status_number PFailed"
| "worker_status_number Cancelled = proto_status_number PCancelled"

definition forward_update :: "ext \<Rightarrow> job_status_update \<Rightarrow> proto_update" where
  "forward_update X u =
     \<lparr>pu_job_id = show_uuid X (jsu_job_id u), pu_status = worker_status_number (jsu_status u),
      pu_executed_by = jsu_executed_by u, pu_exit_code = jsu_exit_code u,
      pu_completed_at_ms = map_option (to_millis X) (jsu_completed_at u)\<rparr>"

datatype flush = Propose command | Forward node_id "proto_update list" | Dropped

definition flush_updates :: "ext \<Rightarrow> node_id option \<Rightarrow> job_status_update list \<Rightarrow> 'db node \<Rightarrow> flush option" where
  "flush_updates X cached us n =
     (if us = [] then None
      else Some (if is_leader (nd_raft n) then Propose (updates_command us)
                 else case cached of
                        Some l \<Rightarrow> Forward l (map (forward_update X) us)
                      | None \<Rightarrow> Dropped))"

section \<open>Lemmas\<close>

lemma record_result_wf:
  "queue_wf (nd_queue n) \<Longrightarrow> queue_wf (nd_queue (fst (record_result utc i r n)))"
  by (auto simp: record_result_def Let_def queue_wf_updates)

text \<open>A result never overwrites a cancellation, and it never touches another job.\<close>

lemma record_result_job:
  "get_job (nd_queue (fst (record_result utc i r n))) k =
     (case get_job (nd_queue n) k of
        None \<Rightarrow> None
      | Some j \<Rightarrow> Some (if k = i \<and> j_status j \<noteq> Cancelled
          then j\<lparr>j_status := er_status r, j_executed_by := Some (nc_node_id (rn_config (nd_raft n))),
                 j_exit_code := er_exit_code r, j_output := er_output r, j_error := er_error r,
                 j_completed_at := Some utc\<rparr> else j))"
  by (auto simp: record_result_def Let_def get_job_updates split: option.split)

text \<open>One command carries all updates, and applying it is applying them one after the other.\<close>

lemma apply_updates_command:
  "app_queue (apply_command me simple utc now (updates_command us) a) =
     foldl (\<lambda>q u. apply_update u q) (app_queue a) us"
proof -
  consider "us = []" | u where "us = [u]" | u v vs where "us = u # v # vs" by (metis list.exhaust)
  then show ?thesis
  proof cases
    case (2 u)
    then show ?thesis by (cases u) (simp add: updates_command_def)
  qed (simp_all add: updates_command_def)
qed

lemma forward_update_proto: "forward_update X u = update_to_proto X u"
  by (cases "jsu_status u")
     (simp_all add: forward_update_def update_to_proto_def)

text \<open>A whole turn: every job assigned to the node and running gets the result of its execution.\<close>

definition with_result :: "datetime \<Rightarrow> node_id \<Rightarrow> execution_result \<Rightarrow> job \<Rightarrow> job" where
  "with_result utc me r j =
     j\<lparr>j_status := er_status r, j_executed_by := Some me, j_exit_code := er_exit_code r, j_output := er_output r,
       j_error := er_error r, j_completed_at := Some utc\<rparr>"

lemma record_result_frame: "nd_raft (fst (record_result utc i r n)) = nd_raft n"
  by (simp add: record_result_def Let_def)

lemma run_jobs_get:
  assumes "distinct (map fst js)"
  shows "get_job (nd_queue (fst (run_jobs exec utc js n))) k =
    map_option (\<lambda>j. case map_of js k of
        Some (cmd, img) \<Rightarrow> if j_status j = Cancelled then j
          else with_result utc (nc_node_id (rn_config (nd_raft n))) (exec k cmd img) j
      | None \<Rightarrow> j) (get_job (nd_queue n) k)"
  using assms
proof (induction js arbitrary: n)
  case (Cons a js)
  obtain i cmd img where a: "a = (i, cmd, img)" by (cases a)
  let ?n = "fst (record_result utc i (exec i cmd img) n)"
  have ih: "get_job (nd_queue (fst (run_jobs exec utc js ?n))) k =
      map_option (\<lambda>j. case map_of js k of
          Some (cmd, img) \<Rightarrow> if j_status j = Cancelled then j
            else with_result utc (nc_node_id (rn_config (nd_raft n))) (exec k cmd img) j
        | None \<Rightarrow> j) (get_job (nd_queue ?n) k)"
    using Cons.IH [of ?n, unfolded record_result_frame] Cons.prems by simp
  have none: "map_of js i = None" using Cons.prems a by (auto simp: map_of_eq_None_iff)
  have st: "fst (run_jobs exec utc (a # js) n) = fst (run_jobs exec utc js ?n)"
    by (simp add: a split_beta Let_def)
  show ?case
    unfolding st ih record_result_job
    using none by (cases "get_job (nd_queue n) k") (auto simp: a with_result_def split: option.split)
qed (simp add: option.map_ident)

lemma assigned_ids_distinct: "queue_wf q \<Longrightarrow> distinct (map fst (jobs_assigned_to w q))"
  using hm_values_ids_distinct [of q] by (simp add: jobs_assigned_to_def comp_def distinct_map_filter)

lemma assigned_map_of:
  assumes wf: "queue_wf q" and j: "get_job q i = Some j"
  shows "map_of (jobs_assigned_to w q) i =
    (if j_assigned_worker j = Some w \<and> j_status j = Running then Some (j_command j, j_image j) else None)"
proof (cases "j_assigned_worker j = Some w \<and> j_status j = Running")
  case True
  then have "(i, j_command j, j_image j) \<in> set (jobs_assigned_to w q)" using jobs_assigned_to_iff [OF wf] j by auto
  with True assigned_ids_distinct [OF wf] show ?thesis by (simp add: map_of_is_SomeI)
next
  case False
  have "i \<notin> fst ` set (jobs_assigned_to w q)"
  proof
    assume "i \<in> fst ` set (jobs_assigned_to w q)"
    then obtain c img where "(i, c, img) \<in> set (jobs_assigned_to w q)" by auto
    with jobs_assigned_to_iff [OF wf] j False show False by auto
  qed
  then show ?thesis using False by (auto simp: map_of_eq_None_iff)
qed

lemma worker_turn_get:
  assumes "queue_wf (nd_queue n)"
  shows "get_job (nd_queue (fst (worker_turn exec utc n))) i =
    map_option (\<lambda>j. if j_assigned_worker j = Some (nc_node_id (rn_config (nd_raft n))) \<and> j_status j = Running
      then with_result utc (nc_node_id (rn_config (nd_raft n))) (exec i (j_command j) (j_image j)) j else j)
      (get_job (nd_queue n) i)"
  using assigned_map_of [OF assms] unfolding worker_turn_def run_jobs_get [OF assigned_ids_distinct [OF assms]]
  by (cases "get_job (nd_queue n) i") auto

end
