(* ===== verification/State_Machine.thy ===== *)
theory State_Machine
  imports Worker_Loop
begin

text \<open>
  The replicated state machine: what applying committed entries (\<open>scheduler_loop\<close> of \<open>src/node.rs\<close>) keeps
  and guarantees. Replicas that apply the same entries agree on everything an entry determines, a
  cancelled job stays cancelled, a snapshot restores the state machine, and the assignment loop of the
  leader ends with nothing left to assign.
\<close>

section \<open>Invariants of applying\<close>

text \<open>An entry is applied in the environment of a node: its id, the clocks and the name of containers.\<close>

record apply_env =
  env_me :: node_id
  env_simple :: "uuid \<Rightarrow> string"
  env_utc :: datetime
  env_now :: instant

definition apply_in :: "app \<Rightarrow> apply_env \<times> command \<Rightarrow> app" where
  "apply_in a ev = (case ev of (e, c) \<Rightarrow> apply_command (env_me e) (env_simple e) (env_utc e) (env_now e) c a)"

definition app_wf :: "app \<Rightarrow> bool" where
  "app_wf a \<longleftrightarrow> queue_wf (app_queue a) \<and> assigner_wf (app_assigner a)"

lemma apply_submit_wf: "queue_wf q \<Longrightarrow> queue_wf (apply_submit i cmd t img q)"
  by (simp add: apply_submit_def queue_wf_add)

lemma apply_update_wf: "queue_wf q \<Longrightarrow> queue_wf (apply_update u q)"
  by (simp add: apply_update_def queue_wf_updates)

lemma foldl_keeps: "P q \<Longrightarrow> (\<And>q u. P q \<Longrightarrow> P (f q u)) \<Longrightarrow> P (foldl f q us)"
  by (induction us arbitrary: q) auto

lemma apply_updates_wf: "queue_wf q \<Longrightarrow> queue_wf (foldl (\<lambda>q u. apply_update u q) q us)"
  by (erule foldl_keeps [where P = queue_wf]) (rule apply_update_wf)

lemma apply_in_wf: "app_wf a \<Longrightarrow> app_wf (apply_in a ev)"
proof -
  assume wf: "app_wf a"
  obtain e c where ev: "ev = (e, c)" by (cases ev)
  show ?thesis
    using wf unfolding ev apply_in_def app_wf_def
    by (cases c) (auto simp: apply_submit_wf apply_update_wf apply_updates_wf apply_assign_def apply_cancel_def
        Let_def queue_wf_updates queue_wf_cancel assigner_wf_register assigner_wf_heartbeat split: option.split)
qed

definition is_cancelled :: "uuid \<Rightarrow> app \<Rightarrow> bool" where
  "is_cancelled i a \<longleftrightarrow> map_option j_status (get_job (app_queue a) i) = Some Cancelled"

lemma apply_update_cancelled:
  "map_option j_status (get_job q i) = Some Cancelled \<Longrightarrow>
   map_option j_status (get_job (apply_update u q) i) = Some Cancelled"
  by (auto simp: apply_update_def get_job_updates)

lemma apply_updates_cancelled:
  "map_option j_status (get_job q i) = Some Cancelled \<Longrightarrow>
   map_option j_status (get_job (foldl (\<lambda>q u. apply_update u q) q us) i) = Some Cancelled"
  by (erule foldl_keeps [where P = "\<lambda>q. map_option j_status (get_job q i) = Some Cancelled"])
     (rule apply_update_cancelled)

lemma apply_in_cancelled: "is_cancelled i a \<Longrightarrow> is_cancelled i (apply_in a ev)"
proof -
  assume c: "is_cancelled i a"
  obtain e cmd where ev: "ev = (e, cmd)" by (cases ev)
  show ?thesis
  proof (cases cmd)
    case (BatchUpdateJobStatus us)
    with c apply_updates_cancelled [of "app_queue a" i us] show ?thesis
      by (simp add: ev apply_in_def is_cancelled_def)
  next
    case (UpdateJobStatus j st b code t)
    with c apply_update_cancelled [of "app_queue a" i] show ?thesis
      by (simp add: ev apply_in_def is_cancelled_def)
  qed (use c in \<open>auto simp: ev apply_in_def is_cancelled_def apply_submit_def get_job_add apply_assign_def
      apply_cancel_def get_job_updates get_job_cancel Let_def with_id_def split: option.split\<close>)
qed

interpretation applying: machine apply_in "\<lambda>_ _. True" app_wf
  by unfold_locales (rule apply_in_wf)

interpretation cancelling: machine apply_in "\<lambda>_ _. True" "is_cancelled i" for i
  by unfold_locales (rule apply_in_cancelled)

lemma admitted_all [simp]: "applying.admitted a evs" "cancelling.admitted a evs"
  by (induction evs arbitrary: a) auto

lemma apply_entries_run:
  "apply_entries me simple utc now es a =
     foldl apply_in a (map (\<lambda>e. (\<lparr>env_me = me, env_simple = simple, env_utc = utc, env_now = now\<rparr>, le_command e)) es)"
  by (simp add: apply_entries_def apply_in_def foldl_map)

section \<open>Agreement of replicas\<close>

text \<open>
  What entries determine of a job: all but the output, which stays on the node that ran it, and the
  time of a cancellation, which every node reads from its own clock.
\<close>

definition replica_job :: "job \<Rightarrow> job" where
  "replica_job j = j\<lparr>j_output := None, j_error := None,
     j_completed_at := (if j_status j = Cancelled then None else j_completed_at j)\<rparr>"

definition replica_view :: "job_queue \<Rightarrow> uuid \<Rightarrow> job option" where
  "replica_view q i = map_option replica_job (get_job q i)"

text \<open>The specification: what an entry does to such a view, with no clock and no node in it.\<close>

type_synonym view = "uuid \<Rightarrow> job option"

definition view_active :: "view \<Rightarrow> nat" where
  "view_active v = card {i. \<exists>j. v i = Some j \<and> job_active j}"

definition spec_update :: "job_status_update \<Rightarrow> view \<Rightarrow> view" where
  "spec_update u v =
     (case v (jsu_job_id u) of
        Some j \<Rightarrow>
          if j_status j = Cancelled then v
          else v(jsu_job_id u \<mapsto> replica_job (j\<lparr>j_status := jsu_status u, j_executed_by := Some (jsu_executed_by u),
                   j_exit_code := jsu_exit_code u, j_completed_at := jsu_completed_at u\<rparr>))
      | None \<Rightarrow> v)"

fun spec_apply :: "nat \<Rightarrow> view \<Rightarrow> command \<Rightarrow> view" where
  "spec_apply limit v (SubmitJob i cmd t img) =
     (if v i = None \<and> view_active v < limit then v(i \<mapsto> (with_id i cmd t)\<lparr>j_image := img\<rparr>) else v)"
| "spec_apply limit v (UpdateJobStatus i st b code t) =
     spec_update \<lparr>jsu_job_id = i, jsu_status = st, jsu_executed_by = b, jsu_exit_code = code, jsu_completed_at = t\<rparr> v"
| "spec_apply limit v (BatchUpdateJobStatus us) = foldl (\<lambda>v u. spec_update u v) v us"
| "spec_apply limit v (AssignJob i w) =
     (case v i of
        Some j \<Rightarrow> if j_status j = Pending then v(i \<mapsto> j\<lparr>j_assigned_worker := Some w, j_status := Running\<rparr>) else v
      | None \<Rightarrow> v)"
| "spec_apply limit v (CancelJob i) =
     (case v i of
        Some j \<Rightarrow> if job_active j then v(i \<mapsto> j\<lparr>j_status := Cancelled, j_completed_at := None\<rparr>) else v
      | None \<Rightarrow> v)"
| "spec_apply limit v (RegisterWorker w) = v"
| "spec_apply limit v Noop = v"

lemma replica_status: "replica_job j = replica_job k \<Longrightarrow> j_status j = j_status k"
  by (auto simp: replica_job_def dest: arg_cong [where f = j_status])

lemma hm_count_card:
  assumes "hm_wf m"
  shows "hm_count P m = card {k. \<exists>v. hm_get m k = Some v \<and> P v}"
proof -
  have "{k. \<exists>v. hm_get m k = Some v \<and> P v} = fst ` set (filter (\<lambda>x. P (snd x)) m)"
    using assms by (force simp: hm_get_iff)
  moreover have "distinct (map fst (filter (\<lambda>x. P (snd x)) m))"
    using assms by (simp add: hm_wf_def distinct_map_filter)
  ultimately have "card {k. \<exists>v. hm_get m k = Some v \<and> P v} = length (filter (\<lambda>x. P (snd x)) m)"
    using distinct_card [of "map fst (filter (\<lambda>x. P (snd x)) m)"] by simp
  then show ?thesis by (simp add: hm_count_def hm_values_def filter_map comp_def)
qed

lemma replica_job_sel [simp]:
  "j_status (replica_job j) = j_status j" "j_id (replica_job j) = j_id j"
  by (simp_all add: replica_job_def)

lemma replica_view_active:
  assumes "queue_wf q"
  shows "view_active (replica_view q) = active_job_count q"
proof -
  have "(\<exists>j. replica_view q i = Some j \<and> job_active j) = (\<exists>v. hm_get (jobs q) i = Some v \<and> job_active v)" for i
    by (auto simp: replica_view_def get_job_def)
  with assms show ?thesis by (simp add: view_active_def active_job_count_def queue_wf_def hm_count_card)
qed

lemma apply_submit_refines:
  assumes "queue_wf q"
  shows "replica_view (apply_submit i cmd t img q) = spec_apply (max_jobs q) (replica_view q) (SubmitJob i cmd t img)"
  using replica_view_active [OF assms]
  by (auto simp: fun_eq_iff replica_view_def apply_submit_def get_job_add is_full_def with_id_def replica_job_def)

lemma apply_update_refines: "replica_view (apply_update u q) = spec_update u (replica_view q)"
  by (cases "get_job q (jsu_job_id u)")
     (auto simp: fun_eq_iff replica_view_def apply_update_def spec_update_def get_job_updates replica_job_def)

lemma apply_updates_refines:
  "replica_view (foldl (\<lambda>q u. apply_update u q) q us) = foldl (\<lambda>v u. spec_update u v) (replica_view q) us"
  by (induction us arbitrary: q) (simp_all add: apply_update_refines)

lemma apply_assign_refines:
  "replica_view (app_queue (apply_assign now i w a)) = spec_apply limit (replica_view (app_queue a)) (AssignJob i w)"
  by (cases "get_job (app_queue a) i")
     (auto simp: fun_eq_iff replica_view_def apply_assign_def get_job_updates replica_job_def)

lemma apply_cancel_refines:
  "replica_view (app_queue (apply_cancel me simple utc i a)) = spec_apply limit (replica_view (app_queue a)) (CancelJob i)"
  by (cases "get_job (app_queue a) i")
     (auto simp: fun_eq_iff replica_view_def apply_cancel_def get_job_cancel replica_job_def
      split: option.split)

lemma apply_command_refines:
  assumes "queue_wf (app_queue a)"
  shows "replica_view (app_queue (apply_command me simple utc now c a)) =
    spec_apply (max_jobs (app_queue a)) (replica_view (app_queue a)) c"
proof (cases c)
  case (SubmitJob i cmd t img)
  with apply_submit_refines [OF assms] show ?thesis by simp
next
  case (AssignJob i w)
  with apply_assign_refines [of now i w a "max_jobs (app_queue a)"] show ?thesis
    by (cases "w = me") (simp_all add: Let_def)
next
  case (CancelJob i)
  with apply_cancel_refines [of me simple utc i a "max_jobs (app_queue a)"] show ?thesis by simp
qed (simp_all add: apply_update_refines apply_updates_refines)

lemma apply_command_max_jobs: "max_jobs (app_queue (apply_command me simple utc now c a)) = max_jobs (app_queue a)"
proof -
  have u: "max_jobs (apply_update u q) = max_jobs q" for u q
    by (simp add: apply_update_def update_status_metadata_def max_jobs_frame)
  have "max_jobs (foldl (\<lambda>q u. apply_update u q) q us) = max_jobs q" for q us
    by (induction us arbitrary: q) (simp_all add: u)
  then show ?thesis
    by (cases c) (auto simp: apply_submit_def u apply_assign_def apply_cancel_def assign_job_def Let_def max_jobs_frame
        split: option.split)
qed

lemma apply_entries_refines:
  assumes "app_wf a"
  shows "replica_view (app_queue (apply_entries me simple utc now es a)) =
    foldl (spec_apply (max_jobs (app_queue a))) (replica_view (app_queue a)) (map le_command es)"
    and "max_jobs (app_queue (apply_entries me simple utc now es a)) = max_jobs (app_queue a)"
    and "app_wf (apply_entries me simple utc now es a)"
proof -
  have "replica_view (app_queue (apply_entries me simple utc now es a)) =
      foldl (spec_apply (max_jobs (app_queue a))) (replica_view (app_queue a)) (map le_command es) \<and>
      max_jobs (app_queue (apply_entries me simple utc now es a)) = max_jobs (app_queue a)"
    using assms
  proof (induction es arbitrary: a)
    case (Cons e es)
    let ?a = "apply_command me simple utc now (le_command e) a"
    have "app_wf ?a"
      using apply_in_wf [OF Cons.prems, of "(\<lparr>env_me = me, env_simple = simple, env_utc = utc, env_now = now\<rparr>, le_command e)"]
      by (simp add: apply_in_def)
    from Cons.IH [OF this] Cons.prems show ?case
      by (simp add: apply_entries_def apply_command_refines apply_command_max_jobs app_wf_def)
  qed (simp add: apply_entries_def)
  then show "replica_view (app_queue (apply_entries me simple utc now es a)) =
    foldl (spec_apply (max_jobs (app_queue a))) (replica_view (app_queue a)) (map le_command es)"
    and "max_jobs (app_queue (apply_entries me simple utc now es a)) = max_jobs (app_queue a)" by auto
  show "app_wf (apply_entries me simple utc now es a)"
    unfolding apply_entries_run using applying.inv_foldl [OF assms] by simp
qed

section \<open>Snapshots\<close>

lemma find_unique:
  assumes "x \<in> set xs" and "P x" and "\<And>y. y \<in> set xs \<Longrightarrow> P y \<Longrightarrow> y = x"
  shows "List.find P xs = Some x"
proof -
  obtain y where "List.find P xs = Some y" using assms(1,2) by (cases "List.find P xs") (auto simp: find_None_iff)
  moreover from this have "y \<in> set xs" "P y" by (auto simp: find_Some_iff)
  ultimately show ?thesis using assms(3) by simp
qed

lemma add_jobs_get:
  assumes "queue_wf q" and "distinct (map j_id js)" and "\<forall>j \<in> set js. get_job q (j_id j) = None"
    and "active_job_count q + length (filter job_active js) < max_jobs q"
  shows "get_job (foldl (\<lambda>q j. fst (add_job j q)) q js) i =
      (case List.find (\<lambda>j. j_id j = i) js of Some j \<Rightarrow> Some j | None \<Rightarrow> get_job q i)"
    and "queue_wf (foldl (\<lambda>q j. fst (add_job j q)) q js)"
proof -
  have "get_job (foldl (\<lambda>q j. fst (add_job j q)) q js) i =
      (case List.find (\<lambda>j. j_id j = i) js of Some j \<Rightarrow> Some j | None \<Rightarrow> get_job q i) \<and>
      queue_wf (foldl (\<lambda>q j. fst (add_job j q)) q js)"
    using assms
  proof (induction js arbitrary: q)
    case (Cons j js)
    let ?q = "fst (add_job j q)"
    have room: "\<not> is_full q" using Cons.prems(4) by (simp add: is_full_def)
    have new: "hm_get (jobs q) (j_id j) = None" using Cons.prems(3) by (simp add: get_job_def)
    have count: "active_job_count ?q = active_job_count q + (if job_active j then 1 else 0)"
      using hm_count_insert_new [OF new, of job_active j] room
      by (simp add: add_job_def is_full_def active_job_count_def)
    have get: "get_job ?q k = (if k = j_id j then Some j else get_job q k)" for k
      using room by (simp add: get_job_add)
    have fresh: "\<forall>k \<in> set js. get_job ?q (j_id k) = None"
      using Cons.prems(2,3) by (auto simp: get dest: sym)
    have "active_job_count ?q + length (filter job_active js) < max_jobs ?q"
      using Cons.prems(4) count by (simp add: max_jobs_frame split: if_splits)
    note ih = Cons.IH [OF queue_wf_add [OF Cons.prems(1)] _ fresh this]
    show ?case
    proof (cases "i = j_id j")
      case True
      have "List.find (\<lambda>k. j_id k = i) js = None"
        using Cons.prems(2) True by (auto simp: find_None_iff dest: sym)
      with ih True get Cons.prems(2) show ?thesis by simp
    next
      case False
      with ih get [of i] Cons.prems(2) show ?thesis by (simp split: option.splits)
    qed
  qed simp
  then show "get_job (foldl (\<lambda>q j. fst (add_job j q)) q js) i =
      (case List.find (\<lambda>j. j_id j = i) js of Some j \<Rightarrow> Some j | None \<Rightarrow> get_job q i)"
    and "queue_wf (foldl (\<lambda>q j. fst (add_job j q)) q js)" by auto
qed

lemma active_count_all_jobs: "active_job_count q = length (filter job_active (all_jobs q))"
  using length_filter_mset_cong [OF all_jobs_mset, of job_active q]
  by (simp add: active_job_count_def hm_count_def)

lemma drop_output_sel [simp]:
  "j_id (drop_output j) = j_id j" "j_status (drop_output j) = j_status j"
  by (simp_all add: drop_output_def)

text \<open>Rebuilding from a snapshot of the jobs of a queue, converted on the way by \<open>h\<close>.\<close>

lemma rebuild_converted:
  assumes wf: "queue_wf q" and js: "map from_snapshot (sn_jobs sn) = map h (all_jobs q)"
    and h: "\<And>j. j_id (h j) = j_id j" "\<And>j. j_status (h j) = j_status j"
    and room: "active_job_count q < max_jobs (fst qa)"
  shows "get_job (fst (rebuild_from_snapshot now sn qa)) i = map_option h (get_job q i)"
    and "queue_wf (fst (rebuild_from_snapshot now sn qa))"
proof -
  let ?q0 = "queue_clear (fst qa)" and ?js = "map h (all_jobs q)"
  have eq: "fst (rebuild_from_snapshot now sn qa) = foldl (\<lambda>q j. fst (add_job j q)) ?q0 ?js"
    unfolding js [symmetric] by (simp add: rebuild_from_snapshot_def foldl_map)
  have d: "distinct (map j_id ?js)" using all_jobs_distinct [OF wf] by (simp add: comp_def h)
  have cap: "active_job_count ?q0 + length (filter job_active ?js) < max_jobs ?q0"
    using room active_count_all_jobs [of q]
    by (simp add: filter_map comp_def max_jobs_frame h) (simp add: active_job_count_def queue_clear_def)
  note g = add_jobs_get [OF queue_wf_clear d _ cap]
  have find: "List.find (\<lambda>j. j_id j = i) ?js = map_option h (get_job q i)"
  proof (cases "get_job q i")
    case None
    then have "\<forall>j \<in> set (all_jobs q). j_id j \<noteq> i" using all_jobs_set [OF wf] by auto
    then show ?thesis using None by (auto simp: find_None_iff h)
  next
    case (Some j)
    then have "j \<in> set (all_jobs q)" "j_id j = i" using all_jobs_set [OF wf, of j] queue_wf_get [OF wf Some] by auto
    moreover have "k = h j" if "k \<in> set ?js" "j_id k = i" for k
      using that all_jobs_set [OF wf] Some by (auto simp: h)
    ultimately have "List.find (\<lambda>j. j_id j = i) ?js = Some (h j)"
      by (intro find_unique) (auto simp: h)
    with Some show ?thesis by simp
  qed
  show "get_job (fst (rebuild_from_snapshot now sn qa)) i = map_option h (get_job q i)"
    unfolding eq using g(1) [of i] find by (simp split: option.split)
  show "queue_wf (fst (rebuild_from_snapshot now sn qa))" unfolding eq using g(2) by simp
qed

lemma rebuild_jobs:
  assumes wf: "queue_wf q" and real: "\<And>i j. get_job q i = Some j \<Longrightarrow> real_workers j"
    and room: "active_job_count q < max_jobs (fst qa)"
  shows "get_job (fst (rebuild_from_snapshot now (build_snapshot idx trm q a) qa)) i = map_option drop_output (get_job q i)"
    and "queue_wf (fst (rebuild_from_snapshot now (build_snapshot idx trm q a) qa))"
proof -
  have js: "map from_snapshot (sn_jobs (build_snapshot idx trm q a)) = map drop_output (all_jobs q)"
    using real all_jobs_set [OF wf] by (auto simp: build_snapshot_def from_to_snapshot)
  show "get_job (fst (rebuild_from_snapshot now (build_snapshot idx trm q a) qa)) i = map_option drop_output (get_job q i)"
    and "queue_wf (fst (rebuild_from_snapshot now (build_snapshot idx trm q a) qa))"
    by (rule rebuild_converted [OF wf js _ _ room]; simp)+
qed

text \<open>The same over the wire: what a follower rebuilds from the snapshot its leader sends.\<close>

definition norm_job :: "ext \<Rightarrow> job \<Rightarrow> job" where
  "norm_job X j = j\<lparr>j_created_at := norm_time X (j_created_at j), j_completed_at := map_option (norm_time X) (j_completed_at j),
     j_image := nonempty_image (j_image j)\<rparr>"

lemma request_snapshot_sent:
  "uuid_laws X \<Longrightarrow>
   request_snapshot X (snapshot_request X me t sn) = sn\<lparr>sn_jobs := map (norm_snapshot_job X) (sn_jobs sn)\<rparr>"
  by (simp add: request_snapshot_def snapshot_request_def map_filter_map snapshot_job_round_trip map_filter_map_Some)

lemma from_norm_snapshot: "from_snapshot (norm_snapshot_job X sj) = norm_job X (from_snapshot sj)"
  by (simp add: from_snapshot_def norm_snapshot_job_def norm_job_def)

lemma rebuild_sent:
  assumes X: "uuid_laws X" and wf: "queue_wf q" and real: "\<And>i j. get_job q i = Some j \<Longrightarrow> real_workers j"
    and room: "active_job_count q < max_jobs (fst qa)"
    and sn: "sn = request_snapshot X (snapshot_request X me t (build_snapshot idx trm q a))"
  shows "get_job (fst (rebuild_from_snapshot now sn qa)) i = map_option (\<lambda>j. norm_job X (drop_output j)) (get_job q i)"
    and "queue_wf (fst (rebuild_from_snapshot now sn qa))"
proof -
  have js: "map from_snapshot (sn_jobs sn) = map (\<lambda>j. norm_job X (drop_output j)) (all_jobs q)"
    using real all_jobs_set [OF wf]
    by (auto simp: sn request_snapshot_sent [OF X] build_snapshot_def from_norm_snapshot from_to_snapshot)
  show "get_job (fst (rebuild_from_snapshot now sn qa)) i = map_option (\<lambda>j. norm_job X (drop_output j)) (get_job q i)"
    and "queue_wf (fst (rebuild_from_snapshot now sn qa))"
    by (rule rebuild_converted [OF wf js _ _ room]; simp add: norm_job_def)+
qed

lemma rebuild_workers:
  assumes "assigner_wf a"
  shows "hm_get (workers (snd (rebuild_from_snapshot now (build_snapshot idx trm q a) qa))) w = None \<longleftrightarrow>
    hm_get (workers a) w = None"
proof -
  have reg: "hm_get (workers (foldl (\<lambda>a w. register_worker now w a) b ws)) w = None \<longleftrightarrow>
      hm_get (workers b) w = None \<and> w \<notin> set ws" for b ws
    by (induction ws arbitrary: b) (auto simp: register_worker_def)
  have "w \<in> set (map ws_id (all_workers a)) \<longleftrightarrow> hm_get (workers a) w \<noteq> None"
    using workers_by_id [OF assms, of w "\<lambda>_. True"] by (auto simp: all_workers_def)
  then show ?thesis by (auto simp: rebuild_from_snapshot_def build_snapshot_def reg assigner_clear_def)
qed

text \<open>
  Without that room the round trip loses jobs: once the active jobs have filled the queue, the
  finished ones that follow are refused. Here the limit is one, job 1 is pending and job 2 finished.
\<close>

definition full_queue :: job_queue where
  "full_queue = \<lparr>jobs = [(1, with_id 1 ''a'' 0), (2, (with_id 2 ''b'' 1)\<lparr>j_status := Completed\<rparr>)], max_jobs = 1\<rparr>"

lemma full_queue_loses_finished:
  "queue_wf full_queue \<and> within_limit full_queue \<and> get_job full_queue 2 \<noteq> None \<and>
   get_job (fst (rebuild_from_snapshot now (build_snapshot idx trm full_queue a) (full_queue, a))) 2 = None"
proof -
  have "queue_wf full_queue"
    by (auto simp: queue_wf_def full_queue_def hm_wf_def hm.keyed_def hm_get_def with_id_def split: if_splits)
  moreover have "all_jobs full_queue = [with_id 1 ''a'' 0, (with_id 2 ''b'' 1)\<lparr>j_status := Completed\<rparr>]"
    by (simp add: all_jobs_def full_queue_def hm_values_def with_id_def)
  ultimately show ?thesis
    by (simp add: rebuild_from_snapshot_def build_snapshot_def add_job_def active_job_count_def queue_clear_def
        within_limit_def hm_count_def hm_values_def hm_insert_def hm_empty_def from_snapshot_def to_snapshot_def
        get_job_def hm_get_def full_queue_def with_id_def)
qed

section \<open>The assignment loop\<close>

lemma next_assignment_some:
  assumes "queue_wf q" and "next_assignment now q a = Some (i, w)"
  shows "\<exists>j. get_job q i = Some j \<and> j_status j = Pending"
    and "w \<in> set (available_workers now a)"
    and "\<forall>v \<in> set (available_workers now a). load a w \<le> load a v"
proof -
  from assms(2) obtain j js where p: "pending_jobs q = j # js" and i: "i = j_id j"
    and w: "min_by_key (load a) (available_workers now a) = Some w"
    by (auto simp: next_assignment_def split: list.splits option.splits)
  from pending_first [OF assms(1) p] i show "\<exists>j. get_job q i = Some j \<and> j_status j = Pending" by auto
  from pick_least_loaded [OF w] show "w \<in> set (available_workers now a)"
    and "\<forall>v \<in> set (available_workers now a). load a w \<le> load a v" by auto
qed

lemma next_assignment_none:
  "next_assignment now q a = None \<longleftrightarrow> pending_jobs q = [] \<or> available_workers now a = []"
  using min_by_key_None [of "load a" "available_workers now a"]
  by (auto simp: next_assignment_def simp del: min_by_key_None split: list.split option.split)

lemma pending_count: "length (pending_jobs q) = hm_count (\<lambda>j. j_status j = Pending) (jobs q)"
  by (simp add: pending_jobs_def hm_count_def)

lemma assign_pending_decreases:
  assumes "queue_wf q" and "get_job q i = Some j" and "j_status j = Pending"
  shows "Suc (length (pending_jobs (fst (assign_job i w q)))) = length (pending_jobs q)"
  using hm_count_modify [of "jobs q" i j "\<lambda>j. j_status j = Pending" "\<lambda>j. j\<lparr>j_assigned_worker := Some w, j_status := Running\<rparr>"] assms
  by (simp add: pending_count queue_wf_def get_job_def assign_job_def update_job_def)

definition assigned :: "job_queue \<Rightarrow> job_queue \<Rightarrow> command \<Rightarrow> bool" where
  "assigned q q' c \<longleftrightarrow>
     (\<exists>i w j. c = AssignJob i w \<and> get_job q i = Some j \<and> j_status j = Pending \<and>
        get_job q' i = Some (j\<lparr>j_assigned_worker := Some w, j_status := Running\<rparr>))"

text \<open>The jobs a list of assignment commands is about.\<close>

definition targets :: "command list \<Rightarrow> uuid set" where
  "targets cs = {i. \<exists>w. AssignJob i w \<in> set cs}"

lemma assign_loop_returns:
  "queue_wf q \<Longrightarrow> length (pending_jobs q) < fuel \<Longrightarrow>
   \<exists>q' a' sent. assign_loop fuel clock k q a sent0 = Some (q', a', sent0 @ sent) \<and>
     queue_wf q' \<and> list_all (assigned q q') sent \<and>
     (\<forall>i. i \<notin> targets sent \<longrightarrow> get_job q' i = get_job q i) \<and>
     (pending_jobs q' = [] \<or> available_workers (clock (k + length sent)) a' = [])"
proof (induction fuel arbitrary: k q a sent0)
  case (Suc fuel)
  show ?case
  proof (cases "next_assignment (clock k) q a")
    case None
    with Suc.prems show ?thesis using next_assignment_none [of "clock k" q a] by auto
  next
    case (Some iw)
    obtain i w where iw: "iw = (i, w)" by (cases iw)
    from next_assignment_some(1) [OF Suc.prems(1) Some [unfolded iw]] obtain j
      where j: "get_job q i = Some j" "j_status j = Pending" by blast
    let ?q = "fst (assign_job i w q)"
    have wf: "queue_wf ?q" by (rule queue_wf_updates(4) [OF Suc.prems(1)])
    have "length (pending_jobs ?q) < fuel"
      using assign_pending_decreases [OF Suc.prems(1) j, of w] Suc.prems(2) by simp
    from Suc.IH [OF wf this, of "Suc k" "note_running w i a" "sent0 @ [AssignJob i w]"]
    obtain q' a' sent where r: "assign_loop fuel clock (Suc k) ?q (note_running w i a) (sent0 @ [AssignJob i w])
          = Some (q', a', (sent0 @ [AssignJob i w]) @ sent)"
      and p: "queue_wf q'" "list_all (assigned ?q q') sent" "\<forall>i. i \<notin> targets sent \<longrightarrow> get_job q' i = get_job ?q i"
        "pending_jobs q' = [] \<or> available_workers (clock (Suc k + length sent)) a' = []" by blast
    have get: "get_job ?q x = (if x = i then Some (j\<lparr>j_assigned_worker := Some w, j_status := Running\<rparr>) else get_job q x)" for x
      using j(1) by (simp add: get_job_updates)
    have ni: "i \<notin> targets sent"
      using p(2) get [of i] by (auto simp: targets_def assigned_def list_all_iff)
    have "assigned q q' (AssignJob i w)" using j p(3) ni get by (simp add: assigned_def)
    moreover have "assigned q q' c" if "assigned ?q q' c" for c
      using that by (auto simp: assigned_def get split: if_splits)
    then have "list_all (assigned q q') sent" using p(2) by (auto simp: list_all_iff)
    moreover have "\<forall>x. x \<notin> targets (AssignJob i w # sent) \<longrightarrow> get_job q' x = get_job q x"
      using p(3) get by (auto simp: targets_def)
    ultimately show ?thesis
      using Some iw r p by (intro exI [of _ q'] exI [of _ a'] exI [of _ "AssignJob i w # sent"]) simp
  qed
qed simp

section \<open>Compaction\<close>

lemma compact_log_fields:
  "rlog (compact_log sn s) = drop (last_included_index sn - log_offset s) (rlog s)"
  "snapshot (compact_log sn s) = (if log_offset s < last_included_index sn then Some sn else snapshot s)"
  "current_term (compact_log sn s) = current_term s" "voted_for (compact_log sn s) = voted_for s"
  "role (compact_log sn s) = role s" "commit_index (compact_log sn s) = commit_index s"
  "last_applied (compact_log sn s) = last_applied s"
  by (auto simp: compact_log_def Let_def)

lemma compact_with_sel:
  assumes "compact_with K C sn n = Some n'"
  shows "rn_state n' = compact_log sn (rn_state n)" and "rn_config n' = rn_config n" and "peers n' = peers n"
    and "heartbeat_peers n' = heartbeat_peers n" and "pending_snapshot n' = pending_snapshot n"
  using assms by (auto simp: compact_with_def Let_def with_storage_def split: option.splits)

lemma maybe_compact_log_state:
  assumes "maybe_compact_log K C n = Some n'"
  shows "rn_state (nd_raft n') = rn_state (nd_raft n) \<or>
    rn_state (nd_raft n') = compact_log (build_snapshot (last_applied (rn_state (nd_raft n)))
      (last_applied_term (rn_state (nd_raft n))) (nd_queue n) (nd_assigner n)) (rn_state (nd_raft n))"
    and "nd_queue n' = nd_queue n" and "nd_assigner n' = nd_assigner n"
  using assms
  by (auto simp: maybe_compact_log_def compaction_point_def dest!: compact_with_sel(1) split: if_splits)

text \<open>The database has been written to: it has a term.\<close>

definition in_use :: "'db kv \<Rightarrow> 'db raft_node \<Rightarrow> bool" where
  "in_use K n \<longleftrightarrow> (\<forall>db. rn_storage n = Some db \<longrightarrow> contents K db ''term'' \<noteq> None)"

lemma recoverable_in_use: "recoverable K C n \<Longrightarrow> durable (rn_state n) \<noteq> durable raft_new \<Longrightarrow> in_use K n"
  by (auto simp: recoverable_def in_use_def stored_def stored_hard_def)

lemma in_use_stored:
  "recoverable K C n \<Longrightarrow> in_use K n \<Longrightarrow> rn_storage n = Some db \<Longrightarrow> stored K C db (durable (rn_state n))"
  by (auto simp: recoverable_def in_use_def)

lemma compact_with_recoverable:
  assumes K: "kv_laws K" and C: "serde_laws C" and rec: "recoverable K C n" and used: "in_use K n"
    and op: "compact_with K C sn n = Some n'" and bd: "last_included_index sn < u64_max"
  shows "recoverable K C n'"
proof (cases "rn_storage n")
  case None
  with op have "rn_storage n' = None" by (auto simp: compact_with_def with_storage_def Let_def split: option.splits)
  then show ?thesis by (simp add: recoverable_def)
next
  case (Some db)
  let ?s = "rn_state n" and ?s' = "compact_log sn (rn_state n)"
  from in_use_stored [OF rec used Some]
  have sl: "stored_log K C db (log_offset ?s) (snapshot ?s) (rlog ?s)"
    and sh: "stored_hard K C db (current_term ?s) (voted_for ?s) (log_offset ?s)"
    by (auto simp: stored_def durable_def)
  show ?thesis
  proof (cases "snapshot ?s'")
    case None
    then have "?s' = ?s" by (auto simp: compact_log_def Let_def split: if_splits)
    with None op rec show ?thesis by (simp add: compact_with_def Let_def)
  next
    case snap: (Some sn')
    from op snap Some obtain db' where db': "rn_storage n' = Some db'" "save_snapshot K C sn' (log_offset ?s') db = Some db'"
      by (auto simp: compact_with_def with_storage_def Let_def)
    have off: "log_offset ?s \<le> log_offset ?s'" "log_offset ?s' < u64_max"
      using sl bd by (auto simp: compact_log_offset stored_log_def)
    have "drop (log_offset ?s' - log_offset ?s) (rlog ?s) = rlog ?s'"
      by (simp add: compact_log_fields compact_log_offset max_def)
    with save_snapshot_stored [OF K C db'(2) sl off] sh show ?thesis
      by (simp add: recoverable_def db'(1) compact_with_sel(1) [OF op] stored_def durable_def compact_log_fields(3,4) snap)
  qed
qed

lemma compaction_point_in_use:
  assumes "recoverable K C n" and "compaction_point (rn_state n) = Some (idx, trm)"
  shows "in_use K n"
  using assms(2) by (intro recoverable_in_use [OF assms(1)])
    (auto simp: compaction_point_def durable_def raft_new_def LOG_COMPACTION_THRESHOLD_def split: if_splits)

section \<open>A turn of the scheduler\<close>

text \<open>
  A turn without a pending snapshot hands the state machine exactly the entries between the old and
  the new applied index, in order, once.
\<close>

definition node_app :: "'db node \<Rightarrow> app" where
  "node_app n = \<lparr>app_queue = nd_queue n, app_assigner = nd_assigner n, wake_assigner = False, wake_worker = False, kills = []\<rparr>"

lemma on_commit_applies:
  assumes wf: "log_wf (rn_state (nd_raft n))" and ap: "applied_wf (rn_state (nd_raft n))"
    and ci: "commit_index (rn_state (nd_raft n)) \<le> last_log_index (rn_state (nd_raft n))"
    and none: "pending_snapshot (nd_raft n) = None"
    and op: "on_commit K C simple utc now n = Some (n', ks)"
  shows "\<exists>es. map Some es = map (get_entry (rn_state (nd_raft n)))
        [Suc (last_applied (rn_state (nd_raft n)))..<Suc (commit_index (rn_state (nd_raft n)))] \<and>
      nd_queue n' = app_queue (apply_entries (nc_node_id (rn_config (nd_raft n))) simple utc now es (node_app n)) \<and>
      nd_assigner n' = app_assigner (apply_entries (nc_node_id (rn_config (nd_raft n))) simple utc now es (node_app n)) \<and>
      last_applied (rn_state (nd_raft n')) = commit_index (rn_state (nd_raft n))"
proof -
  let ?r = "(nd_raft n)\<lparr>pending_snapshot := None\<rparr>"
  obtain r es where g: "get_committed_entries ?r = (r, es)" by force
  from get_committed_entries_result [OF _ _ _ g] wf ap ci
  have es: "map Some es = map (get_entry (rn_state (nd_raft n)))
        [Suc (last_applied (rn_state (nd_raft n)))..<Suc (commit_index (rn_state (nd_raft n)))]"
    and la: "last_applied (rn_state r) = commit_index (rn_state (nd_raft n))"
    by (simp_all del: upt_Suc)
  from op none g obtain n1 where c: "maybe_compact_log K C n1 = Some n'"
    and n1: "nd_raft n1 = r"
      "nd_queue n1 = app_queue (apply_entries (nc_node_id (rn_config (nd_raft n))) simple utc now es (node_app n))"
      "nd_assigner n1 = app_assigner (apply_entries (nc_node_id (rn_config (nd_raft n))) simple utc now es (node_app n))"
    by (auto simp: on_commit_def take_pending_snapshot_def Let_def node_app_def)
  have "last_applied (rn_state (nd_raft n')) = last_applied (rn_state (nd_raft n1))"
    using maybe_compact_log_state(1) [OF c] by (auto simp: compact_log_fields)
  with maybe_compact_log_state(2,3) [OF c] n1 es la show ?thesis by (intro exI [of _ es]) simp
qed

text \<open>
  A snapshot request that is already covered, a delayed copy for instance, changes nothing in the Raft
  state, yet offers the node's own snapshot to the scheduler loop once more.
\<close>

lemma covered_snapshot_offered:
  assumes "snapshot (rn_state n) = Some sn" and "is_last_included_index req \<le> log_offset (rn_state n)"
    and op: "handle_install_snapshot_node K C X now req n = Some (n', r)"
  shows "pending_snapshot n' = Some sn" and "last_applied (rn_state n') = last_applied (rn_state n)"
proof -
  let ?h = "handle_install_snapshot X req (rn_state n)"
  have h: "snapshot (fst ?h) = Some sn" "log_offset (fst ?h) = log_offset (rn_state n)"
    "last_applied (fst ?h) = last_applied (rn_state n)"
    using assms(1,2) by (auto simp: handle_install_snapshot_def install_snapshot_def request_snapshot_def
        become_follower_def Let_def)
  from op obtain n1 n2 where p: "persist_hard_state K C (n\<lparr>rn_state := fst ?h\<rparr>) = Some n1"
    and o: "offer_snapshot K C req n1 = Some n2" and n': "n' = n2\<lparr>last_heartbeat := now\<rparr>"
    by (auto simp: handle_install_snapshot_node_def Let_def split_beta bind_eq_Some_conv)
  have s1: "rn_state n1 = fst ?h" using persist_hard_state_sel(1) [OF p] by simp
  from o h assms(2) obtain n3 where w: "with_storage (save_snapshot K C sn (log_offset (rn_state n1))) n1 = Some n3"
    and n2: "n2 = n3\<lparr>pending_snapshot := Some sn, commit_notify := commit_index (rn_state n3)\<rparr>"
    by (auto simp: offer_snapshot_def s1 bind_eq_Some_conv)
  show "pending_snapshot n' = Some sn" and "last_applied (rn_state n') = last_applied (rn_state n)"
    using with_storage_sel(1) [OF w] h by (simp_all add: n' n2 s1)
qed

lemma add_jobs_absent: "i \<notin> j_id ` set js \<Longrightarrow> get_job (foldl (\<lambda>q j. fst (add_job j q)) q js) i = get_job q i"
  by (induction js arbitrary: q) (auto simp: get_job_add)

lemma rebuild_absent: "i \<notin> sj_id ` set (sn_jobs sn) \<Longrightarrow> get_job (fst (rebuild_from_snapshot now sn qa)) i = None"
  using add_jobs_absent [of i "map from_snapshot (sn_jobs sn)" "queue_clear (fst qa)"]
  by (simp add: rebuild_from_snapshot_def foldl_map image_image)

end
