(* ===== verification/Raft_Votes.thy ===== *)
theory Raft_Votes
  imports State_Machine
begin

text \<open>
  Terms and votes of a single node: what each operation of the node does to them, and that the vote on
  disk is the vote in memory after every operation, whatever the state of the log.
\<close>

section \<open>The vote on disk\<close>

definition vote_stored :: "'db kv \<Rightarrow> serde \<Rightarrow> 'db \<Rightarrow> u64 \<Rightarrow> node_id option \<Rightarrow> bool" where
  "vote_stored K C db t v \<longleftrightarrow>
     (contents K db ''term'' = None \<and> t = 0 \<and> v = None) \<or>
     (t \<le> u64_max \<and> contents K db ''term'' = Some (to_be_bytes t) \<and>
      (\<exists>b. contents K db ''voted_for'' = Some b \<and> vote_from_slice C b = Some v))"

definition vote_durable :: "'db kv \<Rightarrow> serde \<Rightarrow> 'db raft_node \<Rightarrow> bool" where
  "vote_durable K C n \<longleftrightarrow>
     (\<forall>db. rn_storage n = Some db \<longrightarrow> vote_stored K C db (current_term (rn_state n)) (voted_for (rn_state n)))"

definition keeps_votes :: "'db kv \<Rightarrow> ('db \<Rightarrow> 'db option) \<Rightarrow> bool" where
  "keeps_votes K f \<longleftrightarrow>
     (\<forall>db db'. f db = Some db' \<longrightarrow>
        contents K db' ''term'' = contents K db ''term'' \<and> contents K db' ''voted_for'' = contents K db ''voted_for'')"

named_theorems keeps_votes_intros "writes that leave term and vote on disk alone"

lemma keeps_votes_append [keeps_votes_intros]: "kv_laws K \<Longrightarrow> keeps_votes K (storage_append_entry K C e)"
  by (auto simp: keeps_votes_def storage_append_entry_def bind_eq_Some_conv dest!: kv_put_contents)

lemma keeps_votes_appends [keeps_votes_intros]: "kv_laws K \<Longrightarrow> keeps_votes K (append_entries_to_storage K C es)"
proof (induction es)
  case (Cons e es)
  then show ?case using keeps_votes_append [of K C e]
    by (fastforce simp: keeps_votes_def bind_eq_Some_conv)
qed (simp add: keeps_votes_def)

lemma keeps_votes_truncate [keeps_votes_intros]: "kv_laws K \<Longrightarrow> keeps_votes K (truncate_from K i)"
  by (auto simp: keeps_votes_def truncate_from_contents)

lemma keeps_votes_snapshot [keeps_votes_intros]:
  assumes "kv_laws K"
  shows "keeps_votes K (save_snapshot K C sn offset)"
  unfolding keeps_votes_def
proof (intro allI impI)
  fix db db' assume op: "save_snapshot K C sn offset db = Some db'"
  obtain b where "\<And>k. contents K db' k =
      (if 0 < offset \<and> prefix LOG_PREFIX k \<and> log_key 1 \<le> k \<and> k < log_key (u64_inc offset) then None
       else if k = ''log_offset'' then Some (to_be_bytes offset)
       else if k = ''snapshot'' then Some b else contents K db k)"
    using save_snapshot_contents [OF assms op] by blast
  then show "contents K db' ''term'' = contents K db ''term'' \<and>
      contents K db' ''voted_for'' = contents K db ''voted_for''" by simp
qed

lemma keeps_votes_sync [keeps_votes_intros]:
  assumes "kv_laws K"
  shows "keeps_votes K (sync_log K C req r old s)"
proof -
  note t = keeps_votes_truncate [OF assms, unfolded keeps_votes_def]
    and a = keeps_votes_appends [OF assms, unfolded keeps_votes_def]
  show ?thesis unfolding keeps_votes_def sync_log_def Let_def
    by (auto simp: bind_eq_Some_conv split: if_splits dest!: t [rule_format] a [rule_format])
qed

lemma with_storage_votes:
  assumes "with_storage f n = Some n'" and "keeps_votes K f" and "vote_durable K C n"
  shows "vote_durable K C n'"
  using assms
  by (auto simp: with_storage_def vote_durable_def vote_stored_def keeps_votes_def split: option.splits)

lemma persist_hard_state_votes:
  assumes "kv_laws K" and "serde_laws C" and "persist_hard_state K C n = Some n'"
    and "current_term (rn_state n) \<le> u64_max"
  shows "vote_durable K C n'"
  unfolding vote_durable_def
proof (intro allI impI)
  fix db' assume db': "rn_storage n' = Some db'"
  from assms(3) have "rn_state n' = rn_state n" by (rule persist_hard_state_sel)
  moreover from assms(3) db' obtain db where
    "save_hard_state K C (current_term (rn_state n)) (voted_for (rn_state n)) (log_offset (rn_state n)) db = Some db'"
    by (auto simp: persist_hard_state_def with_storage_def split: option.splits)
  then obtain b db1 db2 where b: "vote_to_vec C (voted_for (rn_state n)) = Some b"
    and p: "kv_put K ''term'' (to_be_bytes (current_term (rn_state n))) db = Some db1" "kv_put K ''voted_for'' b db1 = Some db2"
      "kv_put K ''log_offset'' (to_be_bytes (log_offset (rn_state n))) db2 = Some db'"
    by (auto simp: save_hard_state_def bind_eq_Some_conv)
  moreover have "vote_from_slice C b = Some (voted_for (rn_state n))" using assms(2) b by (simp add: serde_laws_def)
  ultimately show "vote_stored K C db' (current_term (rn_state n')) (voted_for (rn_state n'))"
    using p [THEN kv_put_contents [OF assms(1)]] assms(4) by (simp add: vote_stored_def)
qed

text \<open>A node that is restarted on its database has the term and the vote it had.\<close>

lemma restart_votes:
  assumes K: "kv_laws K" and vd: "vote_durable K C n" and db: "rn_storage n = Some db"
    and op: "restart K C config now db = Some n'"
  shows "current_term (rn_state n') = current_term (rn_state n)" and "voted_for (rn_state n') = voted_for (rn_state n)"
    and "role (rn_state n') = Follower" and "rn_config n' = config" and "vote_durable K C n'"
    and "peers n' = []" and "heartbeat_peers n' = []"
proof -
  have vs: "vote_stored K C db (current_term (rn_state n)) (voted_for (rn_state n))"
    using vd db by (simp add: vote_durable_def)
  from op obtain p where p: "load_state K C db = Some p" and n': "n' = new_with_storage config (Some db) p now"
    by (auto simp: restart_def)
  have t: "kv_get K db ''term'' = Some v \<Longrightarrow> v = contents K db ''term''"
    and v: "kv_get K db ''voted_for'' = Some w \<Longrightarrow> w = contents K db ''voted_for''" for v w
    by (simp_all add: kv_get_contents [OF K])
  have "current_term (restored_state p) = current_term (rn_state n) \<and> voted_for (restored_state p) = voted_for (rn_state n) \<and>
      role (restored_state p) = Follower"
  proof (cases p)
    case None
    with p t vs show ?thesis
      by (auto simp: load_state_def bind_eq_Some_conv vote_stored_def restored_state_def raft_new_def split: option.splits)
  next
    case (Some q)
    with p t v vs have "ps_current_term q = current_term (rn_state n) \<and> ps_voted_for q = voted_for (rn_state n)"
      by (fastforce simp: load_state_def bind_eq_Some_conv vote_stored_def split: option.splits)
    with Some show ?thesis by (simp add: restored_state_def Let_def raft_new_def split: option.split)
  qed
  then show "current_term (rn_state n') = current_term (rn_state n)" and "voted_for (rn_state n') = voted_for (rn_state n)"
    and "role (rn_state n') = Follower" and "rn_config n' = config" and "vote_durable K C n'"
    and "peers n' = []" and "heartbeat_peers n' = []"
    using vs by (simp_all add: n' new_with_storage_def vote_durable_def)
qed

section \<open>What an operation does to term, vote and role\<close>

text \<open>
  Most operations either leave term and vote alone and do not raise the role, or move to a higher term
  as a follower.
\<close>

definition moves :: "raft_state \<Rightarrow> raft_state \<Rightarrow> bool" where
  "moves s s' \<longleftrightarrow>
     current_term s < current_term s' \<and> role s' = Follower \<or>
     current_term s' = current_term s \<and> voted_for s' = voted_for s \<and> (role s' = role s \<or> role s' = Follower)"

lemma moves_refl [simp]: "moves s s"
  by (simp add: moves_def)

lemma moves_same:
  "current_term s' = current_term s \<Longrightarrow> voted_for s' = voted_for s \<Longrightarrow> role s' = role s \<Longrightarrow> moves s s'"
  by (simp add: moves_def)

definition quiet :: "'db kv \<Rightarrow> serde \<Rightarrow> 'db raft_node \<Rightarrow> 'db raft_node \<Rightarrow> bool" where
  "quiet K C n n' \<longleftrightarrow>
     rn_config n' = rn_config n \<and> peers n' = peers n \<and> heartbeat_peers n' = heartbeat_peers n \<and>
     moves (rn_state n) (rn_state n') \<and>
     (vote_durable K C n \<longrightarrow> current_term (rn_state n') \<le> u64_max \<longrightarrow> vote_durable K C n')"

lemma quiet_refl: "quiet K C n n"
  by (simp add: quiet_def)

lemma vote_durable_cong:
  "rn_storage n' = rn_storage n \<Longrightarrow> current_term (rn_state n') = current_term (rn_state n) \<Longrightarrow>
   voted_for (rn_state n') = voted_for (rn_state n) \<Longrightarrow> vote_durable K C n' = vote_durable K C n"
  by (simp add: vote_durable_def)

text \<open>An operation on the state alone.\<close>

lemma quiet_state:
  assumes "rn_config n' = rn_config n" "peers n' = peers n" "heartbeat_peers n' = heartbeat_peers n"
    and "rn_storage n' = rn_storage n" and "current_term (rn_state n') = current_term (rn_state n)"
    and "voted_for (rn_state n') = voted_for (rn_state n)" and "role (rn_state n') = role (rn_state n)"
  shows "quiet K C n n'"
  using assms vote_durable_cong [of n' n K C] by (simp add: quiet_def moves_def)

lemma quiet_trans_state:
  assumes "quiet K C n n1"
    and "rn_config n' = rn_config n1" "peers n' = peers n1" "heartbeat_peers n' = heartbeat_peers n1"
    and "rn_storage n' = rn_storage n1" and "rn_state n' = rn_state n1"
  shows "quiet K C n n'"
  using assms vote_durable_cong [of n' n1 K C] by (simp add: quiet_def)

lemma quiet_storage:
  assumes "with_storage f n = Some n'" and "keeps_votes K f"
  shows "quiet K C n n'"
  using with_storage_sel [OF assms(1)] with_storage_votes [OF assms] by (simp add: quiet_def)

lemma quiet_persist:
  assumes "kv_laws K" and "serde_laws C" and "persist_hard_state K C (n\<lparr>rn_state := s\<rparr>) = Some n'"
    and "moves (rn_state n) s"
  shows "quiet K C n n'"
  using persist_hard_state_sel [OF assms(3)] persist_hard_state_votes [OF assms(1-3)] assms(4)
  by (simp add: quiet_def)

lemma quiet_then_storage:
  assumes "quiet K C n n1" and "with_storage f n1 = Some n'" and "keeps_votes K f"
  shows "quiet K C n n'"
  using assms(1) with_storage_sel [OF assms(2)] with_storage_votes [OF assms(2,3)] by (simp add: quiet_def)

lemma become_follower_moves: "current_term s < t \<Longrightarrow> moves s (become_follower t s)"
  by (simp add: moves_def become_follower_def)

lemma step_down_quiet:
  assumes "kv_laws K" and "serde_laws C" and "step_down K C t n = Some n'" and "current_term (rn_state n) < t"
  shows "quiet K C n n'"
  using quiet_persist [OF assms(1,2) assms(3) [unfolded step_down_def]] become_follower_moves [OF assms(4)] by simp

lemma saw_peer_sel [simp]:
  "rn_config (saw_peer now p n) = rn_config n" "peers (saw_peer now p n) = peers n"
  "heartbeat_peers (saw_peer now p n) = heartbeat_peers n" "rn_state (saw_peer now p n) = rn_state n"
  "rn_storage (saw_peer now p n) = rn_storage n"
  by (simp_all add: saw_peer_def)

lemma quiet_saw_peer: "quiet K C (saw_peer now p n) n' \<Longrightarrow> quiet K C n n'"
  by (simp add: quiet_def vote_durable_def)

lemma append_answer_quiet:
  assumes "kv_laws K" and "serde_laws C" and "append_answer K C now p r n = Some n'"
  shows "quiet K C n n'"
proof (rule quiet_saw_peer)
  show "quiet K C (saw_peer now p n) n'"
  proof (cases "current_term (rn_state n) < aer_term r")
    case True
    with assms(3) show ?thesis
      by (intro step_down_quiet [OF assms(1,2)]) (simp_all add: append_answer_def Let_def)
  next
    case False
    with assms(3) show ?thesis
      by (intro quiet_state) (auto simp: append_answer_def Let_def split: if_splits)
  qed
qed

lemma snapshot_answer_quiet:
  assumes "kv_laws K" and "serde_laws C" and "snapshot_answer K C now p i r n = Some n'"
  shows "quiet K C n n'"
proof (rule quiet_saw_peer)
  show "quiet K C (saw_peer now p n) n'"
  proof (cases "current_term (rn_state n) < isr_term r")
    case True
    with assms(3) show ?thesis
      by (intro step_down_quiet [OF assms(1,2)]) (simp_all add: snapshot_answer_def Let_def)
  next
    case False
    with assms(3) show ?thesis
      by (intro quiet_state) (auto simp: snapshot_answer_def Let_def split: if_splits)
  qed
qed

lemma step_down_term: "step_down K C t n = Some n' \<Longrightarrow> current_term (rn_state n') = t"
  unfolding step_down_def by (drule persist_hard_state_sel) simp

lemma append_answer_term:
  "append_answer K C now p r n = Some n' \<Longrightarrow> current_term (rn_state n') \<in> {current_term (rn_state n), aer_term r}"
  by (auto simp: append_answer_def Let_def dest: step_down_term split: if_splits)

lemma snapshot_answer_term:
  "snapshot_answer K C now p i r n = Some n' \<Longrightarrow> current_term (rn_state n') \<in> {current_term (rn_state n), isr_term r}"
  by (auto simp: snapshot_answer_def Let_def dest: step_down_term split: if_splits)

lemma append_entry_sel [simp]:
  "current_term (fst (append_entry c s)) = current_term s" "voted_for (fst (append_entry c s)) = voted_for s"
  "role (fst (append_entry c s)) = role s"
  by (simp_all add: append_entry_def Let_def)

lemma append_command_quiet:
  assumes "kv_laws K" and "handle_append_command K C c n = Some (n', r)"
  shows "quiet K C n n'"
proof -
  obtain n1 r1 where a: "append_command c n = (n1, r1)" by force
  have q: "quiet K C n n1"
    by (rule quiet_state) (use a in \<open>auto simp: append_command_def Let_def split_beta split: if_splits\<close>)
  show ?thesis
  proof (cases r1)
    case (Inl e)
    with a assms(2) q show ?thesis by (simp add: handle_append_command_def)
  next
    case (Inr e)
    with a assms(2) have "with_storage (storage_append_entry K C e) n1 = Some n'"
      by (auto simp: handle_append_command_def persist_entry_def)
    with q keeps_votes_append [OF assms(1)] show ?thesis by (blast intro: quiet_then_storage)
  qed
qed

lemma append_command_term:
  "handle_append_command K C c n = Some (n', r) \<Longrightarrow> current_term (rn_state n') = current_term (rn_state n)"
  by (auto simp: handle_append_command_def append_command_def persist_entry_def Let_def split_beta
      dest!: with_storage_sel(1) split: sum.splits if_splits)

lemma get_committed_quiet: "get_committed_entries n = (n', es) \<Longrightarrow> quiet K C n n'"
  by (rule quiet_state) (auto simp: get_committed_entries_def committed_loop_result)

lemma compact_log_votes [simp]:
  "current_term (compact_log sn s) = current_term s" "voted_for (compact_log sn s) = voted_for s"
  "role (compact_log sn s) = role s"
  by (auto simp: compact_log_def Let_def)

lemma compact_with_quiet:
  assumes "kv_laws K" and "compact_with K C sn n = Some n'"
  shows "quiet K C n n'"
proof -
  let ?n = "n\<lparr>rn_state := compact_log sn (rn_state n)\<rparr>"
  have q: "quiet K C n ?n" by (rule quiet_state) simp_all
  show ?thesis
  proof (cases "snapshot (compact_log sn (rn_state n))")
    case None
    with assms(2) q show ?thesis by (simp add: compact_with_def Let_def)
  next
    case (Some sn')
    with assms(2) have "with_storage (save_snapshot K C sn' (log_offset (compact_log sn (rn_state n)))) ?n = Some n'"
      by (simp add: compact_with_def Let_def)
    from quiet_then_storage [OF q this keeps_votes_snapshot [OF assms(1)]] show ?thesis .
  qed
qed

text \<open>
  An AppendEntries request of the node's own term makes a candidate, or leader, forget its vote; any
  other is quiet.
\<close>

lemma append_entries_node_sel:
  assumes "handle_append_entries_node K C X now req n = Some (n', r)"
  shows "rn_state n' = fst (handle_append_entries X req (rn_state n))" and "rn_config n' = rn_config n"
    and "peers n' = peers n" and "heartbeat_peers n' = heartbeat_peers n"
    and "kv_laws K \<Longrightarrow> serde_laws C \<Longrightarrow> current_term (rn_state n') \<le> u64_max \<Longrightarrow> vote_durable K C n'"
proof -
  let ?h = "handle_append_entries X req (rn_state n)"
  from assms obtain n1 n2 where p: "persist_hard_state K C (n\<lparr>rn_state := fst ?h\<rparr>) = Some n1"
    and w: "with_storage (sync_log K C req (snd ?h) (last_log_index (rn_state n)) (fst ?h)) n1 = Some n2"
    and n': "n' = (let n3 = (if aer_success (snd ?h) \<and> commit_index (rn_state n) < commit_index (fst ?h)
        then n2\<lparr>commit_notify := commit_index (fst ?h)\<rparr> else n2)
        in if aer_success (snd ?h) then n3\<lparr>last_heartbeat := now\<rparr> else n3)"
    by (auto simp: handle_append_entries_node_def Let_def split_beta bind_eq_Some_conv)
  note s1 = persist_hard_state_sel [OF p] and s2 = with_storage_sel [OF w]
  have e: "rn_state n' = rn_state n2" "rn_config n' = rn_config n2" "peers n' = peers n2"
    "heartbeat_peers n' = heartbeat_peers n2" "rn_storage n' = rn_storage n2"
    by (simp_all add: n' Let_def)
  show "rn_state n' = fst ?h" "rn_config n' = rn_config n" "peers n' = peers n" "heartbeat_peers n' = heartbeat_peers n"
    by (simp_all add: e s1 s2)
  assume "kv_laws K" "serde_laws C" "current_term (rn_state n') \<le> u64_max"
  then have "vote_durable K C n1" by (intro persist_hard_state_votes [OF _ _ p]) (simp_all add: e s1 s2)
  then have "vote_durable K C n2" by (rule with_storage_votes [OF w keeps_votes_sync [OF \<open>kv_laws K\<close>]])
  then show "vote_durable K C n'" by (simp add: vote_durable_def e)
qed

lemma append_entries_moves:
  assumes "ae_term req \<noteq> current_term s \<or> role s = Follower"
  shows "moves s (fst (handle_append_entries X req s))"
proof (cases "ae_term req < current_term s")
  case False
  with assms hae_follower [of s req X] hae_term [of X req s] show ?thesis by (auto simp: moves_def)
qed (simp add: hae_stale)

lemma install_snapshot_node_sel:
  assumes "handle_install_snapshot_node K C X now req n = Some (n', r)" and "kv_laws K" and "serde_laws C"
  shows "rn_state n' = fst (handle_install_snapshot X req (rn_state n))" and "quiet K C n n'"
proof -
  let ?h = "handle_install_snapshot X req (rn_state n)"
  from assms obtain n1 n2 where p: "persist_hard_state K C (n\<lparr>rn_state := fst ?h\<rparr>) = Some n1"
    and o: "offer_snapshot K C req n1 = Some n2" and n': "n' = n2\<lparr>last_heartbeat := now\<rparr>"
    by (auto simp: handle_install_snapshot_node_def Let_def split_beta bind_eq_Some_conv)
  have "moves (rn_state n) (fst ?h)" by (auto simp: moves_def his_term his_vote)
  then have q1: "quiet K C n n1" by (rule quiet_persist [OF assms(2,3) p])
  have "quiet K C n n2 \<and> rn_state n2 = rn_state n1"
  proof (cases "snapshot (rn_state n1) \<noteq> None \<and> is_last_included_index req \<le> log_offset (rn_state n1)")
    case True
    with o obtain sn n3 where w: "with_storage (save_snapshot K C sn (log_offset (rn_state n1))) n1 = Some n3"
      and n2: "n2 = n3\<lparr>pending_snapshot := Some sn, commit_notify := commit_index (rn_state n3)\<rparr>"
      by (auto simp: offer_snapshot_def bind_eq_Some_conv)
    have "quiet K C n n3" by (rule quiet_then_storage [OF q1 w keeps_votes_snapshot [OF assms(2)]])
    then show ?thesis using with_storage_sel(1) [OF w]
      by (auto simp: n2 intro: quiet_trans_state)
  next
    case False
    with o have "n2 = n1" by (auto simp: offer_snapshot_def split: option.splits if_splits)
    with q1 show ?thesis by simp
  qed
  then show "rn_state n' = fst ?h" and "quiet K C n n'"
    using persist_hard_state_sel(1) [OF p] by (auto simp: n' intro: quiet_trans_state)
qed

section \<open>The operations of an election\<close>

lemma begin_election_votes:
  assumes "begin_election K C n = Some (n', req)" and "kv_laws K" and "serde_laws C"
    and "current_term (rn_state n) < u64_max"
  shows "current_term (rn_state n') = Suc (current_term (rn_state n))"
    and "voted_for (rn_state n') = Some (nc_node_id (rn_config n))" and "role (rn_state n') = Candidate"
    and "rn_config n' = rn_config n" and "peers n' = peers n" and "heartbeat_peers n' = heartbeat_peers n"
    and "vote_durable K C n'" and "vr_term req = Suc (current_term (rn_state n))"
    and "vr_candidate_id req = nc_node_id (rn_config n)"
proof -
  let ?s = "become_candidate (nc_node_id (rn_config n)) (rn_state n)"
  from assms(1) have p: "persist_hard_state K C (n\<lparr>rn_state := ?s\<rparr>) = Some n'"
    by (auto simp: begin_election_def Let_def bind_eq_Some_conv)
  have s: "current_term ?s = Suc (current_term (rn_state n))" "voted_for ?s = Some (nc_node_id (rn_config n))"
    "role ?s = Candidate"
    using assms(4) by (simp_all add: become_candidate_def u64_inc_small)
  note sel = persist_hard_state_sel [OF p] and r = begin_election_result(1) [OF assms(1)]
  show "current_term (rn_state n') = Suc (current_term (rn_state n))"
    "voted_for (rn_state n') = Some (nc_node_id (rn_config n))" "role (rn_state n') = Candidate"
    "rn_config n' = rn_config n" "peers n' = peers n" "heartbeat_peers n' = heartbeat_peers n"
    by (simp_all add: sel s u64_inc_small [OF assms(4)])
  show "vote_durable K C n'" by (intro persist_hard_state_votes [OF assms(2,3) p]) (simp add: u64_inc_bound)
  show "vr_term req = Suc (current_term (rn_state n))" "vr_candidate_id req = nc_node_id (rn_config n)"
    by (simp_all add: r own_request_def Let_def u64_inc_small [OF assms(4)])
qed

lemma vote_request_sel:
  assumes "handle_vote_request K C now req n = Some (n', r)"
  shows "rn_state n' = fst (handle_request_vote req (rn_state n))" and "r = snd (handle_request_vote req (rn_state n))"
    and "rn_config n' = rn_config n" and "peers n' = peers n" and "heartbeat_peers n' = heartbeat_peers n"
    and "kv_laws K \<Longrightarrow> serde_laws C \<Longrightarrow> current_term (rn_state n') \<le> u64_max \<Longrightarrow> vote_durable K C n'"
proof -
  let ?h = "handle_request_vote req (rn_state n)"
  from assms obtain n1 where p: "persist_hard_state K C (n\<lparr>rn_state := fst ?h\<rparr>) = Some n1"
    and n': "n' = (if vote_granted (snd ?h) then n1\<lparr>last_heartbeat := now\<rparr> else n1)" and r: "r = snd ?h"
    by (auto simp: handle_vote_request_def Let_def split_beta bind_eq_Some_conv)
  note sel = persist_hard_state_sel [OF p]
  show "rn_state n' = fst ?h" "r = snd ?h" "rn_config n' = rn_config n" "peers n' = peers n"
    "heartbeat_peers n' = heartbeat_peers n"
    by (simp_all add: n' r sel)
  assume "kv_laws K" "serde_laws C" "current_term (rn_state n') \<le> u64_max"
  then have "vote_durable K C n1"
    by (intro persist_hard_state_votes [OF _ _ p]) (simp_all add: n' sel split: if_splits)
  then show "vote_durable K C n'" by (simp add: n' vote_durable_def)
qed

lemma vote_request_moves:
  "\<not> vote_granted (snd (handle_request_vote req s)) \<Longrightarrow> moves s (fst (handle_request_vote req s))"
  by (auto simp: moves_def rv_term rv_vote_change rv_role max_def)

lemma finish_election_sel:
  "rn_config (finish_election t v n) = rn_config n" "peers (finish_election t v n) = peers n"
  "heartbeat_peers (finish_election t v n) = heartbeat_peers n" "rn_storage (finish_election t v n) = rn_storage n"
  "current_term (rn_state (finish_election t v n)) = current_term (rn_state n)"
  "voted_for (rn_state (finish_election t v n)) = voted_for (rn_state n)"
  by (simp_all add: finish_election_def Let_def become_leader_def)

lemma finish_election_wins:
  assumes "role (rn_state (finish_election t v n)) = Leader" and "role (rn_state n) \<noteq> Leader"
  shows "role (rn_state n) = Candidate" and "current_term (rn_state n) = t" and "majority_of n \<le> v"
  using assms by (auto simp: finish_election_def Let_def split: if_splits)

lemma finish_election_loses:
  assumes "role (rn_state (finish_election t v n)) \<noteq> Leader \<or> role (rn_state n) = Leader"
  shows "role (rn_state (finish_election t v n)) = role (rn_state n)"
  using assms by (auto simp: finish_election_def Let_def become_leader_def split: if_splits)

end
