(* ===== verification/Cluster.thy ===== *)
theory Cluster
  imports Raft_Votes
begin

text \<open>
  A cluster of Raft nodes and its network as a transition system over the operations of
  \<open>RaftNode\<close> (\<open>src/raft/node.rs\<close>), and the election safety that \<open>src/raft/state.rs\<close> promises: at most
  one leader is elected in a term. A message that was sent can be delivered at any later time, any
  number of times or never. Answers to AppendEntries and InstallSnapshot are arbitrary.

  Two operations are left out of the relation, because with them the promise does not hold: the step
  down at the end of a leadership transfer, and the handling of an answer that arrives after the node
  has moved on to the answer's term or beyond. Both reset the vote of a term in which the node may have
  voted; \<open>transfer_elects_two_leaders\<close> of the theory Consensus shows what comes of the first.
\<close>

section \<open>Quorums\<close>

definition is_quorum :: "node_config \<Rightarrow> node_id set \<Rightarrow> bool" where
  "is_quorum cf S \<longleftrightarrow> card (cluster_ids cf) div 2 + 1 \<le> card S"

interpretation majority: quorums "cluster_ids cf" "is_quorum cf" for cf
  by unfold_locales (auto simp: is_quorum_def intro: majorities_meet [OF cluster_finite])

text \<open>An answer that moves the commit index of a leader.\<close>

lemma answer_commits:
  assumes "append_answer K C now p r n = Some n'" and "config_wf (rn_config n)" and "peers_tracked n"
    and "p \<in> set (peer_ids (rn_config n))" and "commit_index (rn_state n') \<noteq> commit_index (rn_state n)"
  shows "commit_index (rn_state n) < commit_index (rn_state n') \<and>
    (\<exists>e. get_entry (rn_state n') (commit_index (rn_state n')) = Some e \<and> le_term e = current_term (rn_state n')) \<and>
    holders (nc_node_id (rn_config n)) (rn_state n') (commit_index (rn_state n')) \<subseteq> cluster_ids (rn_config n) \<and>
    card (cluster_ids (rn_config n)) \<le> 2 * card (holders (nc_node_id (rn_config n)) (rn_state n') (commit_index (rn_state n'))) \<and>
    (even (card (cluster_ids (rn_config n))) \<or>
     is_quorum (rn_config n) (holders (nc_node_id (rn_config n)) (rn_state n') (commit_index (rn_state n'))))"
proof -
  let ?me = "nc_node_id (rn_config n)" and ?s' = "rn_state n'"
  let ?s = "(rn_state n)\<lparr>match_index := hm_insert p (aer_match_index r) (match_index (rn_state n)),
    next_index := hm_insert p (u64_inc (aer_match_index r)) (next_index (rn_state n))\<rparr>"
  have a: "?s' = advance_commit ?s"
    using assms(1,5) by (auto simp: append_answer_def Let_def step_down_def become_follower_def
        dest!: persist_hard_state_sel(1) split: if_splits)
  have c: "rn_config n' = rn_config n" by (rule append_answer_match [OF assms(1)])
  have t: "peers_tracked n'" by (rule append_answer_tracked [OF assms(1,3,4)])
  note len = tracked_length [OF _ t, unfolded c, OF assms(2)]
  have m: "match_index ?s' = match_index ?s" "get_entry ?s' = get_entry ?s" "last_log_index ?s' = last_log_index ?s"
    "current_term ?s' = current_term ?s"
    by (auto simp: a get_entry_def last_log_index_def Let_def)
  have h: "holders ?me ?s' i = holders ?me ?s i" for i unfolding holders_def m ..
  have "commit_index (advance_commit ?s) \<noteq> commit_index ?s" using assms(5) a by simp
  note q = advance_commit_quorum [of ?s ?me, OF _ _ this]
  have wf: "hm_wf (match_index ?s)" "hm_get (match_index ?s) ?me = None"
    using t len(2) by (simp_all add: peers_tracked_def m)
  have "hm_get (match_index ?s') x = Some v \<Longrightarrow> x \<in> set (peer_ids (rn_config n))" for x v
    using t unfolding peers_tracked_def c by (metis option.distinct(1))
  then have sub: "holders ?me ?s' i \<subseteq> cluster_ids (rn_config n)" for i
    by (auto simp: holders_def cluster_ids_def split: if_splits)
  have "card (cluster_ids (rn_config n)) \<le> 2 * card (holders ?me ?s' (commit_index ?s'))"
    using q(3) [OF wf] len(1) by (simp add: h a [symmetric] m(1))
  moreover have "\<exists>e. get_entry ?s' (commit_index ?s') = Some e \<and> le_term e = current_term ?s'"
    using q(2) [OF wf] by (simp add: a [symmetric] m)
  moreover have "even N \<or> N div 2 + 1 \<le> h" if "N \<le> 2 * h" for N h :: nat using that by presburger
  ultimately show ?thesis using q(1) [OF wf] sub unfolding is_quorum_def by (simp add: a [symmetric])
qed

section \<open>The cluster\<close>

record 'db cluster =
  cl_node :: "node_id \<Rightarrow> 'db raft_node"
  cl_requests :: "vote_request set"
  cl_grants :: "(node_id \<times> vote_request) set"
  cl_appends :: "(node_id \<times> append_entries_request) set"
  cl_snapshots :: "(node_id \<times> install_snapshot_request) set"
  cl_leaders :: "(u64 \<times> node_id) set"

abbreviation state_of :: "'db cluster \<Rightarrow> node_id \<Rightarrow> raft_state" where
  "state_of c i \<equiv> rn_state (cl_node c i)"

definition set_node :: "node_id \<Rightarrow> 'db raft_node \<Rightarrow> 'db cluster \<Rightarrow> 'db cluster" where
  "set_node i n c = c\<lparr>cl_node := (cl_node c)(i := n)\<rparr>"

text \<open>What is known of a node whatever has happened: its configuration and its connections.\<close>

definition member_ok :: "node_config \<Rightarrow> node_id \<Rightarrow> 'db raft_node \<Rightarrow> bool" where
  "member_ok cf i n \<longleftrightarrow>
     nc_node_id (rn_config n) = i \<and> config_wf (rn_config n) \<and> cluster_ids (rn_config n) = cluster_ids cf \<and>
     distinct (peers n) \<and> set (peers n) \<subseteq> set (peer_ids (rn_config n)) \<and>
     set (heartbeat_peers n) \<subseteq> set (peer_ids (rn_config n))"

definition initial :: "'db kv \<Rightarrow> node_config \<Rightarrow> 'db cluster \<Rightarrow> bool" where
  "initial K cf c \<longleftrightarrow>
     (\<forall>i \<in> cluster_ids cf. member_ok cf i (cl_node c i) \<and> state_of c i = raft_new \<and>
        (\<forall>db. rn_storage (cl_node c i) = Some db \<longrightarrow> (\<forall>k. contents K db k = None))) \<and>
     cl_requests c = {} \<and> cl_grants c = {} \<and> cl_appends c = {} \<and> cl_snapshots c = {} \<and> cl_leaders c = {}"

text \<open>
  The steps of a node \<open>i\<close>. Terms and log indices stay below \<open>2 ^ 64 - 1\<close>: a campaign or an append there
  would wrap around. In \<open>count\<close>
  the votes are those of the peers in \<open>P\<close>, which granted the node's own request, and its own; the
  history variable \<open>cl_leaders\<close> records who became leader in which term. In \<open>compact\<close> the snapshot is any, as it may have
  been taken some steps before. The step \<open>touch\<close> is what a node notes for itself: when it heard of whom, and the
  snapshot for its scheduler.
\<close>

definition same_core :: "'db raft_node \<Rightarrow> 'db raft_node \<Rightarrow> bool" where
  "same_core n n' \<longleftrightarrow>
     rn_config n' = rn_config n \<and> rn_state n' = rn_state n \<and> rn_storage n' = rn_storage n \<and> peers n' = peers n \<and>
     heartbeat_peers n' = heartbeat_peers n"

inductive cluster_step :: "'db kv \<Rightarrow> serde \<Rightarrow> ext \<Rightarrow> node_config \<Rightarrow> 'db cluster \<Rightarrow> 'db cluster \<Rightarrow> bool"
  for K C X cf where
  campaign: "\<lbrakk>i \<in> cluster_ids cf; current_term (state_of c i) < u64_max;
    begin_election K C (cl_node c i) = Some (n, req)\<rbrakk>
    \<Longrightarrow> cluster_step K C X cf c ((set_node i n c)\<lparr>cl_requests := insert req (cl_requests c)\<rparr>)"
| vote: "\<lbrakk>i \<in> cluster_ids cf; req \<in> cl_requests c; vr_candidate_id req \<noteq> i;
    handle_vote_request K C now req (cl_node c i) = Some (n, r)\<rbrakk>
    \<Longrightarrow> cluster_step K C X cf c
      ((set_node i n c)\<lparr>cl_grants := (if vote_granted r then insert (i, req) else id) (cl_grants c)\<rparr>)"
| count: "\<lbrakk>i \<in> cluster_ids cf; req \<in> cl_requests c; vr_candidate_id req = i;
    P \<subseteq> set (peers (cl_node c i)); \<forall>p \<in> P. (p, req) \<in> cl_grants c;
    n = finish_election (vr_term req) (Suc (card P)) (cl_node c i)\<rbrakk>
    \<Longrightarrow> cluster_step K C X cf c
      ((set_node i n c)\<lparr>cl_leaders := (if role (rn_state n) = Leader then insert (current_term (rn_state n), i) else id) (cl_leaders c)\<rparr>)"
| higher_term: "\<lbrakk>i \<in> cluster_ids cf; current_term (state_of c i) < t; t \<le> u64_max;
    step_down K C t (cl_node c i) = Some n\<rbrakk> \<Longrightarrow> cluster_step K C X cf c (set_node i n c)"
| heartbeat: "\<lbrakk>i \<in> cluster_ids cf; m \<in> set (heartbeat_round (cl_node c i))\<rbrakk>
    \<Longrightarrow> cluster_step K C X cf c (c\<lparr>cl_appends := insert m (cl_appends c)\<rparr>)"
| send_entries: "\<lbrakk>i \<in> cluster_ids cf; (p, SendEntries req) \<in> set (replicate_to_peers X (cl_node c i))\<rbrakk>
    \<Longrightarrow> cluster_step K C X cf c (c\<lparr>cl_appends := insert (p, req) (cl_appends c)\<rparr>)"
| send_snapshot: "\<lbrakk>i \<in> cluster_ids cf; (p, SendSnapshot sreq) \<in> set (replicate_to_peers X (cl_node c i))\<rbrakk>
    \<Longrightarrow> cluster_step K C X cf c (c\<lparr>cl_snapshots := insert (p, sreq) (cl_snapshots c)\<rparr>)"
| append: "\<lbrakk>i \<in> cluster_ids cf; (i, areq) \<in> cl_appends c;
    handle_append_entries_node K C X now areq (cl_node c i) = Some (n, ar)\<rbrakk>
    \<Longrightarrow> cluster_step K C X cf c (set_node i n c)"
| install: "\<lbrakk>i \<in> cluster_ids cf; (i, sreq) \<in> cl_snapshots c;
    handle_install_snapshot_node K C X now sreq (cl_node c i) = Some (n, sr)\<rbrakk>
    \<Longrightarrow> cluster_step K C X cf c (set_node i n c)"
| append_ack: "\<lbrakk>i \<in> cluster_ids cf; aer_term ar \<le> u64_max; append_answer K C now p ar (cl_node c i) = Some n\<rbrakk>
    \<Longrightarrow> cluster_step K C X cf c (set_node i n c)"
| snapshot_ack: "\<lbrakk>i \<in> cluster_ids cf; isr_term sr \<le> u64_max; snapshot_answer K C now p idx sr (cl_node c i) = Some n\<rbrakk>
    \<Longrightarrow> cluster_step K C X cf c (set_node i n c)"
| propose: "\<lbrakk>i \<in> cluster_ids cf; last_log_index (state_of c i) < u64_max;
    handle_append_command K C cmd (cl_node c i) = Some (n, res)\<rbrakk>
    \<Longrightarrow> cluster_step K C X cf c (set_node i n c)"
| deliver: "\<lbrakk>i \<in> cluster_ids cf; get_committed_entries (cl_node c i) = (n, es)\<rbrakk>
    \<Longrightarrow> cluster_step K C X cf c (set_node i n c)"
| compact: "\<lbrakk>i \<in> cluster_ids cf; compact_with K C sn (cl_node c i) = Some n\<rbrakk>
    \<Longrightarrow> cluster_step K C X cf c (set_node i n c)"
| touch: "\<lbrakk>i \<in> cluster_ids cf; same_core (cl_node c i) n\<rbrakk> \<Longrightarrow> cluster_step K C X cf c (set_node i n c)"
| connect: "\<lbrakk>i \<in> cluster_ids cf; n = connect_to_peers dial has_tls (cl_node c i)\<rbrakk>
    \<Longrightarrow> cluster_step K C X cf c (set_node i n c)"
| crash: "\<lbrakk>i \<in> cluster_ids cf; rn_storage (cl_node c i) = Some db;
    restart K C (rn_config (cl_node c i)) now db = Some n\<rbrakk>
    \<Longrightarrow> cluster_step K C X cf c (set_node i n c)"

inductive reachable :: "'db kv \<Rightarrow> serde \<Rightarrow> ext \<Rightarrow> node_config \<Rightarrow> 'db cluster \<Rightarrow> bool"
  for K C X cf where
  start: "initial K cf c \<Longrightarrow> reachable K C X cf c"
| step: "reachable K C X cf c \<Longrightarrow> cluster_step K C X cf c c' \<Longrightarrow> reachable K C X cf c'"

text \<open>The runs in which no node has compacted its log.\<close>

definition full :: "raft_state \<Rightarrow> bool" where
  "full s \<longleftrightarrow> log_offset s = 0 \<and> snapshot s = None"

definition uncompacted :: "node_config \<Rightarrow> 'db cluster \<Rightarrow> bool" where
  "uncompacted cf c \<longleftrightarrow> (\<forall>i \<in> cluster_ids cf. full (state_of c i))"

inductive reachable_full :: "'db kv \<Rightarrow> serde \<Rightarrow> ext \<Rightarrow> node_config \<Rightarrow> 'db cluster \<Rightarrow> bool"
  for K C X cf where
  start: "initial K cf c \<Longrightarrow> reachable_full K C X cf c"
| step: "reachable_full K C X cf c \<Longrightarrow> cluster_step K C X cf c c' \<Longrightarrow> uncompacted cf c' \<Longrightarrow> reachable_full K C X cf c'"

lemma reachable_full_reachable: "reachable_full K C X cf c \<Longrightarrow> reachable K C X cf c"
  by (induction rule: reachable_full.induct) (auto intro: reachable.intros)

lemma reachable_full_uncompacted: "reachable_full K C X cf c \<Longrightarrow> uncompacted cf c"
  by (induction rule: reachable_full.induct) (simp_all add: uncompacted_def initial_def full_def raft_new_def)

section \<open>The invariant\<close>

text \<open>A vote that was granted to another node is kept for the rest of the term, by a follower.\<close>

definition grant_ok :: "'db cluster \<Rightarrow> node_id \<Rightarrow> vote_request \<Rightarrow> bool" where
  "grant_ok c v req \<longleftrightarrow>
     v \<noteq> vr_candidate_id req \<and> vr_term req \<le> current_term (state_of c v) \<and>
     (vr_term req = current_term (state_of c v) \<longrightarrow>
        role (state_of c v) = Follower \<and> voted_for (state_of c v) = Some (vr_candidate_id req)) \<and>
     (vr_term req, v) \<notin> cl_leaders c"

text \<open>An elected leader had a quorum, and voted for itself as long as its term lasts.\<close>

definition leader_ok :: "node_config \<Rightarrow> 'db cluster \<Rightarrow> u64 \<Rightarrow> node_id \<Rightarrow> bool" where
  "leader_ok cf c t i \<longleftrightarrow>
     i \<in> cluster_ids cf \<and> t \<le> current_term (state_of c i) \<and>
     (t = current_term (state_of c i) \<longrightarrow> voted_for (state_of c i) = Some i) \<and>
     (\<exists>Q \<subseteq> cluster_ids cf. is_quorum cf Q \<and>
        (\<forall>v \<in> Q. v = i \<or> (\<exists>req. (v, req) \<in> cl_grants c \<and> vr_term req = t \<and> vr_candidate_id req = i)))"

definition node_ok :: "'db kv \<Rightarrow> serde \<Rightarrow> node_config \<Rightarrow> 'db cluster \<Rightarrow> node_id \<Rightarrow> bool" where
  "node_ok K C cf c i \<longleftrightarrow>
     member_ok cf i (cl_node c i) \<and> vote_durable K C (cl_node c i) \<and> current_term (state_of c i) \<le> u64_max \<and>
     (role (state_of c i) \<noteq> Follower \<longrightarrow> voted_for (state_of c i) = Some i) \<and>
     (role (state_of c i) = Leader \<longrightarrow> (current_term (state_of c i), i) \<in> cl_leaders c)"

text \<open>A replication message comes from the leader of its term, and not to itself.\<close>

definition sent_ok :: "'db cluster \<Rightarrow> node_id \<Rightarrow> u64 \<Rightarrow> node_id \<Rightarrow> bool" where
  "sent_ok c p t l \<longleftrightarrow> p \<noteq> l \<and> t \<le> u64_max \<and> (t, l) \<in> cl_leaders c"

definition election_inv :: "'db kv \<Rightarrow> serde \<Rightarrow> node_config \<Rightarrow> 'db cluster \<Rightarrow> bool" where
  "election_inv K C cf c \<longleftrightarrow>
     (\<forall>i \<in> cluster_ids cf. node_ok K C cf c i) \<and>
     (\<forall>v req. (v, req) \<in> cl_grants c \<longrightarrow> grant_ok c v req) \<and>
     (\<forall>v r1 r2. (v, r1) \<in> cl_grants c \<longrightarrow> (v, r2) \<in> cl_grants c \<longrightarrow> vr_term r1 = vr_term r2 \<longrightarrow>
        vr_candidate_id r1 = vr_candidate_id r2) \<and>
     (\<forall>t i. (t, i) \<in> cl_leaders c \<longrightarrow> leader_ok cf c t i) \<and>
     (\<forall>t i j. (t, i) \<in> cl_leaders c \<longrightarrow> (t, j) \<in> cl_leaders c \<longrightarrow> i = j) \<and>
     (\<forall>req \<in> cl_requests c. vr_term req \<le> u64_max) \<and>
     (\<forall>p req. (p, req) \<in> cl_appends c \<longrightarrow> sent_ok c p (ae_term req) (ae_leader_id req)) \<and>
     (\<forall>p req. (p, req) \<in> cl_snapshots c \<longrightarrow> sent_ok c p (is_term req) (is_leader_id req))"

lemma set_node_sel [simp]:
  "cl_node (set_node i n c) j = (if j = i then n else cl_node c j)"
  "cl_requests (set_node i n c) = cl_requests c" "cl_grants (set_node i n c) = cl_grants c"
  "cl_appends (set_node i n c) = cl_appends c" "cl_snapshots (set_node i n c) = cl_snapshots c"
  "cl_leaders (set_node i n c) = cl_leaders c"
  by (simp_all add: set_node_def)

lemma election_invD:
  assumes "election_inv K C cf c"
  shows "i \<in> cluster_ids cf \<Longrightarrow> node_ok K C cf c i"
    and "(v, req) \<in> cl_grants c \<Longrightarrow> grant_ok c v req"
    and "(v, r1) \<in> cl_grants c \<Longrightarrow> (v, r2) \<in> cl_grants c \<Longrightarrow> vr_term r1 = vr_term r2 \<Longrightarrow>
      vr_candidate_id r1 = vr_candidate_id r2"
    and "(t, i) \<in> cl_leaders c \<Longrightarrow> leader_ok cf c t i"
    and "(t, i) \<in> cl_leaders c \<Longrightarrow> (t, j) \<in> cl_leaders c \<Longrightarrow> i = j"
    and "rq \<in> cl_requests c \<Longrightarrow> vr_term rq \<le> u64_max"
    and "(p, areq) \<in> cl_appends c \<Longrightarrow> sent_ok c p (ae_term areq) (ae_leader_id areq)"
    and "(p, sreq) \<in> cl_snapshots c \<Longrightarrow> sent_ok c p (is_term sreq) (is_leader_id sreq)"
  using assms unfolding election_inv_def by blast+

lemma election_invI:
  assumes "\<And>i. i \<in> cluster_ids cf \<Longrightarrow> node_ok K C cf c i"
    and "\<And>v req. (v, req) \<in> cl_grants c \<Longrightarrow> grant_ok c v req"
    and "\<And>v r1 r2. (v, r1) \<in> cl_grants c \<Longrightarrow> (v, r2) \<in> cl_grants c \<Longrightarrow> vr_term r1 = vr_term r2 \<Longrightarrow>
      vr_candidate_id r1 = vr_candidate_id r2"
    and "\<And>t i. (t, i) \<in> cl_leaders c \<Longrightarrow> leader_ok cf c t i"
    and "\<And>t i j. (t, i) \<in> cl_leaders c \<Longrightarrow> (t, j) \<in> cl_leaders c \<Longrightarrow> i = j"
    and "\<And>rq. rq \<in> cl_requests c \<Longrightarrow> vr_term rq \<le> u64_max"
    and "\<And>p areq. (p, areq) \<in> cl_appends c \<Longrightarrow> sent_ok c p (ae_term areq) (ae_leader_id areq)"
    and "\<And>p sreq. (p, sreq) \<in> cl_snapshots c \<Longrightarrow> sent_ok c p (is_term sreq) (is_leader_id sreq)"
  shows "election_inv K C cf c"
  unfolding election_inv_def using assms by blast

lemma sent_ok_frame [simp]:
  "sent_ok (set_node i n c) p t l = sent_ok c p t l" "sent_ok (c\<lparr>cl_appends := A\<rparr>) p t l = sent_ok c p t l"
  "sent_ok (c\<lparr>cl_snapshots := S\<rparr>) p t l = sent_ok c p t l" "sent_ok (c\<lparr>cl_requests := R\<rparr>) p t l = sent_ok c p t l"
  "sent_ok (c\<lparr>cl_grants := G\<rparr>) p t l = sent_ok c p t l"
  by (simp_all add: sent_ok_def)

text \<open>Replacing the state of one node.\<close>

lemma inv_set_node:
  assumes inv: "election_inv K C cf c" and i: "i \<in> cluster_ids cf"
    and n: "member_ok cf i n" "vote_durable K C n" "current_term (rn_state n) \<le> u64_max"
      "role (rn_state n) \<noteq> Follower \<Longrightarrow> voted_for (rn_state n) = Some i"
      "role (rn_state n) = Leader \<Longrightarrow> (current_term (rn_state n), i) \<in> cl_leaders c"
    and mono: "current_term (state_of c i) \<le> current_term (rn_state n)"
    and grants: "\<And>req. (i, req) \<in> cl_grants c \<Longrightarrow> vr_term req = current_term (rn_state n) \<Longrightarrow>
      role (rn_state n) = Follower \<and> voted_for (rn_state n) = Some (vr_candidate_id req)"
    and leaders: "(current_term (rn_state n), i) \<in> cl_leaders c \<Longrightarrow> voted_for (rn_state n) = Some i"
  shows "election_inv K C cf (set_node i n c)"
proof (rule election_invI)
  fix j assume "j \<in> cluster_ids cf"
  then show "node_ok K C cf (set_node i n c) j"
    using n election_invD(1) [OF inv, of j] by (cases "j = i") (auto simp: node_ok_def)
next
  fix v req assume "(v, req) \<in> cl_grants (set_node i n c)"
  then show "grant_ok (set_node i n c) v req"
    using election_invD(2) [OF inv, of v req] mono grants [of req]
    by (cases "v = i") (auto simp: grant_ok_def)
next
  fix t j assume "(t, j) \<in> cl_leaders (set_node i n c)"
  then show "leader_ok cf (set_node i n c) t j"
    using election_invD(4) [OF inv, of t j] mono leaders
    by (cases "j = i") (auto simp: leader_ok_def)
qed (simp, erule (2) election_invD(3) [OF inv] | simp, erule (1) election_invD(5) [OF inv]
    | simp, erule election_invD(6) [OF inv] | simp, erule election_invD(7) [OF inv]
    | simp, erule election_invD(8) [OF inv])+

lemma inv_quiet:
  assumes inv: "election_inv K C cf c" and i: "i \<in> cluster_ids cf"
    and q: "quiet K C (cl_node c i) n" and bd: "current_term (rn_state n) \<le> u64_max"
  shows "election_inv K C cf (set_node i n c)"
proof -
  note ok = election_invD(1) [OF inv i, unfolded node_ok_def]
  have m: "moves (state_of c i) (rn_state n)" using q by (simp add: quiet_def)
  show ?thesis
  proof (rule inv_set_node [OF inv i _ _ bd])
    show "member_ok cf i n" using ok q by (simp add: member_ok_def quiet_def)
    show "vote_durable K C n" using ok q bd by (simp add: quiet_def)
    show "role (rn_state n) \<noteq> Follower \<Longrightarrow> voted_for (rn_state n) = Some i" using ok m by (auto simp: moves_def)
    show "role (rn_state n) = Leader \<Longrightarrow> (current_term (rn_state n), i) \<in> cl_leaders c"
      using ok m by (auto simp: moves_def)
    show "current_term (state_of c i) \<le> current_term (rn_state n)" using m by (auto simp: moves_def)
  next
    fix req assume "(i, req) \<in> cl_grants c" and t: "vr_term req = current_term (rn_state n)"
    from election_invD(2) [OF inv this(1)] t m
    show "role (rn_state n) = Follower \<and> voted_for (rn_state n) = Some (vr_candidate_id req)"
      by (auto simp: grant_ok_def moves_def)
  next
    assume "(current_term (rn_state n), i) \<in> cl_leaders c"
    from election_invD(4) [OF inv this] m show "voted_for (rn_state n) = Some i"
      by (auto simp: leader_ok_def moves_def)
  qed
qed

lemma inv_initial:
  assumes "initial K cf c"
  shows "election_inv K C cf c"
proof (rule election_invI)
  fix i assume "i \<in> cluster_ids cf"
  with assms show "node_ok K C cf c i"
    by (auto simp: initial_def node_ok_def vote_durable_def vote_stored_def raft_new_def)
qed (use assms in \<open>simp_all add: initial_def\<close>)

lemma ok_messages [simp]:
  "node_ok K C cf (c\<lparr>cl_appends := A\<rparr>) i = node_ok K C cf c i" "grant_ok (c\<lparr>cl_appends := A\<rparr>) v req = grant_ok c v req"
  "leader_ok cf (c\<lparr>cl_appends := A\<rparr>) t i = leader_ok cf c t i"
  "node_ok K C cf (c\<lparr>cl_snapshots := S\<rparr>) i = node_ok K C cf c i" "grant_ok (c\<lparr>cl_snapshots := S\<rparr>) v req = grant_ok c v req"
  "leader_ok cf (c\<lparr>cl_snapshots := S\<rparr>) t i = leader_ok cf c t i"
  "node_ok K C cf (c\<lparr>cl_requests := R\<rparr>) i = node_ok K C cf c i" "grant_ok (c\<lparr>cl_requests := R\<rparr>) v req = grant_ok c v req"
  "leader_ok cf (c\<lparr>cl_requests := R\<rparr>) t i = leader_ok cf c t i"
  "node_ok K C cf (c\<lparr>cl_grants := G\<rparr>) i = node_ok K C cf c i" "grant_ok (c\<lparr>cl_grants := G\<rparr>) v req = grant_ok c v req"
  by (simp_all add: node_ok_def grant_ok_def leader_ok_def)

lemma sent_ok_leader: "sent_ok c p t l \<Longrightarrow> sent_ok (c\<lparr>cl_leaders := insert x (cl_leaders c)\<rparr>) p t l"
  by (simp add: sent_ok_def)

lemma leader_ok_mono:
  assumes "leader_ok cf c t i" and "cl_node c' = cl_node c" and sub: "cl_grants c \<subseteq> cl_grants c'"
  shows "leader_ok cf c' t i"
proof -
  from assms(1) obtain Q where Q: "Q \<subseteq> cluster_ids cf" "is_quorum cf Q"
    "\<forall>v \<in> Q. v = i \<or> (\<exists>req. (v, req) \<in> cl_grants c \<and> vr_term req = t \<and> vr_candidate_id req = i)"
    unfolding leader_ok_def by (elim conjE exE)
  from Q(3) sub have "\<forall>v \<in> Q. v = i \<or> (\<exists>req. (v, req) \<in> cl_grants c' \<and> vr_term req = t \<and> vr_candidate_id req = i)"
    by blast
  with Q(1,2) assms(1,2) show ?thesis unfolding leader_ok_def by (intro conjI exI [of _ Q]) simp_all
qed

lemma inv_send:
  assumes inv: "election_inv K C cf c" and new: "sent_ok c p (ae_term req) (ae_leader_id req)"
  shows "election_inv K C cf (c\<lparr>cl_appends := insert (p, req) (cl_appends c)\<rparr>)"
proof (rule election_invI)
  fix q r assume "(q, r) \<in> cl_appends (c\<lparr>cl_appends := insert (p, req) (cl_appends c)\<rparr>)"
  then show "sent_ok (c\<lparr>cl_appends := insert (p, req) (cl_appends c)\<rparr>) q (ae_term r) (ae_leader_id r)"
    using election_invD(7) [OF inv, of q r] new by auto
qed ((simp add: election_invD(1,2,4) [OF inv]; fail) | simp, erule (2) election_invD(3) [OF inv] | simp, erule (1) election_invD(5) [OF inv]
    | simp, erule election_invD(6) [OF inv] | simp, erule election_invD(8) [OF inv])+

lemma inv_send_snapshot:
  assumes inv: "election_inv K C cf c" and new: "sent_ok c p (is_term req) (is_leader_id req)"
  shows "election_inv K C cf (c\<lparr>cl_snapshots := insert (p, req) (cl_snapshots c)\<rparr>)"
proof (rule election_invI)
  fix q r assume "(q, r) \<in> cl_snapshots (c\<lparr>cl_snapshots := insert (p, req) (cl_snapshots c)\<rparr>)"
  then show "sent_ok (c\<lparr>cl_snapshots := insert (p, req) (cl_snapshots c)\<rparr>) q (is_term r) (is_leader_id r)"
    using election_invD(8) [OF inv, of q r] new by auto
qed ((simp add: election_invD(1,2,4) [OF inv]; fail) | simp, erule (2) election_invD(3) [OF inv] | simp, erule (1) election_invD(5) [OF inv]
    | simp, erule election_invD(6) [OF inv] | simp, erule election_invD(7) [OF inv])+

lemma inv_request:
  assumes inv: "election_inv K C cf c" and "vr_term req \<le> u64_max"
  shows "election_inv K C cf (c\<lparr>cl_requests := insert req (cl_requests c)\<rparr>)"
proof (rule election_invI)
  fix r assume "r \<in> cl_requests (c\<lparr>cl_requests := insert req (cl_requests c)\<rparr>)"
  then show "vr_term r \<le> u64_max" using election_invD(6) [OF inv, of r] assms(2) by auto
qed ((simp add: election_invD(1,2,4) [OF inv]; fail) | simp, erule (2) election_invD(3) [OF inv] | simp, erule (1) election_invD(5) [OF inv]
    | simp, erule election_invD(7) [OF inv] | simp, erule election_invD(8) [OF inv])+

lemma inv_grant:
  assumes inv: "election_inv K C cf c" and ok: "grant_ok c v req"
    and same: "\<And>r. (v, r) \<in> cl_grants c \<Longrightarrow> vr_term r = vr_term req \<Longrightarrow> vr_candidate_id r = vr_candidate_id req"
  shows "election_inv K C cf (c\<lparr>cl_grants := insert (v, req) (cl_grants c)\<rparr>)"
proof (rule election_invI)
  fix t i assume "(t, i) \<in> cl_leaders (c\<lparr>cl_grants := insert (v, req) (cl_grants c)\<rparr>)"
  then have "leader_ok cf c t i" by (intro election_invD(4) [OF inv]) simp
  then show "leader_ok cf (c\<lparr>cl_grants := insert (v, req) (cl_grants c)\<rparr>) t i"
    by (rule leader_ok_mono) auto
next
  fix w r1 r2
  assume "(w, r1) \<in> cl_grants (c\<lparr>cl_grants := insert (v, req) (cl_grants c)\<rparr>)"
    "(w, r2) \<in> cl_grants (c\<lparr>cl_grants := insert (v, req) (cl_grants c)\<rparr>)" and t: "vr_term r1 = vr_term r2"
  then consider "w = v" "r1 = req" "r2 = req" | "w = v" "r1 = req" "(v, r2) \<in> cl_grants c"
    | "w = v" "r2 = req" "(v, r1) \<in> cl_grants c" | "(w, r1) \<in> cl_grants c" "(w, r2) \<in> cl_grants c"
    by auto
  then show "vr_candidate_id r1 = vr_candidate_id r2"
  proof cases
    case 2
    with same [of r2] t show ?thesis by simp
  next
    case 3
    with same [of r1] t show ?thesis by simp
  next
    case 4
    then show ?thesis using t by (rule election_invD(3) [OF inv])
  qed simp
next
  fix w r assume "(w, r) \<in> cl_grants (c\<lparr>cl_grants := insert (v, req) (cl_grants c)\<rparr>)"
  then show "grant_ok (c\<lparr>cl_grants := insert (v, req) (cl_grants c)\<rparr>) w r"
    using election_invD(2) [OF inv, of w r] ok by auto
qed ((simp add: election_invD(1) [OF inv]; fail) | simp, erule (1) election_invD(5) [OF inv]
    | simp, erule election_invD(6) [OF inv] | simp, erule election_invD(7) [OF inv]
    | simp, erule election_invD(8) [OF inv])+

text \<open>The win of an election: nobody else can have won it.\<close>

lemma inv_leader:
  assumes inv: "election_inv K C cf c" and i: "i \<in> cluster_ids cf"
    and cand: "role (state_of c i) = Candidate" and t: "current_term (state_of c i) = t"
    and Q: "Q \<subseteq> cluster_ids cf" "is_quorum cf Q"
      "\<And>v. v \<in> Q \<Longrightarrow> v = i \<or> (\<exists>req. (v, req) \<in> cl_grants c \<and> vr_term req = t \<and> vr_candidate_id req = i)"
  shows "election_inv K C cf (c\<lparr>cl_leaders := insert (t, i) (cl_leaders c)\<rparr>)"
proof -
  have voted: "voted_for (state_of c i) = Some i"
    using election_invD(1) [OF inv i] cand by (simp add: node_ok_def)
  have no_grant: "vr_term req \<noteq> t" if "(i, req) \<in> cl_grants c" for req
    using election_invD(2) [OF inv that] cand t by (auto simp: grant_ok_def)
  have unique: "j = i" if j: "(t, j) \<in> cl_leaders c" for j
  proof (rule ccontr)
    assume ne: "j \<noteq> i"
    from election_invD(4) [OF inv j] obtain Q' where Q': "Q' \<subseteq> cluster_ids cf" "is_quorum cf Q'"
      "\<And>v. v \<in> Q' \<Longrightarrow> v = j \<or> (\<exists>req. (v, req) \<in> cl_grants c \<and> vr_term req = t \<and> vr_candidate_id req = j)"
      unfolding leader_ok_def by blast
    obtain v where v: "v \<in> Q" "v \<in> Q'" using majority.quorum_meet [OF Q(1) Q'(1) Q(2) Q'(2)] by blast
    show False
    proof (cases "v = i")
      case True
      with Q'(3) [OF v(2)] ne no_grant show False by auto
    next
      case False
      with Q(3) [OF v(1)] obtain r where r: "(v, r) \<in> cl_grants c" "vr_term r = t" "vr_candidate_id r = i" by blast
      with election_invD(2) [OF inv r(1)] j have "v \<noteq> j" by (auto simp: grant_ok_def)
      with Q'(3) [OF v(2)] obtain r' where r': "(v, r') \<in> cl_grants c" "vr_term r' = t" "vr_candidate_id r' = j" by blast
      have "vr_candidate_id r = vr_candidate_id r'" by (rule election_invD(3) [OF inv r(1) r'(1)]) (simp add: r r')
      with r r' ne show False by simp
    qed
  qed
  show ?thesis
  proof (rule election_invI)
    fix t' j assume "(t', j) \<in> cl_leaders (c\<lparr>cl_leaders := insert (t, i) (cl_leaders c)\<rparr>)"
    then consider "t' = t" "j = i" | "(t', j) \<in> cl_leaders c" by auto
    then show "leader_ok cf (c\<lparr>cl_leaders := insert (t, i) (cl_leaders c)\<rparr>) t' j"
    proof cases
      case 1
      then show ?thesis using i t voted Q unfolding leader_ok_def by (simp, blast)
    next
      case 2
      from election_invD(4) [OF inv this] show ?thesis by (simp add: leader_ok_def)
    qed
  next
    fix v req assume "(v, req) \<in> cl_grants (c\<lparr>cl_leaders := insert (t, i) (cl_leaders c)\<rparr>)"
    then show "grant_ok (c\<lparr>cl_leaders := insert (t, i) (cl_leaders c)\<rparr>) v req"
      using election_invD(2) [OF inv, of v req] no_grant by (auto simp: grant_ok_def)
  next
    fix t' j k
    assume "(t', j) \<in> cl_leaders (c\<lparr>cl_leaders := insert (t, i) (cl_leaders c)\<rparr>)"
      "(t', k) \<in> cl_leaders (c\<lparr>cl_leaders := insert (t, i) (cl_leaders c)\<rparr>)"
    then show "j = k" using unique election_invD(5) [OF inv, of t' j k] by auto
  next
    fix j assume "j \<in> cluster_ids cf"
    from election_invD(1) [OF inv this] show "node_ok K C cf (c\<lparr>cl_leaders := insert (t, i) (cl_leaders c)\<rparr>) j"
      by (auto simp: node_ok_def)
  qed (simp, erule (2) election_invD(3) [OF inv]
      | simp, erule election_invD(6) [OF inv] | rule sent_ok_leader, simp, erule election_invD(7) [OF inv]
      | rule sent_ok_leader, simp, erule election_invD(8) [OF inv])+
qed

section \<open>Every step keeps the invariant\<close>

lemma inv_campaign:
  assumes inv: "election_inv K C cf c" and i: "i \<in> cluster_ids cf" and K: "kv_laws K" "serde_laws C"
    and t: "current_term (state_of c i) < u64_max" and op: "begin_election K C (cl_node c i) = Some (n, req)"
  shows "election_inv K C cf ((set_node i n c)\<lparr>cl_requests := insert req (cl_requests c)\<rparr>)"
proof -
  note ok = election_invD(1) [OF inv i, unfolded node_ok_def] and b = begin_election_votes [OF op K t]
  have "election_inv K C cf (set_node i n c)"
  proof (rule inv_set_node [OF inv i])
    show "member_ok cf i n" using ok by (simp add: member_ok_def b)
    show "role (rn_state n) = Leader \<Longrightarrow> (current_term (rn_state n), i) \<in> cl_leaders c" by (simp add: b)
  next
    fix rq assume "(i, rq) \<in> cl_grants c" and "vr_term rq = current_term (rn_state n)"
    with election_invD(2) [OF inv, of i rq] show "role (rn_state n) = Follower \<and> voted_for (rn_state n) = Some (vr_candidate_id rq)"
      by (simp add: grant_ok_def b)
  qed (use ok t in \<open>simp_all add: b member_ok_def\<close>)
  from inv_request [OF this, of req] t show ?thesis by (simp add: b)
qed

lemma inv_vote:
  assumes inv: "election_inv K C cf c" and i: "i \<in> cluster_ids cf" and K: "kv_laws K" "serde_laws C"
    and req: "req \<in> cl_requests c" "vr_candidate_id req \<noteq> i"
    and op: "handle_vote_request K C now req (cl_node c i) = Some (n, r)"
  shows "election_inv K C cf ((set_node i n c)\<lparr>cl_grants := (if vote_granted r then insert (i, req) else id) (cl_grants c)\<rparr>)"
proof -
  let ?s = "state_of c i" and ?h = "handle_request_vote req (state_of c i)"
  note ok = election_invD(1) [OF inv i, unfolded node_ok_def] and sel = vote_request_sel [OF op]
  have bd: "current_term (rn_state n) \<le> u64_max"
    using ok election_invD(6) [OF inv req(1)] by (simp add: sel rv_term)
  have dur: "vote_durable K C n" by (rule sel(6) [OF K bd])
  show ?thesis
  proof (cases "vote_granted r")
    case False
    then have "moves ?s (rn_state n)" using vote_request_moves [of req ?s] by (simp add: sel)
    then have "quiet K C (cl_node c i) n" using sel(3-5) dur by (simp add: quiet_def)
    from inv_quiet [OF inv i this bd] False show ?thesis by (simp add: set_node_def)
  next
    case True
    then have g: "vote_granted (snd ?h)" by (simp add: sel)
    note gi = g [unfolded rv_granted_iff] and gv = rv_granted_vote [OF g]
    have trm: "current_term (rn_state n) = vr_term req" and voted: "voted_for (rn_state n) = Some (vr_candidate_id req)"
      using gv by (simp_all add: sel)
    have old: "current_term ?s < vr_term req \<or> voted_for ?s = None \<or> voted_for ?s = Some (vr_candidate_id req)"
      using gi by auto
    have role: "role (rn_state n) = Follower"
    proof (cases "current_term ?s < vr_term req")
      case False
      then have "role ?s = Follower" using ok old req(2) by auto
      with False show ?thesis by (simp add: sel rv_role)
    qed (simp add: sel rv_role)
    have not_leader: "(vr_term req, i) \<notin> cl_leaders c"
    proof
      assume "(vr_term req, i) \<in> cl_leaders c"
      from election_invD(4) [OF inv this] gi old req(2) show False by (auto simp: leader_ok_def)
    qed
    have same: "vr_candidate_id rq = vr_candidate_id req" if "(i, rq) \<in> cl_grants c" "vr_term rq = vr_term req" for rq
      using election_invD(2) [OF inv that(1)] that(2) gi old by (auto simp: grant_ok_def)
    have "election_inv K C cf (set_node i n c)"
      by (rule inv_set_node [OF inv i _ dur bd])
        (use ok gi role not_leader same in \<open>auto simp: trm voted member_ok_def sel(3-5)\<close>)
    moreover have "grant_ok (set_node i n c) i req"
      using req(2) not_leader by (simp add: grant_ok_def trm voted role)
    ultimately have "election_inv K C cf ((set_node i n c)\<lparr>cl_grants := insert (i, req) (cl_grants (set_node i n c))\<rparr>)"
      by (rule inv_grant) (use same in simp)
    with True show ?thesis by simp
  qed
qed

lemma majority_quorum:
  assumes "member_ok cf i n" and "P \<subseteq> set (peers n)" and "majority_of n \<le> Suc (card P)"
  shows "insert i P \<subseteq> cluster_ids cf" and "is_quorum cf (insert i P)"
proof -
  from assms(1,2) have sub: "P \<subseteq> set (peer_ids (rn_config n))" and wf: "config_wf (rn_config n)"
    and ids: "cluster_ids (rn_config n) = cluster_ids cf" "nc_node_id (rn_config n) = i"
    by (auto simp: member_ok_def)
  from sub ids show "insert i P \<subseteq> cluster_ids cf" by (auto simp: cluster_ids_def)
  have "i \<notin> P" and "finite P" using sub wf ids finite_subset [OF sub] by (auto simp: config_wf_def)
  then have "card (insert i P) = Suc (card P)" by simp
  moreover have "card (cluster_ids cf) = Suc (length (nc_peers (rn_config n)))" using cluster_card [OF wf] ids by simp
  ultimately show "is_quorum cf (insert i P)" using assms(3) by (simp add: is_quorum_def majority_of_def)
qed

lemma inv_count:
  assumes inv: "election_inv K C cf c" and i: "i \<in> cluster_ids cf"
    and req: "req \<in> cl_requests c" "vr_candidate_id req = i"
    and P: "P \<subseteq> set (peers (cl_node c i))" "\<forall>p \<in> P. (p, req) \<in> cl_grants c"
    and n: "n = finish_election (vr_term req) (Suc (card P)) (cl_node c i)"
  shows "election_inv K C cf ((set_node i n c)\<lparr>cl_leaders :=
      (if role (rn_state n) = Leader then insert (current_term (rn_state n), i) else id) (cl_leaders c)\<rparr>)"
proof -
  note ok = election_invD(1) [OF inv i, unfolded node_ok_def] and sel = finish_election_sel [of "vr_term req" "Suc (card P)" "cl_node c i"]
  have same: "quiet K C (cl_node c i) n" if "role (rn_state n) = role (state_of c i)"
    by (rule quiet_state) (use that in \<open>simp_all add: n sel\<close>)
  have bd: "current_term (rn_state n) \<le> u64_max" using ok by (simp add: n sel)
  show ?thesis
  proof (cases "role (rn_state n) = Leader \<and> role (state_of c i) \<noteq> Leader")
    case False
    then have role: "role (rn_state n) = role (state_of c i)" unfolding n by (intro finish_election_loses) auto
    have "election_inv K C cf (set_node i n c)" by (rule inv_quiet [OF inv i same [OF role] bd])
    moreover have "insert (current_term (rn_state n), i) (cl_leaders c) = cl_leaders c" if "role (rn_state n) = Leader"
      using ok that role by (auto simp: n sel)
    ultimately show ?thesis by (cases "role (rn_state n) = Leader") (simp_all add: set_node_def)
  next
    case True
    then have w: "role (state_of c i) = Candidate" "current_term (state_of c i) = vr_term req"
      "majority_of (cl_node c i) \<le> Suc (card P)"
      using finish_election_wins [of "vr_term req" "Suc (card P)" "cl_node c i"] by (simp_all add: n)
    let ?c = "c\<lparr>cl_leaders := insert (vr_term req, i) (cl_leaders c)\<rparr>"
    have m: "member_ok cf i (cl_node c i)" using ok by simp
    have inv': "election_inv K C cf ?c"
      by (rule inv_leader [OF inv i w(1,2) majority_quorum [OF m P(1) w(3)]]) (use P(2) req(2) in auto)
    have "election_inv K C cf (set_node i n ?c)"
    proof (rule inv_set_node [OF inv' i])
      show "vote_durable K C n" using ok by (simp add: vote_durable_def n sel)
    next
      fix rq assume "(i, rq) \<in> cl_grants ?c" and "vr_term rq = current_term (rn_state n)"
      with election_invD(2) [OF inv, of i rq] w show "role (rn_state n) = Follower \<and> voted_for (rn_state n) = Some (vr_candidate_id rq)"
        by (auto simp: grant_ok_def n sel)
    qed (use ok w in \<open>simp_all add: n sel member_ok_def\<close>)
    moreover have "set_node i n ?c = (set_node i n c)\<lparr>cl_leaders := insert (vr_term req, i) (cl_leaders c)\<rparr>"
      by (simp add: set_node_def)
    ultimately show ?thesis using True w(2) by (simp add: n sel)
  qed
qed

lemma inv_append:
  assumes inv: "election_inv K C cf c" and i: "i \<in> cluster_ids cf" and K: "kv_laws K" "serde_laws C"
    and req: "(i, req) \<in> cl_appends c"
    and op: "handle_append_entries_node K C X now req (cl_node c i) = Some (n, r)"
  shows "election_inv K C cf (set_node i n c)"
proof -
  let ?s = "state_of c i"
  note ok = election_invD(1) [OF inv i, unfolded node_ok_def] and sel = append_entries_node_sel [OF op]
    and m = election_invD(7) [OF inv req, unfolded sent_ok_def]
  have bd: "current_term (rn_state n) \<le> u64_max" using ok m by (simp add: sel hae_term)
  have dur: "vote_durable K C n" by (rule sel(5) [OF K bd])
  show ?thesis
  proof (cases "ae_term req \<noteq> current_term ?s \<or> role ?s = Follower")
    case True
    from append_entries_moves [OF this] have "quiet K C (cl_node c i) n"
      using sel dur by (simp add: quiet_def)
    from inv_quiet [OF inv i this bd] show ?thesis .
  next
    case False
    then have t: "ae_term req = current_term ?s" and role: "role ?s \<noteq> Follower" by auto
    have other: "(current_term ?s, i) \<notin> cl_leaders c"
      using m election_invD(5) [OF inv, of "current_term ?s" i "ae_leader_id req"] t by auto
    have f: "role (rn_state n) = Follower" "current_term (rn_state n) = current_term ?s"
      using hae_follower(1) [of ?s req X] t by (simp_all add: sel hae_term)
    show ?thesis
    proof (rule inv_set_node [OF inv i _ dur bd])
      fix rq assume "(i, rq) \<in> cl_grants c" and "vr_term rq = current_term (rn_state n)"
      with election_invD(2) [OF inv, of i rq] role f show "role (rn_state n) = Follower \<and> voted_for (rn_state n) = Some (vr_candidate_id rq)"
        by (auto simp: grant_ok_def)
    qed (use ok other f in \<open>simp_all add: member_ok_def sel(2-4)\<close>)
  qed
qed

lemma connect_to_peer_keeps:
  assumes "member_ok cf i n" and "p \<in> set (nc_peers (rn_config n))"
  shows "member_ok cf i (connect_to_peer dial has_tls n p)" "rn_state (connect_to_peer dial has_tls n p) = rn_state n"
    "rn_storage (connect_to_peer dial has_tls n p) = rn_storage n" "rn_config (connect_to_peer dial has_tls n p) = rn_config n"
  using assms by (auto simp: connect_to_peer_def member_ok_def peer_ids_def split: dial_result.split)

lemma connect_fold_keeps:
  "member_ok cf i n \<Longrightarrow> set ps \<subseteq> set (nc_peers (rn_config n)) \<Longrightarrow>
   member_ok cf i (foldl (connect_to_peer dial has_tls) n ps) \<and> rn_state (foldl (connect_to_peer dial has_tls) n ps) = rn_state n \<and>
   rn_storage (foldl (connect_to_peer dial has_tls) n ps) = rn_storage n"
proof (induction ps arbitrary: n)
  case (Cons p ps)
  then show ?case using Cons.IH [of "connect_to_peer dial has_tls n p"] connect_to_peer_keeps [of cf i n p dial has_tls] by simp
qed simp

lemma inv_same_state:
  assumes inv: "election_inv K C cf c" and i: "i \<in> cluster_ids cf" and "member_ok cf i n" and "vote_durable K C n"
    and "current_term (rn_state n) = current_term (state_of c i)" and "voted_for (rn_state n) = voted_for (state_of c i)"
    and "role (rn_state n) = role (state_of c i) \<or> role (rn_state n) = Follower"
  shows "election_inv K C cf (set_node i n c)"
proof -
  note ok = election_invD(1) [OF inv i, unfolded node_ok_def]
  show ?thesis
  proof (rule inv_set_node [OF inv i assms(3,4)])
    fix rq assume "(i, rq) \<in> cl_grants c" and "vr_term rq = current_term (rn_state n)"
    with election_invD(2) [OF inv, of i rq] assms(5-7)
    show "role (rn_state n) = Follower \<and> voted_for (rn_state n) = Some (vr_candidate_id rq)"
      by (auto simp: grant_ok_def)
  next
    assume "(current_term (rn_state n), i) \<in> cl_leaders c"
    from election_invD(4) [OF inv this] assms(5,6) show "voted_for (rn_state n) = Some i" by (simp add: leader_ok_def)
  qed (use ok assms(5-7) in auto)
qed

text \<open>What a leader sends.\<close>

lemma leader_sends:
  assumes inv: "election_inv K C cf c" and i: "i \<in> cluster_ids cf" and lead: "role (state_of c i) = Leader"
    and p: "p \<in> set (peers (cl_node c i)) \<union> set (heartbeat_peers (cl_node c i))"
  shows "sent_ok c p (current_term (state_of c i)) (nc_node_id (rn_config (cl_node c i)))"
  using election_invD(1) [OF inv i] lead p by (auto simp: node_ok_def sent_ok_def member_ok_def config_wf_def)

lemma replicate_entries:
  assumes "(p, SendEntries req) \<in> set (replicate_to_peers X n)"
  shows "role (rn_state n) = Leader" "p \<in> set (peers n)" "ae_term req = current_term (rn_state n)"
    "ae_leader_id req = nc_node_id (rn_config n)"
  using assms by (auto simp: replicate_to_peers_def replicate_to_peer_def append_request_def Let_def
      split: if_splits option.splits)

lemma replicate_snapshot:
  assumes "(p, SendSnapshot req) \<in> set (replicate_to_peers X n)"
  shows "role (rn_state n) = Leader" "p \<in> set (peers n)" "is_term req = current_term (rn_state n)"
    "is_leader_id req = nc_node_id (rn_config n)"
  using assms by (auto simp: replicate_to_peers_def replicate_to_peer_def snapshot_request_def Let_def
      split: if_splits option.splits)

lemma inv_step:
  assumes "cluster_step K C X cf c c'" and inv: "election_inv K C cf c" and K: "kv_laws K" "serde_laws C"
  shows "election_inv K C cf c'"
  using assms(1)
proof cases
  case (campaign i n req)
  show ?thesis unfolding campaign(1) by (rule inv_campaign [OF inv campaign(2) K campaign(3,4)])
next
  case (vote i req now n r)
  show ?thesis unfolding vote(1) by (rule inv_vote [OF inv vote(2) K vote(3-5)])
next
  case (count i req P n)
  show ?thesis unfolding count(1) by (rule inv_count [OF inv count(2-7)])
next
  case (higher_term i t n)
  have "current_term (rn_state n) = t"
    using persist_hard_state_sel(1) [OF higher_term(5) [unfolded step_down_def]] by simp
  with higher_term(4) show ?thesis unfolding higher_term(1)
    by (intro inv_quiet [OF inv higher_term(2) step_down_quiet [OF K higher_term(5,3)]]) simp
next
  case (heartbeat i m)
  let ?n = "cl_node c i"
  from heartbeat(3) obtain p where p: "role (rn_state ?n) = Leader" "p \<in> set (heartbeat_peers ?n)"
    and m: "m = (p, heartbeat_request (nc_node_id (rn_config ?n)) (rn_state ?n))"
    by (auto simp: heartbeat_round_def split: if_splits)
  with leader_sends [OF inv heartbeat(2) p(1), of p] show ?thesis unfolding heartbeat(1) m
    by (intro inv_send [OF inv]) (simp add: heartbeat_request_def)
next
  case (send_entries i p req)
  note r = replicate_entries [OF send_entries(3)]
  from leader_sends [OF inv send_entries(2) r(1), of p] r show ?thesis
    unfolding send_entries(1) by (intro inv_send [OF inv]) simp
next
  case (send_snapshot i p req)
  note r = replicate_snapshot [OF send_snapshot(3)]
  from leader_sends [OF inv send_snapshot(2) r(1), of p] r show ?thesis
    unfolding send_snapshot(1) by (intro inv_send_snapshot [OF inv]) simp
next
  case (append i req now n ar)
  show ?thesis unfolding append(1) by (rule inv_append [OF inv append(2) K append(3,4)])
next
  case (install i req now n sr)
  note sel = install_snapshot_node_sel [OF install(4) K]
  have "current_term (rn_state n) \<le> u64_max"
    using election_invD(1) [OF inv install(2)] election_invD(8) [OF inv install(3)]
    by (simp add: sel(1) his_term node_ok_def sent_ok_def)
  then show ?thesis unfolding install(1) by (rule inv_quiet [OF inv install(2) sel(2)])
next
  case (append_ack i ar now p n)
  have "current_term (rn_state n) \<le> u64_max"
    using election_invD(1) [OF inv append_ack(2)] append_ack(3) append_answer_term [OF append_ack(4)]
    by (auto simp: node_ok_def)
  then show ?thesis unfolding append_ack(1)
    by (rule inv_quiet [OF inv append_ack(2) append_answer_quiet [OF K append_ack(4)]])
next
  case (snapshot_ack i sr now p idx n)
  have "current_term (rn_state n) \<le> u64_max"
    using election_invD(1) [OF inv snapshot_ack(2)] snapshot_ack(3) snapshot_answer_term [OF snapshot_ack(4)]
    by (auto simp: node_ok_def)
  then show ?thesis unfolding snapshot_ack(1)
    by (rule inv_quiet [OF inv snapshot_ack(2) snapshot_answer_quiet [OF K snapshot_ack(4)]])
next
  case (propose i cmd n res)
  have q: "quiet K C (cl_node c i) n" by (rule append_command_quiet [OF K(1) propose(4)])
  have "current_term (rn_state n) = current_term (state_of c i)" by (rule append_command_term [OF propose(4)])
  then show ?thesis unfolding propose(1)
    using election_invD(1) [OF inv propose(2)] by (intro inv_quiet [OF inv propose(2) q]) (simp add: node_ok_def)
next
  case (deliver i n es)
  have "current_term (rn_state n) = current_term (state_of c i)"
    using deliver(3) by (auto simp: get_committed_entries_def committed_loop_result)
  then show ?thesis unfolding deliver(1)
    using election_invD(1) [OF inv deliver(2)]
    by (intro inv_quiet [OF inv deliver(2) get_committed_quiet [OF deliver(3)]]) (simp add: node_ok_def)
next
  case (compact i sn n)
  have "current_term (rn_state n) = current_term (state_of c i)" by (simp add: compact_with_sel(1) [OF compact(3)])
  then show ?thesis unfolding compact(1)
    using election_invD(1) [OF inv compact(2)]
    by (intro inv_quiet [OF inv compact(2) compact_with_quiet [OF K(1) compact(3)]]) (simp add: node_ok_def)
next
  case (touch i n)
  have "quiet K C (cl_node c i) n" using touch(3) by (intro quiet_state) (simp_all add: same_core_def)
  with touch election_invD(1) [OF inv touch(2)] show ?thesis
    by (simp add: inv_quiet [OF inv touch(2)] node_ok_def same_core_def)
next
  case (connect i n dial has_tls)
  have ok: "member_ok cf i (cl_node c i)" "vote_durable K C (cl_node c i)"
    using election_invD(1) [OF inv connect(2)] by (simp_all add: node_ok_def)
  note k = connect_fold_keeps [OF ok(1) subset_refl, of dial has_tls, folded connect_to_peers_def, folded connect(3)]
  with ok(2) have "vote_durable K C n" by (simp add: vote_durable_def)
  with k show ?thesis unfolding connect(1) by (intro inv_same_state [OF inv connect(2)]) simp_all
next
  case (crash i db now n)
  have ok: "member_ok cf i (cl_node c i)" "vote_durable K C (cl_node c i)"
    using election_invD(1) [OF inv crash(2)] by (simp_all add: node_ok_def)
  note r = restart_votes [OF K(1) ok(2) crash(3,4)]
  have "member_ok cf i n" using ok(1) r by (simp add: member_ok_def)
  with r show ?thesis unfolding crash(1) by (intro inv_same_state [OF inv crash(2)]) simp_all
qed

lemma inv_reachable: "reachable K C X cf c \<Longrightarrow> kv_laws K \<Longrightarrow> serde_laws C \<Longrightarrow> election_inv K C cf c"
  by (induction rule: reachable.induct) (auto intro: inv_initial inv_step)

section \<open>A leader only appends\<close>

text \<open>What a log still holds: every entry that was there, unless it has been compacted.\<close>

definition log_keeps :: "raft_state \<Rightarrow> raft_state \<Rightarrow> bool" where
  "log_keeps s s' \<longleftrightarrow> (\<forall>k e. get_entry s k = Some e \<longrightarrow> get_entry s' k = Some e \<or> k \<le> log_offset s')"

lemma log_keeps_same: "rlog s' = rlog s \<Longrightarrow> log_offset s' = log_offset s \<Longrightarrow> log_keeps s s'"
  by (simp add: log_keeps_def get_entry_def Let_def)

lemma log_keeps_extend: "rlog s' = rlog s @ es \<Longrightarrow> log_offset s' = log_offset s \<Longrightarrow> log_keeps s s'"
  by (auto simp: log_keeps_def get_entry_def Let_def nth_append split: if_splits)

lemma log_keeps_compact: "log_keeps s (compact_log sn s)"
  by (auto simp: log_keeps_def get_entry_def compact_log_def Let_def nth_drop split: if_splits)

lemma log_keeps_vote: "log_keeps s (fst (handle_request_vote req s))"
  by (rule log_keeps_same) simp_all

lemma log_keeps_count: "log_keeps (rn_state n) (rn_state (finish_election t v n))"
  by (rule log_keeps_same) (simp_all add: finish_election_def Let_def become_leader_def)

lemma log_keeps_append_answer:
  assumes "append_answer K C now p r n = Some n'"
  shows "log_keeps (rn_state n) (rn_state n')"
  by (rule log_keeps_same)
    (use assms in \<open>auto simp: append_answer_def Let_def step_down_def advance_commit_def become_follower_def
      dest!: persist_hard_state_sel(1) split: if_splits option.splits\<close>)

lemma log_keeps_snapshot_answer:
  assumes "snapshot_answer K C now p idx r n = Some n'"
  shows "log_keeps (rn_state n) (rn_state n')"
  by (rule log_keeps_same)
    (use assms in \<open>auto simp: snapshot_answer_def Let_def step_down_def become_follower_def
      dest!: persist_hard_state_sel(1) split: if_splits\<close>)

lemma log_keeps_propose:
  assumes "handle_append_command K C cmd n = Some (n', r)"
  shows "log_keeps (rn_state n) (rn_state n')"
proof (cases "role (rn_state n) = Leader")
  case True
  with assms have "rn_state n' = fst (append_entry cmd (rn_state n))"
    by (auto simp: handle_append_command_def append_command_def persist_entry_def Let_def split_beta
        dest!: with_storage_sel(1))
  then show ?thesis by (intro log_keeps_extend [where es = "[snd (append_entry cmd (rn_state n))]"])
      (simp_all add: append_entry_def Let_def)
next
  case False
  with assms show ?thesis
    by (intro log_keeps_same) (auto simp: handle_append_command_def append_command_def Let_def)
qed

lemma leader_step:
  assumes "cluster_step K C X cf c c'" and inv: "election_inv K C cf c" and K: "kv_laws K" "serde_laws C"
    and lead: "role (state_of c j) = Leader" "role (state_of c' j) = Leader"
    and same: "current_term (state_of c' j) = current_term (state_of c j)"
  shows "log_keeps (state_of c j) (state_of c' j)"
  using assms(1)
proof cases
  case (campaign i n req)
  with begin_election_votes(3) [OF campaign(4) K campaign(3)] lead show ?thesis
    by (cases "j = i") (simp_all add: log_keeps_same)
next
  case (vote i req now n r)
  with vote_request_sel(1) [OF vote(5)] show ?thesis
    by (cases "j = i") (simp_all add: log_keeps_same)
next
  case (count i req P n)
  with log_keeps_count show ?thesis by (cases "j = i") (simp_all add: log_keeps_same)
next
  case (higher_term i t n)
  with same step_down_term [OF higher_term(5)] show ?thesis by (cases "j = i") (simp_all add: log_keeps_same)
next
  case (append i req now n r)
  show ?thesis
  proof (cases "j = i \<and> current_term (state_of c i) \<le> ae_term req")
    case True
    with hae_follower(1) [of "state_of c i" req X] append_entries_node_sel(1) [OF append(4)] lead append(1)
    show ?thesis by simp
  next
    case False
    with append(1) append_entries_node_sel(1) [OF append(4)] show ?thesis
      by (cases "j = i") (simp_all add: hae_stale log_keeps_same)
  qed
next
  case (install i req now n r)
  note sel = install_snapshot_node_sel(1) [OF install(4) K]
  have other: "current_term (state_of c i) \<noteq> is_term req" if "j = i"
  proof
    assume "current_term (state_of c i) = is_term req"
    moreover have "(current_term (state_of c i), i) \<in> cl_leaders c"
      using election_invD(1) [OF inv install(2)] lead(1) that by (simp add: node_ok_def)
    ultimately show False
      using election_invD(8) [OF inv install(3)] election_invD(5) [OF inv, of "is_term req" i "is_leader_id req"]
      by (simp add: sent_ok_def)
  qed
  have "\<not> current_term (state_of c i) < is_term req" if "j = i"
    using that same install(1) by (auto simp: sel his_term)
  with other show ?thesis using install(1) sel by (cases "j = i") (simp_all add: his_cases(1) log_keeps_same)
next
  case (append_ack i ar now p n)
  with log_keeps_append_answer [OF append_ack(4)] show ?thesis by (cases "j = i") (simp_all add: log_keeps_same)
next
  case (snapshot_ack i sr now p idx n)
  with log_keeps_snapshot_answer [OF snapshot_ack(4)] show ?thesis by (cases "j = i") (simp_all add: log_keeps_same)
next
  case (propose i cmd n res)
  with log_keeps_propose [OF propose(4)] show ?thesis by (cases "j = i") (simp_all add: log_keeps_same)
next
  case (deliver i n es)
  then show ?thesis
    by (cases "j = i") (auto simp: get_committed_entries_def committed_loop_result intro!: log_keeps_same)
next
  case (compact i sn n)
  then show ?thesis by (cases "j = i") (simp_all add: log_keeps_same log_keeps_compact compact_with_sel(1) [OF compact(3)])
next
  case (touch i n)
  then show ?thesis by (cases "j = i") (simp_all add: log_keeps_same same_core_def)
next
  case (connect i n dial has_tls)
  have "member_ok cf i (cl_node c i)" using election_invD(1) [OF inv connect(2)] by (simp add: node_ok_def)
  from connect_fold_keeps [OF this subset_refl, of dial has_tls] connect(1,3) show ?thesis
    by (cases "j = i") (simp_all add: connect_to_peers_def log_keeps_same)
next
  case (crash i db now n)
  have "vote_durable K C (cl_node c i)" using election_invD(1) [OF inv crash(2)] by (simp add: node_ok_def)
  from restart_votes(3) [OF K(1) this crash(3,4)] lead crash(1) show ?thesis
    by (cases "j = i") (simp_all add: log_keeps_same)
qed (simp_all add: log_keeps_same)

end
