(* ===== verification/Cluster_Runs.thy ===== *)
theory Cluster_Runs
  imports Cluster
begin

text \<open>
  Concrete runs of a cluster of three nodes (\<open>src/raft/node.rs\<close>): an election, a leadership transfer
  after which two nodes lead in the same term, and the replication of an entry and a heartbeat that commits another
  one on a node whose log conflicts.
\<close>

section \<open>Elections\<close>

text \<open>Nodes without a database.\<close>

lemma with_no_storage: "rn_storage n = None \<Longrightarrow> with_storage f n = Some n"
  by (simp add: with_storage_def)

definition ballot :: "node_id \<Rightarrow> raft_state \<Rightarrow> vote_request" where
  "ballot i s = \<lparr>vr_term = Suc (current_term s), vr_candidate_id = i, vr_last_log_index = last_log_index s,
     vr_last_log_term = last_log_term s\<rparr>"

lemma memory_campaign:
  assumes "rn_storage n = None" and "current_term (rn_state n) < u64_max"
  shows "begin_election K C n =
    Some (n\<lparr>rn_state := become_candidate (nc_node_id (rn_config n)) (rn_state n)\<rparr>, ballot (nc_node_id (rn_config n)) (rn_state n))"
  using assms
  by (simp add: begin_election_def persist_hard_state_def with_no_storage ballot_def Let_def
      become_candidate_def last_log_index_def last_log_term_def u64_inc_small)

lemma memory_vote:
  assumes "rn_storage n = None" and "current_term (rn_state n) < vr_term req"
    and "log_le (log_position (rn_state n)) (vr_last_log_term req, vr_last_log_index req)"
  shows "handle_vote_request K C now req n =
    Some (n\<lparr>rn_state := (become_follower (vr_term req) (rn_state n))\<lparr>voted_for := Some (vr_candidate_id req)\<rparr>, last_heartbeat := now\<rparr>,
          \<lparr>vres_term = vr_term req, vote_granted = True\<rparr>)"
  using assms
  by (cases "rlog (rn_state n) = []")
    (simp_all add: handle_vote_request_def handle_request_vote_def persist_hard_state_def with_no_storage
      Let_def become_follower_def is_log_up_to_date_le last_log_index_def last_log_term_def)

text \<open>
  In a cluster of three, a candidate with one vote besides its own is elected: node \<open>i\<close> campaigns, node
  \<open>v\<close> of a lower term votes, node \<open>i\<close> counts. The rest of the cluster stays as it is.
\<close>

definition elected :: "node_id \<Rightarrow> node_id \<Rightarrow> 'db cluster \<Rightarrow> 'db cluster" where
  "elected i v c =
     (let t = Suc (current_term (state_of c i)); ni = cl_node c i; nv = cl_node c v in
      (set_node i (ni\<lparr>rn_state := become_leader i (peer_ids (rn_config ni))
           ((become_candidate i (rn_state ni))\<lparr>votes_received := 2\<rparr>)\<rparr>)
        (set_node v (nv\<lparr>rn_state := (become_follower t (rn_state nv))\<lparr>voted_for := Some i\<rparr>, last_heartbeat := 0\<rparr>) c))
      \<lparr>cl_requests := insert (ballot i (rn_state ni)) (cl_requests c),
       cl_grants := insert (v, ballot i (rn_state ni)) (cl_grants c),
       cl_leaders := insert (t, i) (cl_leaders c)\<rparr>)"

text \<open>Steps that do not compact a log.\<close>

definition full_step :: "'db kv \<Rightarrow> serde \<Rightarrow> ext \<Rightarrow> node_config \<Rightarrow> 'db cluster \<Rightarrow> 'db cluster \<Rightarrow> bool" where
  "full_step K C X cf c c' \<longleftrightarrow> cluster_step K C X cf c c' \<and> (uncompacted cf c \<longrightarrow> uncompacted cf c')"

lemma full_steps: "(full_step K C X cf)\<^sup>*\<^sup>* c c' \<Longrightarrow> (cluster_step K C X cf)\<^sup>*\<^sup>* c c'"
  by (rule rtranclp_mono [THEN predicate2D]) (auto simp: full_step_def)

lemma reachable_full_star: "(full_step K C X cf)\<^sup>*\<^sup>* c c' \<Longrightarrow> reachable_full K C X cf c \<Longrightarrow> reachable_full K C X cf c'"
  by (induction rule: rtranclp_induct)
    (auto simp: full_step_def intro: reachable_full.step reachable_full_uncompacted)

lemma full_stepI:
  "cluster_step K C X cf c c' \<Longrightarrow> (\<And>i. full (state_of c i) \<Longrightarrow> full (state_of c' i)) \<Longrightarrow> full_step K C X cf c c'"
  by (auto simp: full_step_def uncompacted_def)

text \<open>The three moves of such an election.\<close>

lemma elected_moves:
  assumes "i \<noteq> v" and mem: "rn_storage (cl_node c i) = None" "rn_storage (cl_node c v) = None"
    and t: "current_term (state_of c i) < u64_max" "current_term (state_of c v) < Suc (current_term (state_of c i))"
    and log: "log_le (log_position (state_of c v)) (log_position (state_of c i))"
    and me: "nc_node_id (rn_config (cl_node c i)) = i" and v: "v \<in> set (peers (cl_node c i))"
    and three: "length (nc_peers (rn_config (cl_node c i))) = 2"
  obtains n1 n2 r n3 c1 c2 req where "begin_election K C (cl_node c i) = Some (n1, req)" and "vr_candidate_id req = i"
    and "c1 = (set_node i n1 c)\<lparr>cl_requests := insert req (cl_requests c)\<rparr>"
    and "handle_vote_request K C 0 req (cl_node c1 v) = Some (n2, r)"
    and "c2 = (set_node v n2 c1)\<lparr>cl_grants := (if vote_granted r then insert (v, req) else id) (cl_grants c1)\<rparr>"
    and "{v} \<subseteq> set (peers (cl_node c2 i))" and "\<forall>p \<in> {v}. (p, req) \<in> cl_grants c2" and "req \<in> cl_requests c2"
    and "n3 = finish_election (vr_term req) (Suc (card {v})) (cl_node c2 i)"
    and "elected i v c = (set_node i n3 c2)\<lparr>cl_leaders :=
      (if role (rn_state n3) = Leader then insert (current_term (rn_state n3), i) else id) (cl_leaders c2)\<rparr>"
proof -
  let ?t = "Suc (current_term (state_of c i))" and ?ni = "cl_node c i" and ?nv = "cl_node c v"
  let ?req = "ballot i (rn_state ?ni)" and ?r = "\<lparr>vres_term = ?t, vote_granted = True\<rparr>"
  let ?n1 = "?ni\<lparr>rn_state := become_candidate i (rn_state ?ni)\<rparr>"
  let ?c1 = "(set_node i ?n1 c)\<lparr>cl_requests := insert ?req (cl_requests c)\<rparr>"
  let ?n2 = "?nv\<lparr>rn_state := (become_follower ?t (rn_state ?nv))\<lparr>voted_for := Some i\<rparr>, last_heartbeat := 0\<rparr>"
  let ?c2 = "(set_node v ?n2 ?c1)\<lparr>cl_grants := (if vote_granted ?r then insert (v, ?req) else id) (cl_grants ?c1)\<rparr>"
  let ?n3 = "finish_election ?t 2 (cl_node ?c2 i)"
  have r: "vr_candidate_id ?req = i" "vr_term ?req = ?t" by (simp_all add: ballot_def)
  have inc: "u64_inc (current_term (rn_state ?ni)) = ?t" by (rule u64_inc_small [OF t(1)])
  have n3: "current_term (rn_state ?n3) = ?t" "role (rn_state ?n3) = Leader"
    using assms(1) three by (simp_all add: finish_election_def majority_of_def become_candidate_def become_leader_def inc)
  have eq: "(set_node i ?n3 ?c2)\<lparr>cl_leaders := (if role (rn_state ?n3) = Leader
      then insert (current_term (rn_state ?n3), i) else id) (cl_leaders ?c2)\<rparr> = elected i v c"
    using assms(1) three me unfolding n3
    by (intro cluster.equality) (simp_all add: elected_def set_node_def Let_def finish_election_def majority_of_def
        become_candidate_def inc fun_eq_iff)
  show ?thesis
  proof (rule that [of ?n1 ?req ?c1 ?n2 ?r ?c2 ?n3])
    show "begin_election K C ?ni = Some (?n1, ?req)" using memory_campaign [OF mem(1) t(1)] by (simp add: me)
    show "handle_vote_request K C 0 ?req (cl_node ?c1 v) = Some (?n2, ?r)"
      using memory_vote [OF mem(2), of ?req K C 0] t(2) log assms(1) by (simp add: ballot_def)
  qed (use assms(1) v r eq in \<open>simp_all add: numeral_2_eq_2\<close>)
qed

lemma elected_run:
  assumes ids: "i \<in> cluster_ids cf" "v \<in> cluster_ids cf" "i \<noteq> v"
    and mem: "rn_storage (cl_node c i) = None" "rn_storage (cl_node c v) = None"
    and t: "current_term (state_of c i) < u64_max" "current_term (state_of c v) < Suc (current_term (state_of c i))"
    and log: "log_le (log_position (state_of c v)) (log_position (state_of c i))"
    and me: "nc_node_id (rn_config (cl_node c i)) = i" and v: "v \<in> set (peers (cl_node c i))"
    and three: "length (nc_peers (rn_config (cl_node c i))) = 2"
  shows "(full_step K C X cf)\<^sup>*\<^sup>* c (elected i v c)"
proof -
  from elected_moves [OF ids(3) mem t log me v three, of K C] obtain n1 n2 r n3 c1 c2 req
    where a: "begin_election K C (cl_node c i) = Some (n1, req)" "vr_candidate_id req = i"
      "c1 = (set_node i n1 c)\<lparr>cl_requests := insert req (cl_requests c)\<rparr>"
    and b: "handle_vote_request K C 0 req (cl_node c1 v) = Some (n2, r)"
      "c2 = (set_node v n2 c1)\<lparr>cl_grants := (if vote_granted r then insert (v, req) else id) (cl_grants c1)\<rparr>"
    and d: "{v} \<subseteq> set (peers (cl_node c2 i))" "\<forall>p \<in> {v}. (p, req) \<in> cl_grants c2" "req \<in> cl_requests c2"
      "n3 = finish_election (vr_term req) (Suc (card {v})) (cl_node c2 i)"
      "elected i v c = (set_node i n3 c2)\<lparr>cl_leaders :=
        (if role (rn_state n3) = Leader then insert (current_term (rn_state n3), i) else id) (cl_leaders c2)\<rparr>" .
  have "cluster_step K C X cf c c1" unfolding a(3) by (rule cluster_step.campaign [OF ids(1) t(1) a(1)])
  then have f1: "full_step K C X cf c c1"
    by (rule full_stepI) (auto simp: a(3) begin_election_result(4) [OF a(1)] full_def become_candidate_def)
  have "cluster_step K C X cf c1 c2" unfolding b(2) by (rule cluster_step.vote [OF ids(2) _ _ b(1)]) (use a ids(3) in auto)
  then have f2: "full_step K C X cf c1 c2" by (rule full_stepI) (auto simp: b(2) vote_request_sel [OF b(1)] full_def)
  have "cluster_step K C X cf c2 (elected i v c)" unfolding d(5) by (rule cluster_step.count [OF ids(1) d(3) a(2) d(1,2,4)])
  then have f3: "full_step K C X cf c2 (elected i v c)"
    by (rule full_stepI) (auto simp: d(4,5) full_def finish_election_def become_leader_def Let_def)
  from f1 f2 f3 show ?thesis by (meson converse_rtranclp_into_rtranclp rtranclp.rtrancl_refl)
qed

text \<open>A leader without a database appends a command.\<close>

definition proposed :: "node_id \<Rightarrow> command \<Rightarrow> 'db cluster \<Rightarrow> 'db cluster" where
  "proposed i cmd c = set_node i ((cl_node c i)\<lparr>rn_state := fst (append_entry cmd (state_of c i))\<rparr>) c"

lemma proposed_run:
  assumes "i \<in> cluster_ids cf" and "role (state_of c i) = Leader" and "rn_storage (cl_node c i) = None"
    and "last_log_index (state_of c i) < u64_max"
  shows "cluster_step K C X cf c (proposed i cmd c)"
  unfolding proposed_def
  by (rule cluster_step.propose [OF assms(1,4)])
    (use assms(2,3) in \<open>simp add: handle_append_command_def append_command_def persist_entry_def with_no_storage
      split_beta Let_def\<close>)

section \<open>Three nodes\<close>

definition trio_config :: "node_id \<Rightarrow> node_config" where
  "trio_config i =
     config_default\<lparr>nc_node_id := i, nc_peers := map (\<lambda>p. \<lparr>pc_node_id = p, pc_addr = []\<rparr>) (remove1 i [1, 2, 3])\<rparr>"

definition trio :: "(bytes, bytes) fmap cluster" where
  "trio =
     \<lparr>cl_node = (\<lambda>i. (raft_node_new (trio_config i) 0)\<lparr>peers := remove1 i [1, 2, 3], heartbeat_peers := remove1 i [1, 2, 3]\<rparr>),
      cl_requests = {}, cl_grants = {}, cl_appends = {}, cl_snapshots = {}, cl_leaders = {}\<rparr>"

lemma trio_ids: "cluster_ids (trio_config 1) = {1, 2, 3}"
  by (auto simp: cluster_ids_def trio_config_def peer_ids_def)

lemmas trio_ids_simp [simp] = trio_ids [simplified]

lemma trio_node [simp]:
  "state_of trio i = raft_new" "rn_storage (cl_node trio i) = None" "rn_config (cl_node trio i) = trio_config i"
  "peers (cl_node trio i) = remove1 i [1, 2, 3]" "heartbeat_peers (cl_node trio i) = remove1 i [1, 2, 3]"
  "nc_node_id (trio_config i) = i" "peer_ids (trio_config i) = remove1 i [1, 2, 3]"
  by (simp_all add: trio_def trio_config_def raft_node_new_def new_with_storage_def restored_state_def peer_ids_def comp_def)

lemma trio_messages [simp]:
  "cl_requests trio = {}" "cl_grants trio = {}" "cl_appends trio = {}" "cl_snapshots trio = {}" "cl_leaders trio = {}"
  by (simp_all add: trio_def)

lemma trio_initial: "initial kv_mem (trio_config 1) trio"
proof -
  have "member_ok (trio_config 1) i (cl_node trio i)" if "i \<in> {1, 2, 3}" for i
    using that by (auto simp: member_ok_def config_wf_def cluster_ids_def)
  then show ?thesis unfolding initial_def trio_ids by simp
qed

text \<open>Node 1 is elected in term 1, with the vote of node 2.\<close>

definition trio_led :: "(bytes, bytes) fmap cluster" where
  "trio_led = elected 1 2 trio"

lemma trio_peers: "i \<in> {1, 2, 3} \<Longrightarrow> length (nc_peers (trio_config i)) = 2"
  by (auto simp: trio_config_def)

lemma trio_led_full: "reachable_full kv_mem serde_unary X (trio_config 1) trio_led"
  unfolding trio_led_def
  by (rule reachable_full_star [OF elected_run reachable_full.start [OF trio_initial]])
    (simp_all add: trio_peers raft_new_def u64_max_def)

lemmas trio_led_reachable = trio_led_full [THEN reachable_full_reachable]

lemma proposed_node [simp]:
  "cl_node (proposed i cmd c) j =
     (if j = i then (cl_node c i)\<lparr>rn_state := fst (append_entry cmd (state_of c i))\<rparr> else cl_node c j)"
  by (simp add: proposed_def)

lemma elected_node [simp]:
  "cl_node (elected i v c) j =
     (if j = i then (cl_node c i)\<lparr>rn_state := become_leader i (peer_ids (rn_config (cl_node c i)))
          ((become_candidate i (state_of c i))\<lparr>votes_received := 2\<rparr>)\<rparr>
      else if j = v then (cl_node c v)\<lparr>rn_state := (become_follower (Suc (current_term (state_of c i))) (state_of c v))
          \<lparr>voted_for := Some i\<rparr>, last_heartbeat := 0\<rparr>
      else cl_node c j)"
  by (simp add: elected_def Let_def)

text \<open>The leader of term 1 has one entry in its log.\<close>

definition trio_logged :: "(bytes, bytes) fmap cluster" where
  "trio_logged = proposed 1 Noop trio_led"

lemma trio_leader:
  "role (state_of trio_led 1) = Leader" "rn_storage (cl_node trio_led 1) = None" "rlog (state_of trio_led 1) = []"
  "log_offset (state_of trio_led 1) = 0" "current_term (state_of trio_led 1) = 1"
  by (simp_all add: trio_led_def become_leader_def become_candidate_def raft_new_def u64_inc_def)

lemma proposed_full: "uncompacted cf c \<Longrightarrow> uncompacted cf (proposed i cmd c)"
  by (simp add: uncompacted_def full_def append_entry_def Let_def)

lemma proposed_reachable:
  assumes "reachable_full K C X cf c" and "i \<in> cluster_ids cf" and "role (state_of c i) = Leader"
    and "rn_storage (cl_node c i) = None" and "last_log_index (state_of c i) < u64_max"
  shows "reachable_full K C X cf (proposed i cmd c)"
  using proposed_full [OF reachable_full_uncompacted [OF assms(1)]]
  by (rule reachable_full.step [OF assms(1) proposed_run [OF assms(2-5)]])

lemma trio_logged_full: "reachable_full kv_mem serde_unary X (trio_config 1) trio_logged"
  unfolding trio_logged_def
  by (rule proposed_reachable [OF trio_led_full])
    (use trio_leader in \<open>simp_all add: last_log_index_def u64_max_def\<close>)

lemmas trio_logged_reachable = trio_logged_full [THEN reachable_full_reachable]

section \<open>A leadership transfer\<close>

text \<open>
  Node 1 leads in term 1 and transfers the leadership to node 2. Node 2 answers once its election is
  over: it leads in term 2, with the vote of node 1. On the answer node 1 steps down in the term the
  transfer was started in, which brings term 1 back and forgets the vote. Node 3, which has missed all
  this, campaigns in terms 1 and 2, and node 1 votes for it.
\<close>

definition transferred :: "(bytes, bytes) fmap cluster" where
  "transferred = elected 2 1 trio_led"

definition stepped_down :: "(bytes, bytes) fmap raft_node" where
  "stepped_down = (cl_node transferred 1)\<lparr>rn_state := become_follower 1 (state_of transferred 1)\<rparr>"

definition campaigning :: "(bytes, bytes) fmap cluster" where
  "campaigning =
     (let c = set_node 1 stepped_down transferred
      in (set_node 3 ((cl_node c 3)\<lparr>rn_state := become_candidate 3 (state_of c 3)\<rparr>) c)
         \<lparr>cl_requests := insert (ballot 3 (state_of c 3)) (cl_requests c)\<rparr>)"

lemmas run_defs = trio_led_def transferred_def stepped_down_def campaigning_def become_leader_def
  become_candidate_def become_follower_def raft_new_def u64_inc_def u64_max_def

lemma transferred_reachable: "reachable kv_mem serde_unary X (trio_config 1) transferred"
  unfolding transferred_def
  by (rule reachable_full_reachable [OF reachable_full_star [OF elected_run trio_led_full]])
    (auto simp: trio_peers last_log_index_def last_log_term_def run_defs Let_def)

lemma finish_transfer_run:
  "finish_transfer kv_mem serde_unary 2 1 (Inr ()) (cl_node transferred 1) = Some (stepped_down, Inr 2)"
  by (simp add: finish_transfer_def step_down_def persist_hard_state_def with_storage_def stepped_down_def
      transferred_def trio_led_def)

lemma campaigning_step:
  "cluster_step kv_mem serde_unary X (trio_config 1) (set_node 1 stepped_down transferred) campaigning"
proof -
  let ?c = "set_node 1 stepped_down transferred"
  have n: "cl_node ?c 3 = cl_node trio 3" by (simp add: transferred_def trio_led_def)
  have b: "begin_election kv_mem serde_unary (cl_node ?c 3) =
      Some ((cl_node ?c 3)\<lparr>rn_state := become_candidate 3 (state_of ?c 3)\<rparr>, ballot 3 (state_of ?c 3))"
    unfolding n using memory_campaign [of "cl_node trio 3" kv_mem serde_unary] by (simp add: raft_new_def u64_max_def)
  show ?thesis unfolding campaigning_def Let_def
    by (rule cluster_step.campaign [OF _ _ b]) (simp_all only: n trio_node trio_ids, simp_all add: raft_new_def u64_max_def)
qed

lemma second_election:
  "(cluster_step kv_mem serde_unary X (trio_config 1))\<^sup>*\<^sup>* campaigning (elected 3 1 campaigning)"
  by (rule full_steps [OF elected_run]) (auto simp: trio_peers last_log_index_def last_log_term_def run_defs Let_def)

lemma two_leaders:
  "role (state_of (elected 3 1 campaigning) 2) = Leader" "role (state_of (elected 3 1 campaigning) 3) = Leader"
  "current_term (state_of (elected 3 1 campaigning) 2) = 2" "current_term (state_of (elected 3 1 campaigning) 3) = 2"
  by (simp_all add: run_defs Let_def)

section \<open>Replication and heartbeats\<close>

text \<open>A leader sends a request, and its receiver, which has no database, handles it.\<close>

definition received :: "node_id \<Rightarrow> append_entries_request \<Rightarrow> 'db raft_node \<Rightarrow> 'db cluster \<Rightarrow> 'db cluster" where
  "received p req n c = set_node p n (c\<lparr>cl_appends := insert (p, req) (cl_appends c)\<rparr>)"

lemma received_node [simp]: "cl_node (received p req n c) j = (if j = p then n else cl_node c j)"
  by (simp add: received_def)

lemma append_in_memory:
  assumes "rn_storage n = None"
  obtains n' where "handle_append_entries_node K C X now req n = Some (n', snd (handle_append_entries X req (rn_state n)))"
    and "rn_state n' = fst (handle_append_entries X req (rn_state n))" and "rn_storage n' = None" and "rn_config n' = rn_config n"
  using assms that
  by (auto simp: handle_append_entries_node_def persist_hard_state_def with_no_storage Let_def split_beta)

lemma received_run:
  assumes ids: "i \<in> cluster_ids cf" "p \<in> cluster_ids cf"
    and sent: "(p, SendEntries req) \<in> set (replicate_to_peers X (cl_node c i)) \<or> (p, req) \<in> set (heartbeat_round (cl_node c i))"
    and op: "handle_append_entries_node K C X now req (cl_node c p) = Some (n, r)"
  shows "(full_step K C X cf)\<^sup>*\<^sup>* c (received p req n c)"
proof -
  let ?c = "c\<lparr>cl_appends := insert (p, req) (cl_appends c)\<rparr>"
  have "cluster_step K C X cf c ?c" using sent cluster_step.send_entries [OF ids(1)] cluster_step.heartbeat [OF ids(1)] by blast
  then have s1: "full_step K C X cf c ?c" by (rule full_stepI) simp
  have "cluster_step K C X cf ?c (set_node p n ?c)" by (rule cluster_step.append [OF ids(2)]) (use op in simp_all)
  then have s2: "full_step K C X cf ?c (received p req n c)" unfolding received_def
    by (rule full_stepI) (auto simp: append_entries_node_sel(1) [OF op] full_def hae_offset)
  from s1 s2 show ?thesis by (rule converse_rtranclp_into_rtranclp [OF _ r_into_rtranclp])
qed

text \<open>The entry of the leader of term 1 reaches node 2.\<close>

definition noop_append :: append_entries_request where
  "noop_append = append_request ext_unary 1 (state_of trio_logged 1) 1"

lemma trio_logged_leader:
  "role (state_of trio_logged 1) = Leader" "next_index (state_of trio_logged 1) = [(2, 1), (3, 1)]"
  "log_offset (state_of trio_logged 1) = 0" "rlog (state_of trio_logged 1) = [noop_entry 1 1]"
  "current_term (state_of trio_logged 1) = 1" "commit_index (state_of trio_logged 1) = 0"
  "peers (cl_node trio_logged 1) = [2, 3]" "nc_node_id (rn_config (cl_node trio_logged 1)) = 1"
    by (simp_all add: trio_logged_def trio_led_def append_entry_def become_leader_def become_candidate_def raft_new_def
        noop_entry_def last_log_index_def u64_inc_def init_peers_def hm_insert_def hm_empty_def Let_def)

lemma noop_append_sent: "(2, SendEntries noop_append) \<in> set (replicate_to_peers ext_unary (cl_node trio_logged 1))"
proof -
  note s = trio_logged_leader [simplified]
  then have "ae_entries noop_append \<noteq> []"
    by (simp add: noop_append_def append_request_def Let_def entries_start_def hm_values_def get_entries_from_def
        last_log_index_def u64_inc_def)
  with s show ?thesis
    by (simp add: replicate_to_peers_def replicate_to_peer_def Let_def hm_get_def noop_append_def)
qed

lemma trio_logged_storage: "rn_storage (cl_node trio_logged i) = None"
  by (simp add: trio_logged_def trio_led_def)

lemma noop_append_accepted:
  "get_entry (state_of trio_logged 1) 1 = Some (noop_entry 1 1)"
  "get_entry (fst (handle_append_entries ext_unary noop_append (state_of trio_logged 2))) 1 = Some (noop_entry 1 1)"
proof -
  have s: "role (state_of trio_logged 1) = Leader" "next_index (state_of trio_logged 1) = [(2, 1), (3, 1)]"
    "log_offset (state_of trio_logged 1) = 0" "rlog (state_of trio_logged 1) = [noop_entry 1 1]"
    "current_term (state_of trio_logged 1) = 1" "commit_index (state_of trio_logged 1) = 0"
    by (rule trio_logged_leader)+
  have a: "noop_append = noop_request 1 1 0 0 0 [noop_entry 1 1]"
    using s by (simp add: noop_append_def noop_request_def append_request_def Let_def entries_start_def hm_values_def
        get_entries_from_def last_log_index_def u64_inc_def prev_term_of_def)
  have b: "state_of trio_logged 2 = (become_follower 1 raft_new)\<lparr>voted_for := Some 1\<rparr>"
    by (simp add: trio_logged_def trio_led_def raft_new_def)
  show "get_entry (fst (handle_append_entries ext_unary noop_append (state_of trio_logged 2))) 1 = Some (noop_entry 1 1)"
    unfolding a b by (simp add: noop_defs handler_defs)
  show "get_entry (state_of trio_logged 1) 1 = Some (noop_entry 1 1)" using s by (simp add: get_entry_def)
qed

text \<open>
  Node 2 is elected in term 2 with the vote of node 3, while node 1 still has its entry of term 1. Node 2
  appends an entry of its own at the same index.
\<close>

definition rival :: "(bytes, bytes) fmap cluster" where
  "rival = proposed 2 (RegisterWorker 2) (elected 2 3 trio_logged)"

lemma rival_full: "reachable_full kv_mem serde_unary X (trio_config 1) rival"
proof -
  let ?c = "elected 2 3 trio_logged"
  have "reachable_full kv_mem serde_unary X (trio_config 1) ?c"
    by (rule reachable_full_star [OF elected_run trio_logged_full])
      (auto simp: trio_peers trio_logged_def last_log_index_def last_log_term_def log_le_def run_defs append_entry_def Let_def)
  then show ?thesis unfolding rival_def
    by (rule proposed_reachable) (simp_all add: trio_logged_def run_defs last_log_index_def Let_def)
qed

lemma rival_nodes:
  "rn_storage (cl_node rival i) = None" "rn_config (cl_node rival i) = trio_config i"
  "heartbeat_peers (cl_node rival i) = remove1 i [1, 2, 3]" "peers (cl_node rival i) = remove1 i [1, 2, 3]"
  by (simp_all add: rival_def trio_logged_def trio_led_def)

lemma rival_one:
  "current_term (state_of rival 1) = 1" "rlog (state_of rival 1) = [noop_entry 1 1]" "commit_index (state_of rival 1) = 0"
  "log_offset (state_of rival 1) = 0" "last_applied (state_of rival 1) = 0"
  by (simp_all add: rival_def trio_logged_def run_defs append_entry_def last_log_index_def noop_entry_def Let_def)

lemma rival_two:
  "role (state_of rival 2) = Leader" "current_term (state_of rival 2) = 2" "commit_index (state_of rival 2) = 0"
  "rlog (state_of rival 2) = [\<lparr>le_term = 2, le_index = 1, le_command = RegisterWorker 2\<rparr>]"
  "log_offset (state_of rival 2) = 0" "last_applied (state_of rival 2) = 0"
  "next_index (state_of rival 2) = [(1, 1), (3, 1)]" "match_index (state_of rival 2) = [(1, 0), (3, 0)]"
  by (simp_all add: rival_def trio_logged_def run_defs append_entry_def last_log_index_def init_peers_def hm_insert_def
      hm_empty_def Let_def)

lemma rival_three:
  "current_term (state_of rival 3) = 2" "rlog (state_of rival 3) = []" "log_offset (state_of rival 3) = 0"
  "role (state_of rival 3) = Follower" "commit_index (state_of rival 3) = 0" "snapshot (state_of rival 3) = None"
  by (simp_all add: rival_def trio_logged_def run_defs Let_def)

definition rival_append :: append_entries_request where
  "rival_append = append_request ext_unary 2 (state_of rival 2) 1"

lemma rival_append_value:
  "rival_append =
     \<lparr>ae_term = 2, ae_leader_id = 2, ae_prev_log_index = 0, ae_prev_log_term = 0,
      ae_entries = [log_entry_to_proto ext_unary \<lparr>le_term = 2, le_index = 1, le_command = RegisterWorker 2\<rparr>],
      ae_leader_commit = 0\<rparr>"
  by (simp add: rival_append_def append_request_def entries_start_def hm_values_def rival_two [simplified] get_entries_from_def
      last_log_index_def prev_term_of_def u64_inc_def Let_def)

lemma rival_append_sent: "(3, SendEntries rival_append) \<in> set (replicate_to_peers ext_unary (cl_node rival 2))"
proof -
  have "ae_entries (append_request ext_unary 2 (state_of rival 2) 1) \<noteq> []"
    using rival_append_value by (simp add: rival_append_def)
  then show ?thesis
    by (simp add: replicate_to_peers_def replicate_to_peer_def Let_def hm_get_def rival_two [simplified] rival_nodes rival_append_def)
qed

lemma rival_append_accepted:
  "aer_success (snd (handle_append_entries ext_unary rival_append (state_of rival 3)))"
  "aer_match_index (snd (handle_append_entries ext_unary rival_append (state_of rival 3))) = 1"
  "aer_term (snd (handle_append_entries ext_unary rival_append (state_of rival 3))) = 2"
  by (simp_all add: rival_append_value handler_defs rival_three last_log_index_def new_entries_def
      log_entry_round_trip [OF ext_unary_laws(1)] u64_inc_def List.map_filter_def)

text \<open>Node 3 accepts the entry, and on its answer node 2 commits it.\<close>

lemma rival_committed:
  obtains c where "reachable_full kv_mem serde_unary ext_unary (trio_config 1) c" and "cl_node c 1 = cl_node rival 1"
    and "rn_config (cl_node c 2) = trio_config 2" and "heartbeat_peers (cl_node c 2) = [1, 3]"
    and "state_of c 2 = (state_of rival 2)\<lparr>match_index := [(1, 0), (3, 1)], next_index := [(1, 1), (3, 2)], commit_index := 1\<rparr>"
proof -
  let ?r = "snd (handle_append_entries ext_unary rival_append (state_of rival 3))"
  obtain n3 where h: "handle_append_entries_node kv_mem serde_unary ext_unary 0 rival_append (cl_node rival 3) = Some (n3, ?r)"
    using append_in_memory [OF rival_nodes(1), of kv_mem serde_unary ext_unary 0 rival_append 3] by blast
  let ?c = "received 3 rival_append n3 rival"
  have c: "reachable_full kv_mem serde_unary ext_unary (trio_config 1) ?c"
    by (rule reachable_full_star [OF received_run [OF _ _ _ h] rival_full]) (use rival_append_sent in auto)
  note s = rival_two [simplified] and a = rival_append_accepted [simplified]
  obtain n2 where n2: "append_answer kv_mem serde_unary 0 3 ?r (cl_node ?c 2) = Some n2"
    and st: "rn_state n2 = (state_of rival 2)\<lparr>match_index := [(1, 0), (3, 1)], next_index := [(1, 1), (3, 2)], commit_index := 1\<rparr>"
    and cf: "rn_config n2 = trio_config 2" "heartbeat_peers n2 = [1, 3]"
    by (simp add: append_answer_def saw_peer_def advance_commit_def majority_match_def hm_insert_def hm_values_def a s
        last_log_index_def get_entry_def u64_inc_def rival_nodes Let_def)
  have "cluster_step kv_mem serde_unary ext_unary (trio_config 1) ?c (set_node 2 n2 ?c)"
    by (rule cluster_step.append_ack [OF _ _ n2]) (simp_all add: a u64_max_def)
  moreover have "uncompacted (trio_config 1) (set_node 2 n2 ?c)"
    using reachable_full_uncompacted [OF c] by (auto simp: uncompacted_def st full_def)
  ultimately have "reachable_full kv_mem serde_unary ext_unary (trio_config 1) (set_node 2 n2 ?c)"
    by (rule reachable_full.step [OF c])
  then show ?thesis by (rule that) (simp_all add: st cf)
qed

end
