(* ===== verification/Raft_Loop.thy ===== *)
theory Raft_Loop
  imports Raft_Votes
begin

text \<open>
  The main loop of the Raft node (\<open>run\<close> of \<open>src/raft/node.rs\<close>) and its timer (\<open>src/raft/timer.rs\<close>): the
  messages of the loop, the branch of the election timeout, the whole of a leadership transfer, and what
  a sequence of operations of one node leaves on its disk. The random number generator, the clock, and
  the state of the node at each turn of a wait are arguments.
\<close>

section \<open>Election timeouts\<close>

text \<open>
  \<open>draw\<close> is \<open>gen_range\<close> on an inclusive range; on an empty range it panics, which is \<open>None\<close>. The result
  is in milliseconds.
\<close>

definition random_election_timeout :: "(u64 \<Rightarrow> u64 \<Rightarrow> u64) \<Rightarrow> u64 \<Rightarrow> u64 \<Rightarrow> u64 option" where
  "random_election_timeout draw min_ms max_ms = (if max_ms < min_ms then None else Some (draw min_ms max_ms))"

definition draw_laws :: "(u64 \<Rightarrow> u64 \<Rightarrow> u64) \<Rightarrow> bool" where
  "draw_laws draw \<longleftrightarrow> (\<forall>a b. a \<le> b \<longrightarrow> a \<le> draw a b \<and> draw a b \<le> b)"

section \<open>Leadership transfer\<close>

text \<open>
  The wait of \<open>handle_transfer_leadership\<close>: the clock and the node as seen at each turn. \<open>None\<close> means that
  it still waits after the last one.
\<close>

fun transfer_poll :: "node_id \<Rightarrow> u64 \<Rightarrow> instant \<Rightarrow> (instant \<times> 'db raft_node) list \<Rightarrow> (string + 'db raft_node) option" where
  "transfer_poll target leader_last deadline [] = None"
| "transfer_poll target leader_last deadline ((now, n) # turns) =
     (case transfer_wait target leader_last deadline now n of
        Ready \<Rightarrow> Some (Inr n)
      | GiveUp e \<Rightarrow> Some (Inl e)
      | PushAndSleep \<Rightarrow> transfer_poll target leader_last deadline turns)"

text \<open>
  The handler: \<open>n\<close> is the node at the start, \<open>turns\<close> what the wait sees, \<open>at_end\<close> the node when the wait is
  over and the target has answered.
\<close>

definition handle_transfer_leadership ::
  "'db kv \<Rightarrow> serde \<Rightarrow> (node_id \<Rightarrow> timeout_now_request \<Rightarrow> timeout_now_response rpc_outcome) \<Rightarrow> node_id option \<Rightarrow> instant
    \<Rightarrow> (instant \<times> 'db raft_node) list \<Rightarrow> 'db raft_node \<Rightarrow> 'db raft_node
    \<Rightarrow> ('db raft_node \<times> (string + node_id)) option" where
  "handle_transfer_leadership K C call target_id start turns at_end n =
     (case pick_target target_id n of
        Inl e \<Rightarrow> Some (n, Inl e)
      | Inr target \<Rightarrow>
          let trm = current_term (rn_state n); leader_last = last_log_index (rn_state n) in
          (case transfer_poll target leader_last (start + 2000 * ns_per_ms) turns of
             None \<Rightarrow> None
           | Some (Inl e) \<Rightarrow> Some (at_end, Inl e)
           | Some (Inr m) \<Rightarrow> finish_transfer K C target trm (send_timeout_now call target trm m) at_end))"

section \<open>The loop\<close>

record 'db raft_loop =
  rl_node :: "'db raft_node"
  rl_timeout :: u64

datatype raft_message =
    AppendCommand command
  | HeartbeatReceived
  | TriggerElection
  | TransferLeadership "node_id option"

text \<open>What the loop gets from outside during a turn.\<close>

record 'db turn_env =
  te_now :: instant
  te_draw :: "u64 \<Rightarrow> u64 \<Rightarrow> u64"
  te_ask :: "node_id \<Rightarrow> vote_request \<Rightarrow> vote_response option"
  te_call :: "node_id \<Rightarrow> timeout_now_request \<Rightarrow> timeout_now_response rpc_outcome"
  te_turns :: "(instant \<times> 'db raft_node) list"
  te_at_end :: "'db raft_node"

definition new_timeout :: "'db turn_env \<Rightarrow> 'db raft_node \<Rightarrow> u64 option" where
  "new_timeout E n =
     random_election_timeout (te_draw E) (election_timeout_min_ms (rn_config n)) (election_timeout_max_ms (rn_config n))"

text \<open>The branch of a message, with what is sent back to whoever asked.\<close>

fun on_message ::
  "'db kv \<Rightarrow> serde \<Rightarrow> 'db turn_env \<Rightarrow> raft_message \<Rightarrow> 'db raft_loop \<Rightarrow> ('db raft_loop \<times> (string + u64) option) option" where
  "on_message K C E (AppendCommand cmd) l =
     map_option (\<lambda>(n, r). (l\<lparr>rl_node := n\<rparr>, Some r)) (handle_append_command K C cmd (rl_node l))"
| "on_message K C E HeartbeatReceived l =
     map_option (\<lambda>t. (l\<lparr>rl_node := (rl_node l)\<lparr>last_heartbeat := te_now E\<rparr>, rl_timeout := t\<rparr>, None))
       (new_timeout E (rl_node l))"
| "on_message K C E TriggerElection l =
     map_option (\<lambda>n. (l\<lparr>rl_node := n\<rparr>, None)) (start_election K C (te_ask E) (te_now E) (rl_node l))"
| "on_message K C E (TransferLeadership target) l =
     map_option (\<lambda>(n, r). (l\<lparr>rl_node := n\<rparr>, Some r))
       (handle_transfer_leadership K C (te_call E) target (te_now E) (te_turns E) (te_at_end E) (rl_node l))"

text \<open>The branch of the election timeout, which a leader does not have.\<close>

definition on_election_timer :: "'db kv \<Rightarrow> serde \<Rightarrow> 'db turn_env \<Rightarrow> 'db raft_loop \<Rightarrow> 'db raft_loop option" where
  "on_election_timer K C E l =
     (let n = rl_node l in
      if role (rn_state n) = Leader then Some l
      else do {
        n' \<leftarrow> (if rl_timeout l * ns_per_ms \<le> te_now E - last_heartbeat n
               then start_election K C (te_ask E) (te_now E) n else Some n);
        t \<leftarrow> new_timeout E n;
        Some (l\<lparr>rl_node := n', rl_timeout := t\<rparr>)
      })"

text \<open>The branch of the replication interval, which only a leader has: what is sent.\<close>

definition on_replication_timer :: "ext \<Rightarrow> 'db raft_loop \<Rightarrow> (node_id \<times> outgoing) list" where
  "on_replication_timer X l = replicate_to_peers X (rl_node l)"

section \<open>Lemmas\<close>

lemma new_timeout_range:
  assumes "draw_laws (te_draw E)" and "new_timeout E n = Some t"
  shows "election_timeout_min_ms (rn_config n) \<le> t" and "t \<le> election_timeout_max_ms (rn_config n)"
  using assms by (auto simp: new_timeout_def random_election_timeout_def draw_laws_def split: if_splits)

text \<open>A node that has heard of its leader within the timeout leaves its state alone.\<close>

lemma election_timer_quiet:
  assumes "te_now E - last_heartbeat (rl_node l) < rl_timeout l * ns_per_ms" and "on_election_timer K C E l = Some l'"
  shows "rl_node l' = rl_node l"
  using assms by (auto simp: on_election_timer_def Let_def bind_eq_Some_conv split: if_splits)

lemma accepted_resets_timer:
  assumes "handle_append_entries_node K C X now req n = Some (n', r)" and "aer_success r"
  shows "last_heartbeat n' = now"
  using assms by (auto simp: handle_append_entries_node_def Let_def split_beta bind_eq_Some_conv)

lemma transfer_poll_ends:
  "(now, n) \<in> set turns \<Longrightarrow> deadline \<le> now \<Longrightarrow> transfer_poll target leader_last deadline turns \<noteq> None"
proof (induction turns)
  case (Cons a turns)
  then show ?case by (cases a) (auto simp: transfer_wait_def split: wait_turn.splits if_splits)
qed simp

lemma transfer_poll_ready:
  "transfer_poll target leader_last deadline turns = Some (Inr m) \<Longrightarrow>
   caught_up target leader_last m \<and> (\<exists>now. (now, m) \<in> set turns)"
proof (induction turns)
  case (Cons a turns)
  then show ?case by (cases a) (auto simp: transfer_wait_def split: wait_turn.splits if_splits)
qed simp

lemma transfer_result:
  assumes "handle_transfer_leadership K C call target_id start turns at_end n = Some (n', Inr target)"
  shows "role (rn_state n) = Leader" and "target_id = Some i \<Longrightarrow> target = i \<and> i \<in> set (peer_ids (rn_config n))"
    and "\<exists>now m. (now, m) \<in> set turns \<and> caught_up target (last_log_index (rn_state n)) m"
    and "role (rn_state n') = Follower" and "current_term (rn_state n') = current_term (rn_state n)"
proof -
  let ?t = "current_term (rn_state n)"
  from assms obtain m where p: "pick_target target_id n = Inr target"
    and w: "transfer_poll target (last_log_index (rn_state n)) (start + 2000 * ns_per_ms) turns = Some (Inr m)"
    and f: "finish_transfer K C target ?t (send_timeout_now call target ?t m) at_end = Some (n', Inr target)"
    by (fastforce simp: handle_transfer_leadership_def finish_transfer_def Let_def split: sum.splits option.splits)
  show "role (rn_state n) = Leader" "target_id = Some i \<Longrightarrow> target = i \<and> i \<in> set (peer_ids (rn_config n))"
    using p by (auto simp: pick_target_def split: if_splits)
  show "\<exists>now m. (now, m) \<in> set turns \<and> caught_up target (last_log_index (rn_state n)) m"
    using transfer_poll_ready [OF w] by blast
  from f have "step_down K C ?t at_end = Some n'" by (auto simp: finish_transfer_def split: sum.splits)
  then have "rn_state n' = become_follower ?t (rn_state at_end)"
    unfolding step_down_def by (drule_tac persist_hard_state_sel(1)) simp
  then show "role (rn_state n') = Follower" and "current_term (rn_state n') = ?t" by simp_all
qed

section \<open>A node over time\<close>

text \<open>
  The operations of one node, as they follow each other under the lock of its state. The guards are what
  the leaders of a well-behaved cluster send: requests whose entries continue the log, and terms and
  indices below \<open>2 ^ 64 - 1\<close>. A compaction was decided on when the log had entries, and what came between may have
  cut them, but the database is in use.
\<close>

inductive node_step :: "'db kv \<Rightarrow> serde \<Rightarrow> ext \<Rightarrow> 'db raft_node \<Rightarrow> 'db raft_node \<Rightarrow> bool"
  for K C X where
  campaign: "begin_election K C n = Some (n', req) \<Longrightarrow> node_step K C X n n'"
| count: "node_step K C X n (finish_election t votes n)"
| vote: "handle_vote_request K C now req n = Some (n', r) \<Longrightarrow> vr_term req \<le> u64_max \<Longrightarrow> node_step K C X n n'"
| append: "handle_append_entries_node K C X now areq n = Some (n', ar) \<Longrightarrow> ae_term areq \<le> u64_max \<Longrightarrow>
    request_wf X areq (rn_state n) \<Longrightarrow> node_step K C X n n'"
| install: "handle_install_snapshot_node K C X now sreq n = Some (n', sr) \<Longrightarrow> is_term sreq \<le> u64_max \<Longrightarrow>
    is_last_included_index sreq < u64_max \<Longrightarrow> node_step K C X n n'"
| command: "handle_append_command K C cmd n = Some (n', res) \<Longrightarrow> last_log_index (rn_state n) < u64_max \<Longrightarrow>
    node_step K C X n n'"
| append_ack: "append_answer K C now p ar n = Some n' \<Longrightarrow> aer_term ar \<le> u64_max \<Longrightarrow> node_step K C X n n'"
| snapshot_ack: "snapshot_answer K C now p idx sr n = Some n' \<Longrightarrow> isr_term sr \<le> u64_max \<Longrightarrow> node_step K C X n n'"
| heartbeat_ack: "heartbeat_answer K C now p sent ar n = Some n' \<Longrightarrow> aer_term ar \<le> u64_max \<Longrightarrow> node_step K C X n n'"
| transfer: "finish_transfer K C target t sent_ok n = Some (n', tr) \<Longrightarrow> t \<le> u64_max \<Longrightarrow> node_step K C X n n'"
| deliver: "get_committed_entries n = (n', es) \<Longrightarrow> node_step K C X n n'"
| compact: "compact_with K C sn n = Some n' \<Longrightarrow> last_included_index sn < u64_max \<Longrightarrow> in_use K n \<Longrightarrow> node_step K C X n n'"
| crash: "rn_storage n = Some db \<Longrightarrow> restart K C (rn_config n) now db = Some n' \<Longrightarrow> node_step K C X n n'"

definition node_inv :: "'db kv \<Rightarrow> serde \<Rightarrow> 'db raft_node \<Rightarrow> bool" where
  "node_inv K C n \<longleftrightarrow>
     recoverable K C n \<and> log_wf (rn_state n) \<and> current_term (rn_state n) \<le> u64_max \<and>
     (role (rn_state n) \<noteq> Follower \<longrightarrow> voted_for (rn_state n) \<noteq> None)"

lemma log_wf_cong:
  "rlog s' = rlog s \<Longrightarrow> log_offset s' = log_offset s \<Longrightarrow> snapshot s' = snapshot s \<Longrightarrow> log_wf s' = log_wf s"
  by (simp add: log_wf_def)

lemma finish_election_log:
  "rlog (rn_state (finish_election t v n)) = rlog (rn_state n)"
  "log_offset (rn_state (finish_election t v n)) = log_offset (rn_state n)"
  "snapshot (rn_state (finish_election t v n)) = snapshot (rn_state n)"
  by (simp_all add: finish_election_def Let_def become_leader_def)

lemma finish_election_recoverable:
  assumes "recoverable K C n" and "role (rn_state n) \<noteq> Follower \<longrightarrow> voted_for (rn_state n) \<noteq> None"
  shows "recoverable K C (finish_election t v n)"
proof -
  have d: "durable (rn_state (finish_election t v n)) = durable (rn_state n)"
    by (simp add: durable_def finish_election_sel finish_election_log)
  show ?thesis
  proof (cases "role (rn_state n) = Follower")
    case True
    then have "finish_election t v n = n" by (simp add: finish_election_def)
    with assms(1) show ?thesis by simp
  next
    case False
    with assms(2) have "durable (rn_state n) \<noteq> durable raft_new" by (auto simp: durable_def raft_new_def)
    with assms(1) show ?thesis by (simp add: recoverable_def d finish_election_sel split: option.splits)
  qed
qed

text \<open>Stepping down, or doing nothing.\<close>

lemma step_down_inv:
  assumes "kv_laws K" and "serde_laws C" and "node_inv K C n" and "step_down K C t n = Some n'" and "t \<le> u64_max"
  shows "node_inv K C n'"
proof -
  have s: "rn_state n' = become_follower t (rn_state n)"
    using persist_hard_state_sel(1) [OF assms(4) [unfolded step_down_def]] by simp
  have "recoverable K C n" using assms(3) by (simp add: node_inv_def)
  from step_down_recoverable [OF assms(1,2,4) this assms(5)] assms(3,5) show ?thesis
    by (simp add: node_inv_def s log_wf_def)
qed

lemma node_inv_cong:
  assumes "node_inv K C n" and "rn_storage n' = rn_storage n" and "durable (rn_state n') = durable (rn_state n)"
    and "role (rn_state n') = role (rn_state n)"
  shows "node_inv K C n'"
proof -
  have "rlog (rn_state n') = rlog (rn_state n)" "log_offset (rn_state n') = log_offset (rn_state n)"
    "snapshot (rn_state n') = snapshot (rn_state n)" "current_term (rn_state n') = current_term (rn_state n)"
    "voted_for (rn_state n') = voted_for (rn_state n)"
    using assms(3) by (simp_all add: durable_def)
  then show ?thesis using assms recoverable_cong [OF assms(2,3), of K C] by (simp add: node_inv_def log_wf_def)
qed

lemma saw_peer_inv: "node_inv K C n \<Longrightarrow> node_inv K C (saw_peer now p n)"
  by (erule node_inv_cong) simp_all

lemma append_answer_inv:
  assumes K: "kv_laws K" "serde_laws C" and inv: "node_inv K C n" and op: "append_answer K C now p r n = Some n'"
    and bd: "aer_term r \<le> u64_max"
  shows "node_inv K C n'"
proof (cases "current_term (rn_state n) < aer_term r")
  case True
  with op have "step_down K C (aer_term r) (saw_peer now p n) = Some n'" by (simp add: append_answer_def Let_def)
  from step_down_inv [OF K saw_peer_inv [OF inv] this bd] show ?thesis .
next
  case False
  with op show ?thesis
    by (intro node_inv_cong [OF inv]) (auto simp: append_answer_def Let_def durable_def split: if_splits)
qed

lemma snapshot_answer_inv:
  assumes K: "kv_laws K" "serde_laws C" and inv: "node_inv K C n" and op: "snapshot_answer K C now p i r n = Some n'"
    and bd: "isr_term r \<le> u64_max"
  shows "node_inv K C n'"
proof (cases "current_term (rn_state n) < isr_term r")
  case True
  with op have "step_down K C (isr_term r) (saw_peer now p n) = Some n'" by (simp add: snapshot_answer_def Let_def)
  from step_down_inv [OF K saw_peer_inv [OF inv] this bd] show ?thesis .
next
  case False
  with op show ?thesis
    by (intro node_inv_cong [OF inv]) (auto simp: snapshot_answer_def Let_def durable_def)
qed

lemma heartbeat_answer_inv:
  assumes K: "kv_laws K" "serde_laws C" and inv: "node_inv K C n"
    and op: "heartbeat_answer K C now p sent r n = Some n'" and bd: "aer_term r \<le> u64_max"
  shows "node_inv K C n'"
  using op step_down_inv [OF K saw_peer_inv [OF inv] _ bd] saw_peer_inv [OF inv]
  by (auto simp: heartbeat_answer_def Let_def split: if_splits)

lemma append_command_inv:
  assumes K: "kv_laws K" "serde_laws C" and inv: "node_inv K C n" and op: "handle_append_command K C cmd n = Some (n', res)"
    and room: "last_log_index (rn_state n) < u64_max"
  shows "node_inv K C n'"
proof -
  have i: "recoverable K C n" "log_wf (rn_state n)" using inv by (simp_all add: node_inv_def)
  have s: "rn_state n' = (if role (rn_state n) = Leader then fst (append_entry cmd (rn_state n)) else rn_state n)"
    using op by (auto simp: handle_append_command_def append_command_def persist_entry_def Let_def split_beta
        dest!: with_storage_sel(1) split: if_splits)
  show ?thesis
    using inv append_command_recoverable [OF K i room op] append_entry_wf [OF i(2) room, of cmd]
    by (simp add: node_inv_def s)
qed

lemma compact_with_inv:
  assumes K: "kv_laws K" "serde_laws C" and inv: "node_inv K C n" and op: "compact_with K C sn n = Some n'"
    and bd: "last_included_index sn < u64_max" and used: "in_use K n"
  shows "node_inv K C n'"
  using inv compact_with_recoverable [OF K _ used op bd] compact_log_wf [of "rn_state n" sn] bd
  by (simp add: node_inv_def compact_with_sel(1) [OF op])

lemma restored_follower: "role (restored_state p) = Follower"
  by (cases p) (simp_all add: restored_state_def raft_new_def Let_def split: option.split)

lemma restart_inv:
  assumes "kv_laws K" and "kv_available K C" and inv: "node_inv K C n" and db: "rn_storage n = Some db"
    and op: "restart K C config now db = Some n'"
  shows "node_inv K C n'" and "durable (rn_state n') = durable (rn_state n)"
proof -
  have rec: "recoverable K C n" using inv by (simp add: node_inv_def)
  from restart_recovers [OF assms(1,2) rec db, of config now] op
  show d: "durable (rn_state n') = durable (rn_state n)" by auto
  have "rn_storage n' = rn_storage n" using op db by (auto simp: restart_def new_with_storage_def)
  moreover have f: "role (rn_state n') = Follower"
    using op by (auto simp: restart_def new_with_storage_def restored_follower)
  ultimately have "recoverable K C n'" using recoverable_cong [OF _ d _ rec] by simp
  moreover have "log_wf (rn_state n') = log_wf (rn_state n)" "current_term (rn_state n') = current_term (rn_state n)"
    using d by (simp_all add: durable_def log_wf_def)
  ultimately show "node_inv K C n'" using inv f by (simp add: node_inv_def)
qed

lemma node_step_inv:
  assumes "node_step K C X n n'" and K: "kv_laws K" "serde_laws C" and A: "kv_available K C" and inv: "node_inv K C n"
  shows "node_inv K C n'"
  using assms(1)
proof cases
  case (campaign req)
  have s: "rn_state n' = become_candidate (nc_node_id (rn_config n)) (rn_state n)"
    by (rule begin_election_result [OF campaign])
  with begin_election_recoverable [OF K _ campaign] inv show ?thesis
    by (auto simp: node_inv_def u64_inc_bound log_wf_def)
next
  case (count t votes)
  have "role (rn_state n') \<noteq> Follower \<Longrightarrow> role (rn_state n) \<noteq> Follower"
    by (auto simp: count finish_election_def Let_def)
  with inv finish_election_recoverable [of K C n t votes] log_wf_cong [OF finish_election_log, of t votes n]
  show ?thesis by (auto simp: node_inv_def count finish_election_sel)
next
  case (vote now req r)
  note sel = vote_request_sel(1) [OF vote(1)]
  have "recoverable K C n'" using inv by (intro handle_vote_request_recoverable [OF K _ vote(1)]) (simp_all add: node_inv_def vote)
  then show ?thesis using inv vote(2)
    by (auto simp: node_inv_def sel rv_wf rv_term rv_role rv_vote_change)
next
  case (append now req ar)
  note sel = append_entries_node_sel(1) [OF append(1)]
  have "recoverable K C n'" using inv
    by (intro handle_append_entries_recoverable [OF K _ _ append(3) append(1)]) (simp_all add: node_inv_def append)
  moreover have "role (rn_state n') \<noteq> Follower \<Longrightarrow> rn_state n' = rn_state n"
    using hae_follower(1) [of "rn_state n" req X] hae_stale [of req "rn_state n" X] by (force simp: sel)
  ultimately show ?thesis using inv append(2,3) by (auto simp: node_inv_def sel hae_wf hae_term)
next
  case (install now req sr)
  note sel = install_snapshot_node_sel(1) [OF install(1) K]
  have "recoverable K C n'" using inv
    by (intro handle_install_snapshot_recoverable [OF K _ _ install(1)]) (simp_all add: node_inv_def install)
  then show ?thesis using inv install(2,3) by (auto simp: node_inv_def sel his_wf his_term his_vote)
next
  case (transfer target t sent tr)
  then show ?thesis using inv step_down_inv [OF K inv _ transfer(2)]
    by (auto simp: finish_transfer_def split: sum.splits)
next
  case (deliver es)
  then show ?thesis
    by (intro node_inv_cong [OF inv]) (auto simp: get_committed_entries_def committed_loop_result durable_def)
next
  case (crash db now)
  then show ?thesis by (intro restart_inv(1) [OF K(1) A inv])
qed (use inv append_command_inv [OF K inv] append_answer_inv [OF K inv] snapshot_answer_inv [OF K inv]
      heartbeat_answer_inv [OF K inv] compact_with_inv [OF K inv] in auto)

lemma node_steps_inv:
  "(node_step K C X)\<^sup>*\<^sup>* n n' \<Longrightarrow> kv_laws K \<Longrightarrow> serde_laws C \<Longrightarrow> kv_available K C \<Longrightarrow> node_inv K C n \<Longrightarrow>
   node_inv K C n'"
  by (induction rule: rtranclp_induct) (auto intro: node_step_inv)

text \<open>A node on a database that was never used.\<close>

lemma new_node_inv:
  assumes "\<And>k. contents K db k = None"
  shows "node_inv K C (new_with_storage config (Some db) None now)"
  using assms by (simp add: node_inv_def recoverable_def new_with_storage_def restored_state_def log_wf_new) (simp add: raft_new_def)

section \<open>A database that is in use\<close>

lemma in_use_cong: "rn_storage n' = rn_storage n \<Longrightarrow> in_use K n' = in_use K n"
  by (simp add: in_use_def)

lemma in_use_frame [simp]:
  "in_use K (n\<lparr>rn_state := s\<rparr>) = in_use K n" "in_use K (n\<lparr>last_heartbeat := t\<rparr>) = in_use K n"
  "in_use K (saw_peer t p n) = in_use K n" "in_use K (n\<lparr>commit_notify := i\<rparr>) = in_use K n"
  "in_use K (n\<lparr>pending_snapshot := sn\<rparr>) = in_use K n"
  by (simp_all add: in_use_def)

lemma with_storage_in_use: "with_storage f n = Some n' \<Longrightarrow> keeps_votes K f \<Longrightarrow> in_use K n \<Longrightarrow> in_use K n'"
  by (auto simp: with_storage_def in_use_def keeps_votes_def split: option.splits)

lemma persist_hard_state_in_use:
  assumes "kv_laws K" and "persist_hard_state K C n = Some n'"
  shows "in_use K n'"
  unfolding in_use_def
proof (intro allI impI)
  fix db' assume "rn_storage n' = Some db'"
  with assms(2) obtain b db db1 db2 where "kv_put K ''term'' (to_be_bytes (current_term (rn_state n))) db = Some db1"
    "kv_put K ''voted_for'' b db1 = Some db2" "kv_put K ''log_offset'' (to_be_bytes (log_offset (rn_state n))) db2 = Some db'"
    by (auto simp: persist_hard_state_def with_storage_def save_hard_state_def bind_eq_Some_conv split: option.splits)
  from this [THEN kv_put_contents [OF assms(1)]] show "contents K db' ''term'' \<noteq> None" by simp
qed

lemma step_down_in_use: "kv_laws K \<Longrightarrow> step_down K C t n = Some n' \<Longrightarrow> in_use K n'"
  unfolding step_down_def by (rule persist_hard_state_in_use)

lemma install_snapshot_in_use:
  assumes "kv_laws K" and "handle_install_snapshot_node K C X now req n = Some (n', r)"
  shows "in_use K n'"
proof -
  let ?s = "fst (handle_install_snapshot X req (rn_state n))"
  from assms(2) obtain n1 n2 where p: "persist_hard_state K C (n\<lparr>rn_state := ?s\<rparr>) = Some n1"
    and o: "offer_snapshot K C req n1 = Some n2" and n': "n' = n2\<lparr>last_heartbeat := now\<rparr>"
    by (auto simp: handle_install_snapshot_node_def Let_def split_beta bind_eq_Some_conv)
  note used = persist_hard_state_in_use [OF assms(1) p]
  from o consider "n2 = n1" | sn n3 where "with_storage (save_snapshot K C sn (log_offset (rn_state n1))) n1 = Some n3"
      "rn_storage n2 = rn_storage n3"
    by (fastforce simp: offer_snapshot_def bind_eq_Some_conv split: option.splits if_splits)
  then show ?thesis
  proof cases
    case 2
    from with_storage_in_use [OF this(1) keeps_votes_snapshot [OF assms(1)] used] in_use_cong [OF this(2)]
    show ?thesis by (simp add: n')
  qed (use used in \<open>simp add: n'\<close>)
qed

lemma append_entries_in_use:
  assumes "kv_laws K" and "handle_append_entries_node K C X now req n = Some (n', r)"
  shows "in_use K n'"
proof -
  let ?h = "handle_append_entries X req (rn_state n)"
  from assms(2) obtain n1 n2 where p: "persist_hard_state K C (n\<lparr>rn_state := fst ?h\<rparr>) = Some n1"
    and w: "with_storage (sync_log K C req (snd ?h) (last_log_index (rn_state n)) (fst ?h)) n1 = Some n2"
    and s: "rn_storage n' = rn_storage n2"
    by (auto simp: handle_append_entries_node_def Let_def split_beta bind_eq_Some_conv)
  from with_storage_in_use [OF w keeps_votes_sync [OF assms(1)] persist_hard_state_in_use [OF assms(1) p]] in_use_cong [OF s]
  show ?thesis by simp
qed

text \<open>Once a node has written its term, there is one on disk for good.\<close>

lemma node_step_in_use:
  assumes "node_step K C X n n'" and K: "kv_laws K" and used: "in_use K n"
  shows "in_use K n'"
  using assms(1)
proof cases
  case (campaign req)
  then show ?thesis by (auto simp: begin_election_def Let_def bind_eq_Some_conv intro: persist_hard_state_in_use [OF K])
next
  case (vote now req r)
  then obtain n1 where "persist_hard_state K C (n\<lparr>rn_state := fst (handle_request_vote req (rn_state n))\<rparr>) = Some n1"
    "rn_storage n' = rn_storage n1"
    by (auto simp: handle_vote_request_def Let_def split_beta bind_eq_Some_conv)
  with persist_hard_state_in_use [OF K this(1)] in_use_cong show ?thesis by blast
next
  case (command cmd res)
  show ?thesis
  proof (cases "role (rn_state n) = Leader")
    case True
    with command(1) have "with_storage (storage_append_entry K C (snd (append_entry cmd (rn_state n))))
        (n\<lparr>rn_state := fst (append_entry cmd (rn_state n))\<rparr>) = Some n'"
      by (auto simp: handle_append_command_def append_command_def persist_entry_def Let_def split_beta)
    from with_storage_in_use [OF this keeps_votes_append [OF K]] used show ?thesis by simp
  qed (use command(1) used in \<open>simp add: handle_append_command_def append_command_def\<close>)
next
  case (compact sn)
  let ?s = "compact_log sn (rn_state n)"
  show ?thesis
  proof (cases "snapshot ?s")
    case (Some sn')
    with compact(1) have "with_storage (save_snapshot K C sn' (log_offset ?s)) (n\<lparr>rn_state := ?s\<rparr>) = Some n'"
      by (simp add: compact_with_def Let_def)
    from with_storage_in_use [OF this keeps_votes_snapshot [OF K]] used show ?thesis by simp
  qed (use compact(1) used in \<open>auto simp: compact_with_def Let_def\<close>)
next
  case (transfer target t sent tr)
  then show ?thesis using used step_down_in_use [OF K] by (auto simp: finish_transfer_def split: sum.splits)
next
  case (crash db now)
  then show ?thesis using used by (auto simp: restart_def new_with_storage_def in_use_def)
next
  case (append_ack now p ar)
  then show ?thesis using used step_down_in_use [OF K] by (auto simp: append_answer_def Let_def split: if_splits)
next
  case (snapshot_ack now p idx sr)
  then show ?thesis using used step_down_in_use [OF K] by (auto simp: snapshot_answer_def Let_def split: if_splits)
next
  case (heartbeat_ack now p sent ar)
  then show ?thesis using used step_down_in_use [OF K] by (auto simp: heartbeat_answer_def Let_def split: if_splits)
next
  case (deliver es)
  then show ?thesis using used by (auto simp: get_committed_entries_def committed_loop_result)
next
  case (count t votes)
  then show ?thesis using used by (simp add: in_use_cong [OF finish_election_sel(4)])
qed (use K in \<open>auto intro: append_entries_in_use install_snapshot_in_use\<close>)

end
