(* ===== verification/Log_Matching.thy ===== *)
theory Log_Matching
  imports Cluster_Runs Raft_Loop
begin

text \<open>
  Log Matching, the guarantee of \<open>src/raft/state.rs\<close> that two logs with an entry of the same index and term
  agree up to that entry, over the runs of a cluster (\<open>src/raft/node.rs\<close>) in which no log has been compacted.
  The proof keeps, for every term, the log its leader has or last had: every entry of every log, and of
  every message, stands at the end of a prefix of the log of its term's leader.
\<close>

section \<open>Logs that follow the leaders\<close>

text \<open>\<open>G t\<close> is the log of the leader of term \<open>t\<close>.\<close>

definition follows :: "(u64 \<Rightarrow> log_entry list) \<Rightarrow> log_entry list \<Rightarrow> bool" where
  "follows G L \<longleftrightarrow>
     (\<forall>k < length L. k < length (G (le_term (L ! k))) \<and> take (Suc k) (G (le_term (L ! k))) = take (Suc k) L)"

lemma follows_Nil [simp]: "follows G []"
  by (simp add: follows_def)

lemma follows_take: "follows G L \<Longrightarrow> follows G (take m L)"
  by (simp add: follows_def min_def)

lemma follows_agree:
  assumes "follows G L" and "follows G M" and "k < length L" and "k < length M" and "le_term (L ! k) = le_term (M ! k)"
  shows "take (Suc k) L = take (Suc k) M"
  using assms by (metis follows_def)

definition grows :: "(u64 \<Rightarrow> log_entry list) \<Rightarrow> (u64 \<Rightarrow> log_entry list) \<Rightarrow> bool" where
  "grows G G' \<longleftrightarrow> (\<forall>t. \<exists>es. G' t = G t @ es)"

lemma grows_refl [simp, intro!]: "grows G G"
  by (simp add: grows_def)

lemma grows_update: "L = G t @ es \<Longrightarrow> grows G (G(t := L))"
  by (auto simp: grows_def)

lemma follows_mono:
  assumes "follows G L" and "grows G G'"
  shows "follows G' L"
  unfolding follows_def
proof (intro allI impI)
  fix k assume k: "k < length L"
  obtain es where "G' (le_term (L ! k)) = G (le_term (L ! k)) @ es" using assms(2) by (auto simp: grows_def)
  with assms(1) k show "k < length (G' (le_term (L ! k))) \<and> take (Suc k) (G' (le_term (L ! k))) = take (Suc k) L"
    by (fastforce simp: follows_def)
qed

text \<open>The leader of a term appends an entry.\<close>

lemma follows_append:
  assumes "follows G L" and "G t = L" and "le_term e = t"
  shows "follows (G(t := L @ [e])) (L @ [e])"
proof -
  have "follows (G(t := L @ [e])) L" by (rule follows_mono [OF assms(1) grows_update]) (use assms(2) in simp)
  then show ?thesis using assms(3) by (auto simp: follows_def nth_append less_Suc_eq)
qed

section \<open>The invariant\<close>

definition log_of :: "ext \<Rightarrow> raft_state \<Rightarrow> log_entry list" where
  "log_of X s = map (norm_entry X) (rlog s)"

definition leads_ok :: "ext \<Rightarrow> (u64 \<Rightarrow> log_entry list) \<Rightarrow> 'db raft_node \<Rightarrow> bool" where
  "leads_ok X G n \<longleftrightarrow>
     (role (rn_state n) = Leader \<longrightarrow>
        G (current_term (rn_state n)) = log_of X (rn_state n) \<and>
        (\<forall>p \<in> set (peer_ids (rn_config n)). hm_get (next_index (rn_state n)) p \<noteq> None))"

definition member_matches ::
  "'db kv \<Rightarrow> serde \<Rightarrow> ext \<Rightarrow> (u64 \<Rightarrow> log_entry list) \<Rightarrow> (u64 \<times> node_id) set \<Rightarrow> node_id \<Rightarrow> 'db raft_node \<Rightarrow> bool" where
  "member_matches K C X G leaders i n \<longleftrightarrow>
     node_inv K C n \<and> full (rn_state n) \<and> follows G (log_of X (rn_state n)) \<and> leads_ok X G n \<and>
     (role (rn_state n) = Candidate \<longrightarrow> (current_term (rn_state n), i) \<notin> leaders)"

text \<open>What a message with entries says: they continue a log \<open>P\<close> that ends at the position before them.\<close>

definition message_ok :: "ext \<Rightarrow> (u64 \<Rightarrow> log_entry list) \<Rightarrow> append_entries_request \<Rightarrow> bool" where
  "message_ok X G req \<longleftrightarrow>
     ae_entries req = [] \<or>
     (\<exists>P. length P = ae_prev_log_index req \<and> follows G (P @ map (norm_entry X) (new_entries X req)) \<and>
        (P \<noteq> [] \<longrightarrow> le_term (last P) = ae_prev_log_term req) \<and>
        indexed_from (Suc (ae_prev_log_index req)) (new_entries X req) \<and>
        ae_prev_log_index req + length (new_entries X req) \<le> u64_max \<and> ae_prev_log_index req < u64_max)"

definition matching ::
  "'db kv \<Rightarrow> serde \<Rightarrow> ext \<Rightarrow> node_config \<Rightarrow> (u64 \<Rightarrow> log_entry list) \<Rightarrow> 'db cluster \<Rightarrow> bool" where
  "matching K C X cf G c \<longleftrightarrow>
     (\<forall>i \<in> cluster_ids cf. member_matches K C X G (cl_leaders c) i (cl_node c i)) \<and>
     (\<forall>t. (\<forall>i. (t, i) \<notin> cl_leaders c) \<longrightarrow> G t = []) \<and>
     (\<forall>p req. (p, req) \<in> cl_appends c \<longrightarrow> message_ok X G req) \<and>
     cl_snapshots c = {}"

text \<open>The logs of the leaders once a node has changed.\<close>

definition led :: "ext \<Rightarrow> (u64 \<Rightarrow> log_entry list) \<Rightarrow> 'db raft_node \<Rightarrow> u64 \<Rightarrow> log_entry list" where
  "led X G n = (if role (rn_state n) = Leader then G(current_term (rn_state n) := log_of X (rn_state n)) else G)"

lemma led_same: "leads_ok X G n \<Longrightarrow> led X G n = G"
  by (auto simp: led_def leads_ok_def)

lemma matchingD:
  assumes "matching K C X cf G c"
  shows "i \<in> cluster_ids cf \<Longrightarrow> member_matches K C X G (cl_leaders c) i (cl_node c i)"
    and "(\<And>i. (t, i) \<notin> cl_leaders c) \<Longrightarrow> G t = []"
    and "(p, req) \<in> cl_appends c \<Longrightarrow> message_ok X G req" and "cl_snapshots c = {}"
  using assms by (auto simp: matching_def)

lemma message_ok_mono:
  assumes "message_ok X G req" and "grows G G'"
  shows "message_ok X G' req"
  using assms(1) follows_mono [OF _ assms(2)] unfolding message_ok_def by blast

lemma matching_set_node:
  assumes "matching K C X cf G c" and "member_matches K C X G (cl_leaders c) i n"
  shows "matching K C X cf G (set_node i n c)"
  using assms by (auto simp: matching_def)

lemma set_node_leaders: "(set_node i n c)\<lparr>cl_leaders := cl_leaders c\<rparr> = set_node i n c"
  by (simp add: set_node_def)

lemma matching_frame [simp]:
  "matching K C X cf G (c\<lparr>cl_requests := R\<rparr>) = matching K C X cf G c"
  "matching K C X cf G (c\<lparr>cl_grants := V\<rparr>) = matching K C X cf G c"
  by (simp_all add: matching_def)

lemma matching_send:
  "matching K C X cf G c \<Longrightarrow> message_ok X G (snd m) \<Longrightarrow>
   matching K C X cf G (c\<lparr>cl_appends := insert m (cl_appends c)\<rparr>)"
  by (auto simp: matching_def)

text \<open>A step that leaves the log alone and at most steps down.\<close>

lemma member_calm:
  assumes m: "member_matches K C X G leaders i n" and q: "rn_config n' = rn_config n"
    and r: "role (rn_state n') \<noteq> Follower \<Longrightarrow> role (rn_state n') = role (rn_state n) \<and>
      current_term (rn_state n') = current_term (rn_state n)"
    and log: "rlog (rn_state n') = rlog (rn_state n)" and inv: "node_inv K C n'" and full: "full (rn_state n')"
    and nx: "\<And>p. hm_get (next_index (rn_state n)) p \<noteq> None \<Longrightarrow> hm_get (next_index (rn_state n')) p \<noteq> None"
  shows "member_matches K C X G leaders i n'"
proof -
  have l: "log_of X (rn_state n') = log_of X (rn_state n)" by (simp add: log_of_def log)
  have "leads_ok X G n'" using m r nx by (simp add: member_matches_def leads_ok_def q l)
  with m r inv full l show ?thesis by (auto simp: member_matches_def)
qed

lemma member_follower:
  assumes "node_inv K C n" and "full (rn_state n)" and "role (rn_state n) = Follower" and "follows G (log_of X (rn_state n))"
  shows "member_matches K C X G leaders i n"
  using assms by (simp add: member_matches_def leads_ok_def)

section \<open>Messages\<close>

lemma full_request_entries:
  assumes wf: "log_wf s" and f: "full s" and nx: "hm_get (next_index s) p = Some next"
  shows "ae_entries (append_request X me s next) = map (log_entry_to_proto X) (drop (next - 1) (rlog s))"
proof (cases "next = 0")
  case True
  have off: "log_offset s = 0" "log_offset s < u64_max" using f by (simp_all add: full_def u64_max_def)
  have "entries_start s = 1"
    using entries_start_le [OF nx] entries_start_ge [of s] True off(1) u64_inc_small [OF off(2)] by simp
  moreover have "filter (\<lambda>e. 1 \<le> le_index e) (rlog s) = rlog s"
    using wf off(1) indexed_from_nth [of "Suc 0" "rlog s"] by (auto simp: log_wf_def in_set_conv_nth intro!: filter_True)
  ultimately show ?thesis
    using True by (simp add: append_request_def Let_def get_entries_from_filter [OF wf off(2)])
next
  case False
  with append_request_entries [OF wf _ nx, of X me] f show ?thesis by (simp add: full_def u64_max_def)
qed

lemma full_request_prev:
  assumes wf: "log_wf s" and f: "full s" and nx: "hm_get (next_index s) p = Some next"
    and k: "0 < next - 1" "next - 1 \<le> length (rlog s)"
  shows "ae_prev_log_term (append_request X me s next) = le_term (rlog s ! (next - 1 - 1))"
proof -
  have off: "log_offset s = 0" "log_offset s < u64_max" using f by (simp_all add: full_def u64_max_def)
  have hi: "log_offset s < next" "next \<le> Suc (last_log_index s)" "log_offset s < next - 1"
    using off(1) k by (simp_all add: log_wf_last_index [OF wf])
  obtain e where "get_entry s (next - 1) = Some e" "ae_prev_log_term (append_request X me s next) = le_term e"
    using append_request_prev(2) [OF wf off(2) nx hi, of X me] by blast
  with k off(1) show ?thesis by (simp add: get_entry_cases [OF wf] split: if_splits)
qed

lemma append_request_message:
  assumes X: "uuid_laws X" "chrono_laws X" and wf: "log_wf s" and f: "full s"
    and nx: "hm_get (next_index s) p = Some next" and G: "follows G (log_of X s)"
  shows "message_ok X G (append_request X me s next)"
proof (cases "next - 1 < length (rlog s)")
  case False
  with full_request_entries [OF wf f nx, of X me] show ?thesis by (simp add: message_ok_def)
next
  case k: True
  let ?req = "append_request X me s next" and ?k = "next - 1"
  let ?P = "map (norm_entry X) (take ?k (rlog s))"
  have off: "log_offset s = 0" "log_offset s < u64_max" using f by (simp_all add: full_def u64_max_def)
  have new: "new_entries X ?req = map (norm_entry X) (drop ?k (rlog s))"
    by (rule new_entries_sent [OF X(1) full_request_entries [OF wf f nx]])
  have prev: "ae_prev_log_index ?req = ?k" by (simp add: append_request_def Let_def)
  have ix: "indexed_from 1 (rlog s)" and len: "length (rlog s) \<le> u64_max" using wf off(1) by (simp_all add: log_wf_def)
  have PE: "?P @ map (norm_entry X) (new_entries X ?req) = log_of X s"
    by (simp add: new log_of_def comp_def norm_entry_idem [OF X(2)] flip: map_append)
  have last: "le_term (last ?P) = ae_prev_log_term ?req" if ne: "?P \<noteq> []"
  proof -
    have n: "0 < ?k" "?k - 1 < length (rlog s)" using ne k by auto
    have "last ?P = norm_entry X (rlog s ! (?k - 1))" using last_conv_nth [OF ne] n k by simp
    then show ?thesis using full_request_prev [OF wf f nx n(1)] k by (simp add: norm_entry_def)
  qed
  have "indexed_from (Suc ?k) (drop ?k (rlog s))" using indexed_from_drop [OF ix, of ?k] k by simp
  then have "length ?P = ae_prev_log_index ?req \<and> indexed_from (Suc (ae_prev_log_index ?req)) (new_entries X ?req) \<and>
      ae_prev_log_index ?req + length (new_entries X ?req) \<le> u64_max \<and> ae_prev_log_index ?req < u64_max"
    using k len by (simp add: prev new)
  moreover have "follows G (?P @ map (norm_entry X) (new_entries X ?req))" unfolding PE by (rule G)
  ultimately show ?thesis using last unfolding message_ok_def by blast
qed

section \<open>Steps\<close>

text \<open>A follower that accepts a request has the log it continues: the entry before the position has the right term.\<close>

lemma hae_matched:
  assumes wf: "log_wf s" and f: "full s" and F: "follows G (log_of X s)" and M: "follows G M"
    and ok: "aer_success (snd (handle_append_entries X req s))" and le: "ae_prev_log_index req \<le> length M"
    and last: "0 < ae_prev_log_index req \<Longrightarrow> le_term (M ! (ae_prev_log_index req - 1)) = ae_prev_log_term req"
  shows "ae_prev_log_index req \<le> length (rlog s)"
    and "take (ae_prev_log_index req) (log_of X s) = take (ae_prev_log_index req) M"
proof -
  let ?p = "ae_prev_log_index req"
  have "?p \<le> length (rlog s) \<and> take ?p (log_of X s) = take ?p M"
  proof (cases "0 < ?p")
    case True
    with f have "log_offset s < ?p" by (simp add: full_def)
    then obtain e where e: "get_entry s ?p = Some e" "le_term e = ae_prev_log_term req" using hae_prev_match [OF ok] by blast
    then have len: "?p \<le> length (rlog s)" and "e = rlog s ! (?p - 1)"
      using f by (auto simp: full_def get_entry_cases [OF wf] log_wf_last_index [OF wf] split: if_splits)
    with e last [OF True] True have "le_term (log_of X s ! (?p - 1)) = le_term (M ! (?p - 1))"
      by (simp add: log_of_def norm_entry_def)
    moreover have "?p - 1 < length (log_of X s)" "?p - 1 < length M" "Suc (?p - 1) = ?p"
      using True len le by (auto simp: log_of_def)
    ultimately have "take ?p (log_of X s) = take ?p M" using follows_agree [OF F M, of "?p - 1"] by simp
    with len show ?thesis by simp
  qed simp
  then show "?p \<le> length (rlog s)" and "take ?p (log_of X s) = take ?p M" by blast+
qed

lemma member_append:
  assumes K: "kv_laws K" "serde_laws C" "kv_available K C" and m: "member_matches K C X G leaders i n"
    and op: "handle_append_entries_node K C X now req n = Some (n', r)" and t: "ae_term req \<le> u64_max"
    and msg: "message_ok X G req"
  shows "member_matches K C X G leaders i n'"
proof -
  let ?s = "rn_state n" and ?h = "handle_append_entries X req (rn_state n)"
  have n: "node_inv K C n" "log_wf ?s" "full ?s" "follows G (log_of X ?s)" using m by (simp_all add: member_matches_def node_inv_def)
  have wf: "request_wf X req ?s" using msg n(3) by (auto simp: message_ok_def request_wf_def full_def)
  have inv: "node_inv K C n'" by (rule node_step_inv [OF node_step.append [OF op t wf] K n(1)])
  note sel = append_entries_node_sel(1,2) [OF op]
  have f: "full (rn_state n')" using n(3) by (simp add: sel full_def hae_offset)
  show ?thesis
  proof (cases "ae_term req < current_term ?s")
    case True
    with sel have "rn_state n' = ?s" by (simp add: hae_stale)
    with m sel(2) inv show ?thesis by (simp add: member_matches_def leads_ok_def)
  next
    case False
    have "follows G (log_of X (fst ?h))"
    proof (cases "aer_success (snd ?h)")
      case ok: True
      show ?thesis
      proof (cases "ae_entries req = []")
        case True
        with hae_success(3) [OF ok] n(4) show ?thesis by (simp add: log_of_def accept_entries_heartbeat(1))
      next
        case ne: False
        then obtain P where P: "length P = ae_prev_log_index req" "follows G (P @ map (norm_entry X) (new_entries X req))"
          "P \<noteq> [] \<Longrightarrow> le_term (last P) = ae_prev_log_term req"
          using msg by (auto simp: message_ok_def)
        have "take (length P) (log_of X ?s) = take (length P) (P @ map (norm_entry X) (new_entries X req))"
          using P(3) unfolding P(1) [symmetric]
          by (intro hae_matched(2) [OF n(2-4) P(2) ok, folded P(1)]) (auto simp: last_conv_nth nth_append)
        then have "follows G (take (length P) (log_of X ?s) @ map (norm_entry X) (new_entries X req))" using P(2) by simp
        with hae_log [OF n(2) wf ok ne] n(3) P(1) show ?thesis by (simp add: log_of_def full_def take_map)
      qed
    next
      case False
      from hae_failure(1) [OF this] n(4) show ?thesis by (auto simp: log_of_def follows_take simp flip: take_map)
    qed
    then show ?thesis
      using inv f hae_follower(1) [of ?s req X] False by (intro member_follower) (simp_all add: sel)
  qed
qed

lemma matching_leader_log:
  assumes m: "matching K C X cf G c" and inv: "election_inv K C cf ((set_node i n c)\<lparr>cl_leaders := L\<rparr>)"
    and i: "i \<in> cluster_ids cf" and L: "cl_leaders c \<subseteq> L" "L \<subseteq> insert (t, i) (cl_leaders c)"
    and lead: "role (rn_state n) = Leader" "current_term (rn_state n) = t"
    and n: "node_inv K C n" "full (rn_state n)" "follows (G(t := log_of X (rn_state n))) (log_of X (rn_state n))"
      "log_of X (rn_state n) = G t @ es"
    and nx: "\<And>p. p \<in> set (peer_ids (rn_config n)) \<Longrightarrow> hm_get (next_index (rn_state n)) p \<noteq> None"
  shows "matching K C X cf (G(t := log_of X (rn_state n))) ((set_node i n c)\<lparr>cl_leaders := L\<rparr>)"
proof -
  let ?G = "G(t := log_of X (rn_state n))" and ?c = "(set_node i n c)\<lparr>cl_leaders := L\<rparr>"
  have g: "grows G ?G" using n(4) by (auto simp: grows_def)
  have ti: "(t, i) \<in> L" using election_invD(1) [OF inv i] lead by (simp add: node_ok_def)
  have me: "member_matches K C X ?G L i n" using n(1-3) lead nx by (simp add: member_matches_def leads_ok_def)
  have other: "member_matches K C X ?G L j (cl_node c j)" if j: "j \<in> cluster_ids cf" "j \<noteq> i" for j
  proof -
    note mj = matchingD(1) [OF m j(1)]
    have "current_term (state_of c j) \<noteq> t" if "role (state_of c j) = Leader"
    proof
      assume "current_term (state_of c j) = t"
      with election_invD(1) [OF inv j(1)] that j(2) have "(t, j) \<in> L" by (simp add: node_ok_def)
      with election_invD(5) [OF inv, of t j i] ti j(2) show False by simp
    qed
    with mj have "leads_ok X ?G (cl_node c j)" by (simp add: member_matches_def leads_ok_def)
    then show ?thesis using mj follows_mono [OF _ g] L(2) j(2) by (auto simp: member_matches_def)
  qed
  have empty: "?G t' = []" if no: "\<forall>j. (t', j) \<notin> L" for t'
  proof -
    have "t' \<noteq> t" "\<And>j. (t', j) \<notin> cl_leaders c" using no ti L(1) by auto
    with matchingD(2) [OF m, of t'] show ?thesis by simp
  qed
  show ?thesis unfolding matching_def
    using me other empty matchingD(3,4) [OF m] message_ok_mono [OF _ g] by simp
qed

text \<open>A leader appends a command; others refuse it.\<close>

lemma matching_propose:
  assumes K: "kv_laws K" "serde_laws C" "kv_available K C" and X: "chrono_laws X"
    and m: "matching K C X cf G c" and i: "i \<in> cluster_ids cf" and room: "last_log_index (state_of c i) < u64_max"
    and op: "handle_append_command K C cmd (cl_node c i) = Some (n, res)"
    and inv: "election_inv K C cf (set_node i n c)" and full: "full (rn_state n)"
  shows "matching K C X cf (led X G n) (set_node i n c)" and "grows G (led X G n)"
proof -
  let ?s = "state_of c i"
  note mi = matchingD(1) [OF m i]
  have n: "node_inv K C n"
    using mi by (intro node_step_inv [OF node_step.command [OF op room] K]) (simp add: member_matches_def)
  have cf: "rn_config n = rn_config (cl_node c i)" using append_command_quiet [OF K(1) op] by (simp add: quiet_def)
  have s: "rn_state n = (if role ?s = Leader then fst (append_entry cmd ?s) else ?s)"
    using op by (auto simp: handle_append_command_def append_command_def persist_entry_def Let_def split_beta
        dest!: with_storage_sel(1) split: if_splits)
  have "matching K C X cf (led X G n) (set_node i n c) \<and> grows G (led X G n)"
  proof (cases "role ?s = Leader")
    case False
    with s n mi cf have "member_matches K C X G (cl_leaders c) i n"
      by (simp add: member_matches_def leads_ok_def)
    with matching_set_node [OF m this] show ?thesis by (simp add: member_matches_def led_same)
  next
    case True
    let ?e = "norm_entry X (snd (append_entry cmd ?s))" and ?t = "current_term ?s"
    have l: "log_of X (rn_state n) = log_of X ?s @ [?e]" "le_term ?e = ?t"
      using True by (simp_all add: s log_of_def append_entry_def Let_def norm_entry_def)
    have G: "G ?t = log_of X ?s" "follows G (log_of X ?s)"
      using mi True by (simp_all add: member_matches_def leads_ok_def)
    have inv': "election_inv K C cf ((set_node i n c)\<lparr>cl_leaders := cl_leaders c\<rparr>)" using inv by (simp only: set_node_leaders)
    have fol: "follows (G(?t := log_of X (rn_state n))) (log_of X (rn_state n))"
      unfolding l(1) by (rule follows_append [OF G(2,1) l(2)])
    have r: "role (rn_state n) = Leader" "current_term (rn_state n) = ?t" "next_index (rn_state n) = next_index ?s"
      using True by (simp_all add: s append_entry_def Let_def)
    have "matching K C X cf (G(?t := log_of X (rn_state n))) ((set_node i n c)\<lparr>cl_leaders := cl_leaders c\<rparr>)"
      by (rule matching_leader_log [OF m inv' i _ _ r(1,2) n full fol, where es = "[?e]"])
        (use mi True l(1) G(1) r(3) cf in \<open>auto simp: member_matches_def leads_ok_def\<close>)
    moreover have "grows G (G(?t := log_of X (rn_state n)))" by (rule grows_update) (simp add: G(1) l(1))
    ultimately show ?thesis unfolding set_node_leaders led_def using r(1,2) by simp
  qed
  then show "matching K C X cf (led X G n) (set_node i n c)" and "grows G (led X G n)" by blast+
qed

text \<open>A candidate counts its votes; nobody else leads in its term.\<close>

lemma fresh_term:
  assumes m: "matching K C X cf G c" and i: "i \<in> cluster_ids cf" and cand: "role (state_of c i) = Candidate"
    and inv: "election_inv K C cf c'" and L: "cl_leaders c \<subseteq> cl_leaders c'" "(current_term (state_of c i), i) \<in> cl_leaders c'"
  shows "(current_term (state_of c i), j) \<notin> cl_leaders c"
proof
  assume j: "(current_term (state_of c i), j) \<in> cl_leaders c"
  with L have "j = i" using election_invD(5) [OF inv, of "current_term (state_of c i)" j i] by blast
  with j matchingD(1) [OF m i] cand show False by (simp add: member_matches_def)
qed

lemma matching_count:
  assumes K: "kv_laws K" "serde_laws C" "kv_available K C" and m: "matching K C X cf G c" and i: "i \<in> cluster_ids cf"
    and n: "n = finish_election t v (cl_node c i)" and L: "L = (if role (rn_state n) = Leader then insert (current_term (rn_state n), i) else id) (cl_leaders c)"
    and old: "election_inv K C cf c" and inv: "election_inv K C cf ((set_node i n c)\<lparr>cl_leaders := L\<rparr>)"
  shows "matching K C X cf (led X G n) ((set_node i n c)\<lparr>cl_leaders := L\<rparr>)" and "grows G (led X G n)"
proof -
  let ?s = "state_of c i"
  note mi = matchingD(1) [OF m i]
  have ni: "node_inv K C n" unfolding n
    using mi by (intro node_step_inv [OF node_step.count K]) (simp add: member_matches_def)
  have log: "log_of X (rn_state n) = log_of X ?s" "full (rn_state n)" "rn_config n = rn_config (cl_node c i)"
    "current_term (rn_state n) = current_term ?s"
    using mi by (simp_all add: n log_of_def full_def member_matches_def finish_election_log finish_election_sel)
  have "matching K C X cf (led X G n) ((set_node i n c)\<lparr>cl_leaders := L\<rparr>) \<and> grows G (led X G n)"
  proof (cases "role (rn_state n) = Leader \<and> role ?s \<noteq> Leader")
    case True
    then have cand: "role ?s = Candidate" using finish_election_wins(1) n by blast
    let ?t = "current_term ?s"
    have "(?t, j) \<notin> cl_leaders c" for j
      using True L log(4) by (intro fresh_term [OF m i cand inv]) auto
    then have G: "G ?t = []" by (rule matchingD(2) [OF m])
    have fol: "follows (G(?t := log_of X (rn_state n))) (log_of X (rn_state n))"
    proof (rule follows_mono)
      show "follows G (log_of X (rn_state n))" using mi by (simp add: member_matches_def log(1))
    qed (use G in \<open>auto simp: grows_def\<close>)
    have nx: "hm_get (next_index (rn_state n)) p \<noteq> None" if "p \<in> set (peer_ids (rn_config n))" for p
      using True that by (auto simp: n finish_election_def Let_def become_leader_def init_peers_get split: if_splits)
    have "matching K C X cf (G(?t := log_of X (rn_state n))) ((set_node i n c)\<lparr>cl_leaders := L\<rparr>)"
      by (rule matching_leader_log [OF m inv i _ _ _ log(4) ni log(2) fol _ nx, where es = "log_of X (rn_state n)"])
        (use True L log(4) G in auto)
    moreover have "grows G (G(?t := log_of X (rn_state n)))" by (rule grows_update) (simp add: G)
    ultimately show ?thesis using True log(4) by (simp add: led_def)
  next
    case False
    then have r: "role (rn_state n) = role ?s" unfolding n by (intro finish_election_loses) auto
    have L': "L = cl_leaders c"
      using L r log(4) election_invD(1) [OF old i] by (auto simp: node_ok_def)
    have "hm_get (next_index ?s) p \<noteq> None \<Longrightarrow> hm_get (next_index (rn_state n)) p \<noteq> None" for p
      using False by (auto simp: n finish_election_def Let_def become_leader_def split: if_splits)
    then have "member_matches K C X G (cl_leaders c) i n"
      by (intro member_calm [OF mi log(3) _ _ ni log(2)])
        (simp_all add: n finish_election_sel finish_election_log r [unfolded n])
    with matching_set_node [OF m this] show ?thesis
      unfolding L' set_node_leaders by (simp add: member_matches_def led_same)
  qed
  then show "matching K C X cf (led X G n) ((set_node i n c)\<lparr>cl_leaders := L\<rparr>)" and "grows G (led X G n)" by blast+
qed

lemma full_compaction:
  assumes "compact_with K C sn n = Some n'" and "full (rn_state n)" and "full (rn_state n')"
  shows "n' = n"
proof -
  have "compact_log sn (rn_state n) = rn_state n"
    using assms(2,3) by (simp add: compact_with_sel(1) [OF assms(1)] full_def compact_log_offset) (simp add: compact_log_def)
  with assms(1,2) show ?thesis by (simp add: compact_with_def Let_def full_def)
qed

lemma append_answer_calm:
  assumes "append_answer K C now p r n = Some n'"
  shows "rlog (rn_state n') = rlog (rn_state n)" and "log_offset (rn_state n') = log_offset (rn_state n)"
    and "snapshot (rn_state n') = snapshot (rn_state n)"
    and "hm_get (next_index (rn_state n)) q \<noteq> None \<Longrightarrow> hm_get (next_index (rn_state n')) q \<noteq> None"
  using assms
  by (auto simp: append_answer_def Let_def step_down_def advance_commit_def become_follower_def
      dest!: persist_hard_state_sel(1) split: if_splits option.splits)

lemma snapshot_answer_calm:
  assumes "snapshot_answer K C now p idx r n = Some n'"
  shows "rlog (rn_state n') = rlog (rn_state n)" and "log_offset (rn_state n') = log_offset (rn_state n)"
    and "snapshot (rn_state n') = snapshot (rn_state n)"
    and "hm_get (next_index (rn_state n)) q \<noteq> None \<Longrightarrow> hm_get (next_index (rn_state n')) q \<noteq> None"
  using assms
  by (auto simp: snapshot_answer_def Let_def step_down_def become_follower_def
      dest!: persist_hard_state_sel(1) split: if_splits)

text \<open>What a leader with a full log sends: entries, and never a snapshot.\<close>

lemma full_replicate:
  assumes "(p, out) \<in> set (replicate_to_peers X n)" and "full (rn_state n)"
    and "hm_get (next_index (rn_state n)) p = Some next"
  shows "out = SendNothing \<or> out = SendEntries (append_request X (nc_node_id (rn_config n)) (rn_state n) next)"
  using assms by (auto simp: replicate_to_peers_def replicate_to_peer_def full_def Let_def split: if_splits)

lemma connect_config: "rn_config (connect_to_peers dial has_tls n) = rn_config n"
proof -
  have "rn_config (foldl (connect_to_peer dial has_tls) n ps) = rn_config n" for ps
    by (induction ps arbitrary: n) (simp_all add: connect_to_peer_def Let_def split: dial_result.split)
  then show ?thesis by (simp add: connect_to_peers_def)
qed

section \<open>The steps of the cluster\<close>

text \<open>A step that leaves the log alone and makes nobody leader.\<close>

lemma matching_calm:
  assumes m: "matching K C X cf G c" and "i \<in> cluster_ids cf" and "rn_config n = rn_config (cl_node c i)"
    and "role (rn_state n) \<noteq> Follower \<Longrightarrow> role (rn_state n) = role (state_of c i) \<and> current_term (rn_state n) = current_term (state_of c i)"
    and "rlog (rn_state n) = rlog (state_of c i)" and "node_inv K C n" and "full (rn_state n)"
    and "\<And>p. hm_get (next_index (state_of c i)) p \<noteq> None \<Longrightarrow> hm_get (next_index (rn_state n)) p \<noteq> None"
  shows "matching K C X cf G (set_node i n c)"
  by (rule matching_set_node [OF m member_calm [OF matchingD(1) [OF m assms(2)] assms(3-8)]])

lemma matching_members:
  assumes "matching K C X cf G c" and "i \<in> cluster_ids cf"
  shows "node_inv K C (cl_node c i)" and "full (state_of c i)"
  using matchingD(1) [OF assms] by (simp_all add: member_matches_def)

lemma matching_node_step:
  assumes "kv_laws K" and "serde_laws C" and "kv_available K C" and "matching K C X cf G c" and "i \<in> cluster_ids cf"
    and "node_step K C X (cl_node c i) n"
  shows "node_inv K C n"
  by (rule node_step_inv [OF assms(6,1-3) matching_members(1) [OF assms(4,5)]])

lemma matching_campaign:
  assumes K: "kv_laws K" "serde_laws C" "kv_available K C" and m: "matching K C X cf G c" and old: "election_inv K C cf c"
    and i: "i \<in> cluster_ids cf" and bound: "current_term (state_of c i) < u64_max" and op: "begin_election K C (cl_node c i) = Some (n, req)"
  shows "matching K C X cf G (set_node i n c)"
proof -
  have b: "rn_state n = become_candidate (nc_node_id (rn_config (cl_node c i))) (state_of c i)" by (rule begin_election_result [OF op])
  have "(Suc (current_term (state_of c i)), i) \<notin> cl_leaders c"
    using election_invD(4) [OF old, of "Suc (current_term (state_of c i))" i] by (auto simp: leader_ok_def)
  then have "member_matches K C X G (cl_leaders c) i n"
    using matchingD(1) [OF m i] matching_node_step [OF K m i node_step.campaign [OF op]] begin_election_votes(1,3) [OF op K(1,2) bound]
    by (simp add: member_matches_def leads_ok_def) (simp add: b full_def log_of_def become_candidate_def)
  from matching_set_node [OF m this] show ?thesis .
qed

lemma matching_vote:
  assumes K: "kv_laws K" "serde_laws C" "kv_available K C" and m: "matching K C X cf G c" and old: "election_inv K C cf c"
    and i: "i \<in> cluster_ids cf" and req: "req \<in> cl_requests c" and op: "handle_vote_request K C now req (cl_node c i) = Some (n, r)"
  shows "matching K C X cf G (set_node i n c)"
  using matching_members(2) [OF m i] election_invD(6) [OF old req]
  by (intro matching_calm [OF m i] matching_node_step [OF K m i node_step.vote [OF op]])
    (auto simp: vote_request_sel [OF op] full_def rv_term rv_role split: if_splits)

lemma matching_step_down:
  assumes K: "kv_laws K" "serde_laws C" and m: "matching K C X cf G c" and i: "i \<in> cluster_ids cf"
    and t: "current_term (state_of c i) < t" "t \<le> u64_max" and op: "step_down K C t (cl_node c i) = Some n"
  shows "matching K C X cf G (set_node i n c)"
proof -
  have s: "rn_state n = become_follower t (state_of c i)"
    using persist_hard_state_sel(1) [OF op [unfolded step_down_def]] by simp
  show ?thesis
    using step_down_quiet [OF K op t(1)] matching_members [OF m i]
    by (intro matching_calm [OF m i] step_down_inv [OF K matching_members(1) [OF m i] op t(2)])
      (auto simp: quiet_def s full_def become_follower_def)
qed

lemma matching_entries:
  assumes X: "uuid_laws X" "chrono_laws X" and m: "matching K C X cf G c" and old: "election_inv K C cf c" and i: "i \<in> cluster_ids cf"
    and op: "(p, SendEntries req) \<in> set (replicate_to_peers X (cl_node c i))"
  shows "message_ok X G req"
proof -
  note mi = matchingD(1) [OF m i] and r = replicate_entries(1,2) [OF op]
  have "p \<in> set (peer_ids (rn_config (cl_node c i)))"
    using election_invD(1) [OF old i] r(2) by (auto simp: node_ok_def member_ok_def)
  then obtain next' where nx: "hm_get (next_index (state_of c i)) p = Some next'"
    using mi r(1) by (auto simp: member_matches_def leads_ok_def)
  have wf: "log_wf (state_of c i)" using mi by (simp add: member_matches_def node_inv_def)
  have "message_ok X G (append_request X (nc_node_id (rn_config (cl_node c i))) (state_of c i) next')"
    using mi by (intro append_request_message [OF X wf _ nx]) (simp_all add: member_matches_def)
  then show ?thesis using full_replicate [OF op matching_members(2) [OF m i] nx] by simp
qed

lemma matching_append:
  assumes K: "kv_laws K" "serde_laws C" "kv_available K C" and m: "matching K C X cf G c" and old: "election_inv K C cf c"
    and i: "i \<in> cluster_ids cf" and req: "(i, req) \<in> cl_appends c"
    and op: "handle_append_entries_node K C X now req (cl_node c i) = Some (n, ar)"
  shows "matching K C X cf G (set_node i n c)"
  using election_invD(7) [OF old req]
  by (intro matching_set_node [OF m member_append [OF K matchingD(1) [OF m i] op _ matchingD(3) [OF m req]]])
    (simp add: sent_ok_def)

lemma matching_append_ack:
  assumes K: "kv_laws K" "serde_laws C" "kv_available K C" and m: "matching K C X cf G c" and i: "i \<in> cluster_ids cf"
    and t: "aer_term ar \<le> u64_max" and op: "append_answer K C now p ar (cl_node c i) = Some n"
  shows "matching K C X cf G (set_node i n c)"
proof -
  note a = append_answer_calm [OF op]
  show ?thesis
    using append_answer_quiet [OF K(1,2) op] matching_members(2) [OF m i]
    by (intro matching_calm [OF m i _ _ a(1) matching_node_step [OF K m i node_step.append_ack [OF op t]] _ a(4)])
      (auto simp: quiet_def moves_def full_def a(2,3))
qed

lemma matching_deliver:
  assumes K: "kv_laws K" "serde_laws C" "kv_available K C" and m: "matching K C X cf G c" and i: "i \<in> cluster_ids cf"
    and op: "get_committed_entries (cl_node c i) = (n, es)"
  shows "matching K C X cf G (set_node i n c)"
  using get_committed_quiet [OF op, of K C] matching_members(2) [OF m i] op
  by (intro matching_calm [OF m i] matching_node_step [OF K m i node_step.deliver [OF op]])
    (auto simp: quiet_def moves_def full_def get_committed_entries_def committed_loop_result)

lemma matching_connect:
  assumes m: "matching K C X cf G c" and old: "election_inv K C cf c" and i: "i \<in> cluster_ids cf"
  shows "matching K C X cf G (set_node i (connect_to_peers dial has_tls (cl_node c i)) c)"
proof -
  have "member_ok cf i (cl_node c i)" using election_invD(1) [OF old i] by (simp add: node_ok_def)
  note k = connect_fold_keeps [OF this subset_refl, of dial has_tls, folded connect_to_peers_def]
  show ?thesis
    using k matching_members [OF m i]
    by (intro matching_calm [OF m i] node_inv_cong [OF matching_members(1) [OF m i]]) (simp_all add: connect_config)
qed

lemma matching_crash:
  assumes K: "kv_laws K" "kv_available K C" and m: "matching K C X cf G c" and i: "i \<in> cluster_ids cf"
    and op: "rn_storage (cl_node c i) = Some db" "restart K C (rn_config (cl_node c i)) now db = Some n"
  shows "matching K C X cf G (set_node i n c)"
proof -
  note r = restart_inv [OF K matching_members(1) [OF m i] op]
  have "role (rn_state n) = Follower" using op(2) by (auto simp: restart_def new_with_storage_def restored_follower)
  then have "member_matches K C X G (cl_leaders c) i n"
    using matchingD(1) [OF m i] r by (intro member_follower) (simp_all add: member_matches_def durable_def full_def log_of_def)
  from matching_set_node [OF m this] show ?thesis .
qed

text \<open>Every step keeps the invariant, with logs of the leaders that may have grown.\<close>

lemma matching_step:
  assumes "cluster_step K C X cf c c'" and K: "kv_laws K" "serde_laws C" "kv_available K C"
    and X: "uuid_laws X" "chrono_laws X" and m: "matching K C X cf G c"
    and old: "election_inv K C cf c" and new: "election_inv K C cf c'" and full: "uncompacted cf c'"
  shows "\<exists>G'. matching K C X cf G' c' \<and> grows G G'"
  using assms(1)
proof cases
  case (campaign i n req)
  with matching_campaign [OF K m old campaign(2-4)] show ?thesis by auto
next
  case (vote i req now n r)
  with matching_vote [OF K m old vote(2,3,5)] show ?thesis by auto
next
  case (count i req P n)
  show ?thesis unfolding count(1)
    using matching_count [OF K m count(2,7) refl old new [unfolded count(1)]] by blast
next
  case (higher_term i t n)
  with matching_step_down [OF K(1,2) m higher_term(2-5)] show ?thesis by auto
next
  case (heartbeat i mm)
  then have "message_ok X G (snd mm)"
    by (auto simp: heartbeat_round_def heartbeat_request_def message_ok_def split: if_splits)
  from matching_send [OF m this] show ?thesis unfolding heartbeat(1) by blast
next
  case (send_entries i p req)
  have "message_ok X G (snd (p, req))" using matching_entries [OF X m old send_entries(2,3)] by simp
  from matching_send [OF m this] show ?thesis unfolding send_entries(1) by blast
next
  case (send_snapshot i p req)
  with matching_members(2) [OF m send_snapshot(2)] show ?thesis
    by (auto simp: replicate_to_peers_def replicate_to_peer_def full_def Let_def split: if_splits)
next
  case (append i req now n ar)
  with matching_append [OF K m old append(2-4)] show ?thesis by auto
next
  case (install i req now n sr)
  with matchingD(4) [OF m] show ?thesis by simp
next
  case (append_ack i ar now p n)
  with matching_append_ack [OF K m append_ack(2-4)] show ?thesis by auto
next
  case (snapshot_ack i sr now p idx n)
  note a = snapshot_answer_calm [OF snapshot_ack(4)]
  show ?thesis unfolding snapshot_ack(1)
    using snapshot_answer_quiet [OF K(1,2) snapshot_ack(4)] matching_members(2) [OF m snapshot_ack(2)]
    by (intro exI [of _ G] conjI grows_refl matching_calm [OF m snapshot_ack(2) _ _ a(1) matching_node_step [OF K m snapshot_ack(2) node_step.snapshot_ack [OF snapshot_ack(4,3)]] _ a(4)])
      (auto simp: quiet_def moves_def full_def a(2,3))
next
  case (propose i cmd n res)
  have f: "full (rn_state n)" using full propose(2) unfolding propose(1) by (auto simp: uncompacted_def)
  show ?thesis unfolding propose(1)
    using matching_propose [OF K X(2) m propose(2-4) new [unfolded propose(1)] f] by blast
next
  case (deliver i n es)
  with matching_deliver [OF K m deliver(2,3)] show ?thesis by auto
next
  case (compact i sn n)
  have "n = cl_node c i"
    using full compact(1,2) matching_members(2) [OF m compact(2)]
    by (intro full_compaction [OF compact(3)]) (auto simp: uncompacted_def)
  then have "set_node i n c = c" by (simp add: set_node_def)
  with m show ?thesis unfolding compact(1) by auto
next
  case (touch i n)
  then have "matching K C X cf G (set_node i n c)"
    using matching_members [OF m touch(2)]
    by (intro matching_calm [OF m touch(2)] node_inv_cong [OF matching_members(1) [OF m touch(2)]]) (simp_all add: same_core_def)
  then show ?thesis unfolding touch(1) by auto
next
  case (connect i n dial has_tls)
  with matching_connect [OF m old connect(2)] show ?thesis by auto
next
  case (crash i db now n)
  with matching_crash [OF K(1,3) m crash(2-4)] show ?thesis by auto
qed

lemma matching_initial:
  assumes "initial K cf c"
  shows "matching K C X cf (\<lambda>t. []) c"
proof -
  have r: "role raft_new = Follower" "rlog raft_new = []" "full raft_new" "current_term raft_new = 0"
    by (simp_all add: raft_new_def full_def)
  have "member_matches K C X (\<lambda>t. []) (cl_leaders c) i (cl_node c i)" if "i \<in> cluster_ids cf" for i
  proof -
    have "state_of c i = raft_new" and "rn_storage (cl_node c i) = Some db \<Longrightarrow> contents K db k = None" for db k
      using assms that by (auto simp: initial_def)
    then show ?thesis
      by (auto simp: member_matches_def leads_ok_def node_inv_def recoverable_def log_of_def log_wf_new r split: option.split)
  qed
  with assms show ?thesis by (simp add: matching_def initial_def)
qed

lemma matching_reachable:
  assumes "reachable_full K C X cf c" and K: "kv_laws K" "serde_laws C" "kv_available K C" and X: "uuid_laws X" "chrono_laws X"
  shows "\<exists>G. matching K C X cf G c"
  using assms(1)
proof (induction rule: reachable_full.induct)
  case (start c)
  from matching_initial [OF this] show ?case by blast
next
  case (step c c')
  then obtain G where m: "matching K C X cf G c" by blast
  have inv: "election_inv K C cf c" by (rule inv_reachable [OF reachable_full_reachable [OF step(1)] K(1,2)])
  from matching_step [OF step(2) K X m inv inv_step [OF step(2) inv K(1,2)] step(3)] show ?case by blast
qed

lemma matching_follows: "matching K C X cf G c \<Longrightarrow> i \<in> cluster_ids cf \<Longrightarrow> follows G (log_of X (state_of c i))"
  by (simp add: matching_def member_matches_def)

lemma matching_get:
  assumes "matching K C X cf G c" and "i \<in> cluster_ids cf"
  shows "map_option (norm_entry X) (get_entry (state_of c i) k) =
    (if 0 < k \<and> k \<le> length (log_of X (state_of c i)) then Some (log_of X (state_of c i) ! (k - 1)) else None)"
proof -
  have wf: "log_wf (state_of c i)" and off: "log_offset (state_of c i) = 0"
    using matchingD(1) [OF assms] by (simp_all add: member_matches_def node_inv_def full_def)
  show ?thesis using off by (auto simp: get_entry_cases [OF wf] log_of_def log_wf_last_index [OF wf])
qed

text \<open>Two nodes whose entries at an index have the same term have the same log up to it.\<close>

lemma matching_prefix:
  assumes m: "matching K C X cf G c" and ids: "i \<in> cluster_ids cf" "j \<in> cluster_ids cf"
    and e: "get_entry (state_of c i) k = Some e" "get_entry (state_of c j) k = Some f" "le_term e = le_term f"
  shows "take k (log_of X (state_of c i)) = take k (log_of X (state_of c j))"
    and "k \<le> length (log_of X (state_of c i))" and "k \<le> length (log_of X (state_of c j))"
proof -
  have ki: "0 < k" "k \<le> length (log_of X (state_of c i))" "log_of X (state_of c i) ! (k - 1) = norm_entry X e"
    and kj: "k \<le> length (log_of X (state_of c j))" "log_of X (state_of c j) ! (k - 1) = norm_entry X f"
    using matching_get [OF m ids(1), of k] matching_get [OF m ids(2), of k] e(1,2) by (auto split: if_splits)
  show "take k (log_of X (state_of c i)) = take k (log_of X (state_of c j))"
    using follows_agree [OF matching_follows [OF m ids(1)] matching_follows [OF m ids(2)], of "k - 1"] ki kj e(3)
    by (simp add: norm_entry_def)
  show "k \<le> length (log_of X (state_of c i))" "k \<le> length (log_of X (state_of c j))" by (rule ki(2) kj(1))+
qed

text \<open>A run in which the entry of the leader reaches a follower.\<close>

lemma noop_replicated:
  "\<exists>c. reachable_full kv_mem serde_unary ext_unary (trio_config 1) c \<and>
     get_entry (state_of c 1) 1 = Some (noop_entry 1 1) \<and> get_entry (state_of c 2) 1 = Some (noop_entry 1 1)"
proof -
  let ?h = "handle_append_entries ext_unary noop_append (state_of trio_logged 2)"
  obtain n where h: "handle_append_entries_node kv_mem serde_unary ext_unary 0 noop_append (cl_node trio_logged 2) = Some (n, snd ?h)"
    and n: "rn_state n = fst ?h"
    using append_in_memory [of "cl_node trio_logged 2" kv_mem serde_unary ext_unary 0 noop_append] trio_logged_storage by metis
  let ?c = "received 2 noop_append n trio_logged"
  have "reachable_full kv_mem serde_unary ext_unary (trio_config 1) ?c"
    by (rule reachable_full_star [OF received_run [OF _ _ _ h, of 1] trio_logged_full]) (use noop_append_sent in auto)
  moreover have "get_entry (state_of ?c 1) 1 = Some (noop_entry 1 1)" "get_entry (state_of ?c 2) 1 = Some (noop_entry 1 1)"
    using noop_append_accepted by (simp_all add: n)
  ultimately show ?thesis by blast
qed

end
