(* ===== verification/Consensus.thy ===== *)
theory Consensus
  imports Log_Matching
begin

text \<open>
  The properties of the Raft layer (\<open>src/raft\<close>): elections, replication, commitment and durability, each
  with a concrete instance.
\<close>

section \<open>Elections\<close>



text \<open>C8: Leader Append-Only. As long as a node leads in a term, no step of the cluster removes or replaces an
  entry of its log; an entry only ever leaves the log by being compacted.\<close>

theorem leader_append_only:
  assumes "kv_laws K" and "serde_laws C" and "reachable K C X cf c" and "cluster_step K C X cf c c'"
    and "role (state_of c i) = Leader" and "role (state_of c' i) = Leader"
    and "current_term (state_of c' i) = current_term (state_of c i)"
    and "get_entry (state_of c i) k = Some e"
  shows "get_entry (state_of c' i) k = Some e \<or> k \<le> log_offset (state_of c' i)"
  using leader_step [OF assms(4) inv_reachable [OF assms(3,1,2)] assms(1,2,5-7)] assms(8)
  by (simp add: log_keeps_def)

theorem leader_append_only_witness:
  "reachable kv_mem serde_unary ext_unary (trio_config 1) trio_logged \<and>
   get_entry (state_of trio_logged 1) 1 = Some (noop_entry 1 1) \<and>
   get_entry (state_of (proposed 1 Noop trio_logged) 1) 1 = Some (noop_entry 1 1)"
proof -
  let ?c = trio_logged
  note l = trio_leader [simplified]
  have s: "role (state_of ?c 1) = Leader" "rn_storage (cl_node ?c 1) = None" "log_offset (state_of ?c 1) = 0"
    "rlog (state_of ?c 1) = [noop_entry 1 1]"
    using l by (simp_all add: trio_logged_def append_entry_def noop_entry_def last_log_index_def u64_inc_def Let_def)
  have e: "get_entry (state_of ?c 1) 1 = Some (noop_entry 1 1)" using s by (simp add: get_entry_def)
  have st: "cluster_step kv_mem serde_unary ext_unary (trio_config 1) ?c (proposed 1 Noop ?c)"
    by (rule proposed_run) (use s in \<open>simp_all add: last_log_index_def u64_max_def\<close>)
  have "get_entry (state_of (proposed 1 Noop ?c) 1) 1 = Some (noop_entry 1 1) \<or>
      1 \<le> log_offset (state_of (proposed 1 Noop ?c) 1)"
    by (rule leader_append_only [OF kv_mem_laws serde_unary_laws trio_logged_reachable st _ _ _ e])
      (use s in \<open>simp_all add: append_entry_def Let_def\<close>)
  moreover have "log_offset (state_of (proposed 1 Noop ?c) 1) = 0" using s by (simp add: append_entry_def Let_def)
  ultimately show ?thesis using trio_logged_reachable e by simp
qed

text \<open>C25: A candidate whose peers answer in no higher term, and of which a majority grants its vote, leaves the
  election as leader of the next term: elections that can succeed do.\<close>

theorem election_won:
  assumes "kv_available K C" and "distinct (peers n)" and "current_term (rn_state n) < u64_max"
    and "\<And>p r. p \<in> set (peers n) \<Longrightarrow> ask p (own_request n) = Some r \<Longrightarrow> vres_term r \<le> vr_term (own_request n)"
    and "majority_of n \<le> Suc (card {p \<in> set (peers n). \<exists>r. ask p (own_request n) = Some r \<and> vote_granted r})"
  shows "\<exists>n'. start_election K C ask now n = Some n' \<and> role (rn_state n') = Leader \<and>
    current_term (rn_state n') = Suc (current_term (rn_state n))"
proof (rule start_election_wins [OF assms(1-4)])
  have "voters ask (own_request n) (peers n) = {p \<in> set (peers n). \<exists>r. ask p (own_request n) = Some r \<and> vote_granted r}"
    using assms(4) by (auto simp: voters_def)
  with assms(5) show "majority_of n \<le> Suc (card (voters ask (own_request n) (peers n)))" by simp
qed

theorem election_won_witness:
  "\<exists>n'. start_election kv_mem serde_unary (\<lambda>p req. if p = 2 then Some \<lparr>vres_term = 1, vote_granted = True\<rparr> else None) 0
      (cl_node trio 1) = Some n' \<and> role (rn_state n') = Leader \<and> current_term (rn_state n') = 1"
proof -
  let ?ask = "\<lambda>p req. if p = 2 then Some \<lparr>vres_term = 1, vote_granted = True\<rparr> else None"
  have v: "{p \<in> set (peers (cl_node trio 1)). \<exists>r. ?ask p (own_request (cl_node trio 1)) = Some r \<and> vote_granted r} = {2}"
    by auto
  have o: "vr_term (own_request (cl_node trio 1)) = 1" "majority_of (cl_node trio 1) = 2"
    by (simp_all add: own_request_def become_candidate_def raft_new_def u64_inc_def majority_of_def trio_config_def Let_def)
  have "\<exists>n'. start_election kv_mem serde_unary ?ask 0 (cl_node trio 1) = Some n' \<and> role (rn_state n') = Leader \<and>
      current_term (rn_state n') = Suc (current_term (state_of trio 1))"
    by (rule election_won [OF kv_mem_available], unfold v o)
      (auto simp: raft_new_def u64_max_def split: if_splits)
  then show ?thesis by (simp add: raft_new_def)
qed

text \<open>A vote is granted exactly if the term is not old, the node has not voted for another candidate in
  that term, and the candidate's log is at least as up to date as its own; the vote is then in the new
  state, and it is the only thing a node votes for in that term.\<close>

theorem vote_granted_iff:
  "(vote_granted (snd (handle_request_vote req s)) \<longleftrightarrow>
     (current_term s < vr_term req \<or>
      current_term s = vr_term req \<and> voted_for s \<in> {None, Some (vr_candidate_id req)}) \<and>
     (last_log_term s < vr_last_log_term req \<or>
      last_log_term s = vr_last_log_term req \<and> last_log_index s \<le> vr_last_log_index req)) \<and>
   voted_for (fst (handle_request_vote req s)) =
     (if vote_granted (snd (handle_request_vote req s)) then Some (vr_candidate_id req)
      else if current_term s < vr_term req then None else voted_for s)"
  by (auto simp: handle_request_vote_def Let_def become_follower_def is_log_up_to_date_def
      last_log_index_def last_log_term_def)

section \<open>Replication\<close>

text \<open>When a follower accepts what a leader sends it, the follower's log is the leader's from that position
  on (as far as the wire format keeps an entry) and what it was before it, the entry before the position has
  the term the leader has there, and the follower reports the leader's last index.\<close>

theorem accepted_entries_replicate:
  assumes "uuid_laws X" and "log_wf s" and "log_offset s < u64_max" and "hm_get (next_index s) p = Some next"
    and "Suc (log_offset s) < next" and "next \<le> last_log_index s" and "log_wf f" and "log_offset f < next - 1"
    and "handle_append_entries X (append_request X me s next) f = (f', r)" and "aer_success r"
  shows "(\<forall>k. get_entry f' k = (if k < next then get_entry f k else map_option (norm_entry X) (get_entry s k))) \<and>
    map_option le_term (get_entry f (next - 1)) = map_option le_term (get_entry s (next - 1)) \<and>
    aer_match_index r = last_log_index s"
proof -
  let ?req = "append_request X me s next"
  have lo: "log_offset s < next" and hi: "next \<le> Suc (last_log_index s)" and f: "log_offset f \<le> next - 1"
    and succ: "aer_success (snd (handle_append_entries X ?req f))"
    using assms(5,6,8-10) by simp_all
  note rep = replicated [OF assms(1-4) lo assms(6,7) f succ]
  note prev = append_request_prev(1,2) [OF assms(2-4) lo hi, of X me]
  obtain e where e: "get_entry s (next - 1) = Some e" "ae_prev_log_term ?req = le_term e"
    using prev(2) less_diff_conv [of "log_offset s" "next" 1] assms(5) by auto
  obtain e' where "get_entry f (next - 1) = Some e'" "le_term e' = ae_prev_log_term ?req"
    using hae_prev_match [OF succ] assms(8) prev(1) by auto
  with e rep assms(9) show ?thesis by (auto simp: not_less)
qed

definition ahead :: raft_state where
  "ahead = (noop_state 1 0 [noop_entry 1 1, noop_entry 1 2])\<lparr>role := Leader, next_index := [(2, 2)]\<rparr>"

theorem accepted_entries_replicate_witness:
  "\<exists>f' r. handle_append_entries ext_unary (append_request ext_unary 1 ahead 2) (noop_state 1 0 [noop_entry 1 1]) = (f', r) \<and>
     aer_success r \<and> get_entry f' 2 = map_option (norm_entry ext_unary) (get_entry ahead 2) \<and> aer_match_index r = 2"
proof -
  let ?f = "noop_state 1 0 [noop_entry 1 1]"
  let ?h = "handle_append_entries ext_unary (append_request ext_unary 1 ahead 2) ?f"
  have p: "append_request ext_unary 1 ahead 2 = noop_request 1 1 1 1 0 [noop_entry 1 2]"
    by (simp add: append_request_def ahead_def noop_state_def noop_request_def raft_new_def entries_start_def
        hm_values_def get_entries_from_def last_log_index_def prev_term_of_def u64_inc_def Let_def)
  have ok: "aer_success (snd ?h)" unfolding p by (simp add: noop_defs handler_defs)
  have wf: "log_wf ahead" "log_wf ?f" "last_log_index ahead = 2"
    by (simp_all add: ahead_def noop_state_def raft_new_def log_wf_def indexed_from_def last_log_index_def u64_max_def)
  have "(\<forall>k. get_entry (fst ?h) k = (if k < 2 then get_entry ?f k else map_option (norm_entry ext_unary) (get_entry ahead k))) \<and>
      map_option le_term (get_entry ?f (2 - 1)) = map_option le_term (get_entry ahead (2 - 1)) \<and>
      aer_match_index (snd ?h) = last_log_index ahead"
    by (rule accepted_entries_replicate [OF ext_unary_laws(1), of ahead 2 2 ?f 1])
      (use wf ok in \<open>simp_all add: ahead_def noop_state_def raft_new_def u64_max_def hm_get_def\<close>)
  with ok wf(3) show ?thesis by (cases ?h) auto
qed



text \<open>C7: When an answer moves a leader's commit index, it moves forward, to an entry of the leader's own term,
  and at least half of the cluster, in a cluster of odd size a majority, is known to hold the log up to that
  entry.\<close>

theorem commit_needs_quorum:
  assumes "append_answer K C now p r n = Some n'" and "config_wf (rn_config n)" and "peers_tracked n"
    and "p \<in> set (peer_ids (rn_config n))" and "commit_index (rn_state n') \<noteq> commit_index (rn_state n)"
  shows "commit_index (rn_state n) < commit_index (rn_state n') \<and>
    (\<exists>e. get_entry (rn_state n') (commit_index (rn_state n')) = Some e \<and> le_term e = current_term (rn_state n')) \<and>
    holders (nc_node_id (rn_config n)) (rn_state n') (commit_index (rn_state n')) \<subseteq> cluster_ids (rn_config n) \<and>
    card (cluster_ids (rn_config n)) \<le> 2 * card (holders (nc_node_id (rn_config n)) (rn_state n') (commit_index (rn_state n'))) \<and>
    (even (card (cluster_ids (rn_config n))) \<or>
     is_quorum (rn_config n) (holders (nc_node_id (rn_config n)) (rn_state n') (commit_index (rn_state n'))))"
  by (rule answer_commits [OF assms])

theorem commit_needs_quorum_witness:
  "\<exists>n'. append_answer kv_mem serde_unary 0 2 \<lparr>aer_term = 1, aer_success = True, aer_match_index = 1\<rparr> (cl_node trio_logged 1) = Some n' \<and>
     commit_index (rn_state n') = 1 \<and> is_quorum (trio_config 1) (holders 1 (rn_state n') 1)"
proof -
  let ?n = "cl_node trio_logged 1" and ?r = "\<lparr>aer_term = 1, aer_success = True, aer_match_index = 1\<rparr>"
  have s: "role (rn_state ?n) = Leader" "current_term (rn_state ?n) = 1" "commit_index (rn_state ?n) = 0"
    "rlog (rn_state ?n) = [noop_entry 1 1]" "log_offset (rn_state ?n) = 0" "match_index (rn_state ?n) = [(2, 0), (3, 0)]"
    "rn_config ?n = trio_config 1"
    by (simp_all add: trio_logged_def trio_led_def append_entry_def become_leader_def become_candidate_def raft_new_def
        noop_entry_def last_log_index_def u64_inc_def init_peers_def hm_insert_def hm_empty_def Let_def)
  have t: "config_wf (trio_config 1)" "peers_tracked ?n" "card (cluster_ids (trio_config 1)) = 3"
    using s by (auto simp: config_wf_def peers_tracked_def hm_wf_def hm_get_def)
  obtain n' where a: "append_answer kv_mem serde_unary 0 2 ?r ?n = Some n'" and c: "commit_index (rn_state n') = 1"
    using s by (auto simp: append_answer_def saw_peer_def advance_commit_def majority_match_def hm_insert_def
        hm_values_def last_log_index_def get_entry_def Let_def)
  from commit_needs_quorum [OF a] s t c show ?thesis using a by auto
qed

text \<open>A request never takes a follower's commit index past the leader's, nor past the end of the follower's
  log, and it takes it back only if it cut the log below it.\<close>

theorem follower_commit_bounds:
  assumes "commit_index s \<le> last_log_index (fst (handle_append_entries X req s))"
  shows "commit_index s \<le> commit_index (fst (handle_append_entries X req s)) \<and>
    commit_index (fst (handle_append_entries X req s)) \<le>
      max (commit_index s) (min (ae_leader_commit req) (last_log_index (fst (handle_append_entries X req s))))"
  using assms hae_commit [of X req s] hae_failure(4) [of X req s]
  by (cases "aer_success (snd (handle_append_entries X req s))") auto

theorem follower_commit_bounds_witness:
  "let s' = fst (handle_append_entries ext_unary (noop_request 1 2 1 1 5 [noop_entry 1 2]) (noop_state 1 1 [noop_entry 1 1]))
   in last_log_index s' = 2 \<and> 1 \<le> commit_index s' \<and> commit_index s' \<le> 2"
proof -
  let ?s = "noop_state 1 1 [noop_entry 1 1]" and ?req = "noop_request 1 2 1 1 5 [noop_entry 1 2]"
  have "last_log_index (fst (handle_append_entries ext_unary ?req ?s)) = 2" "commit_index ?s = 1" "ae_leader_commit ?req = 5"
    by (simp_all add: noop_defs handler_defs)
  with follower_commit_bounds [of ?s ext_unary ?req] show ?thesis by (simp add: Let_def)
qed

section \<open>Durability\<close>



text \<open>The storage layer on its own: after any sequence of its writes, of a kind a node makes, on an empty
  database, loading gives the fields the sequence leaves.\<close>

theorem reload_after_operations:
  assumes "kv_laws K" and "serde_laws C" and "kv_available K C"
    and "\<And>k. contents K db k = None" and "t \<le> u64_max" and "ops_ok (first_state t v) ops"
  shows "\<exists>db'. storage_run K C (OpHard t v 0 # ops) db = Some db' \<and>
    load_state K C db' = Some (Some (foldl apply_op (first_state t v) ops))"
  by (rule storage_run_fresh [OF assms])

theorem reload_after_operations_witness:
  "\<exists>db'. storage_run kv_mem serde_unary (OpHard 2 (Some 1) 0 #
        [OpAppend (noop_entry 1 1), OpAppend (noop_entry 2 2), OpTruncate 2, OpAppend (noop_entry 2 2),
         OpSnapshot \<lparr>last_included_index = 1, last_included_term = 1, sn_jobs = [], sn_workers = []\<rparr> 1]) fmempty = Some db' \<and>
    load_state kv_mem serde_unary db' =
      Some (Some \<lparr>ps_current_term = 2, ps_voted_for = Some 1, ps_log_offset = 1,
        ps_snapshot = Some \<lparr>last_included_index = 1, last_included_term = 1, sn_jobs = [], sn_workers = []\<rparr>,
        ps_log = [noop_entry 2 2]\<rparr>)"
  using reload_after_operations [OF kv_mem_laws serde_unary_laws kv_mem_available, of fmempty 2 "Some 1"
      "[OpAppend (noop_entry 1 1), OpAppend (noop_entry 2 2), OpTruncate 2, OpAppend (noop_entry 2 2),
        OpSnapshot \<lparr>last_included_index = 1, last_included_term = 1, sn_jobs = [], sn_workers = []\<rparr> 1]"]
  by (simp add: kv_mem_fresh first_state_def u64_max_def)

section \<open>Timers and transfers\<close>

text \<open>A follower that has accepted a leader's request does not campaign before its election timeout is
  over: until then a turn of the timer leaves the node alone.\<close>

theorem heartbeat_prevents_election:
  assumes "handle_append_entries_node K C X now req n = Some (n', r)" and "aer_success r"
    and "now \<le> te_now E" and "te_now E < now + t * ns_per_ms" and "on_election_timer K C E \<lparr>rl_node = n', rl_timeout = t\<rparr> = Some l"
  shows "rl_node l = n'"
proof -
  have "te_now E - last_heartbeat n' < t * ns_per_ms"
    using accepted_resets_timer [OF assms(1,2)] assms(3,4) by linarith
  with election_timer_quiet [of E "\<lparr>rl_node = n', rl_timeout = t\<rparr>" K C l] assms(5) show ?thesis by simp
qed

definition calm_env :: "instant \<Rightarrow> (bytes, bytes) fmap turn_env" where
  "calm_env now = \<lparr>te_now = now, te_draw = (\<lambda>a b. a), te_ask = (\<lambda>p r. None), te_call = (\<lambda>p r. RpcTimeout), te_turns = [],
     te_at_end = cl_node trio 2\<rparr>"

theorem heartbeat_prevents_election_witness:
  "\<exists>n' l. handle_append_entries_node kv_mem serde_unary ext_unary 5 (noop_request 1 1 0 0 0 []) (cl_node trio 2) =
       Some (n', \<lparr>aer_term = 1, aer_success = True, aer_match_index = 0\<rparr>) \<and>
     on_election_timer kv_mem serde_unary (calm_env 100) \<lparr>rl_node = n', rl_timeout = 150\<rparr> = Some l \<and> rl_node l = n'"
proof -
  let ?r = "\<lparr>aer_term = 1, aer_success = True, aer_match_index = 0\<rparr>"
  obtain n' where h: "handle_append_entries_node kv_mem serde_unary ext_unary 5 (noop_request 1 1 0 0 0 []) (cl_node trio 2) = Some (n', ?r)"
    by (simp add: handle_append_entries_node_def persist_hard_state_def with_storage_def noop_defs handler_defs)
  have c: "rn_config n' = trio_config 2" "last_heartbeat n' = 5"
    using append_entries_node_sel(2) [OF h] accepted_resets_timer [OF h] by simp_all
  then obtain l where l: "on_election_timer kv_mem serde_unary (calm_env 100) \<lparr>rl_node = n', rl_timeout = 150\<rparr> = Some l"
    by (auto simp: on_election_timer_def calm_env_def new_timeout_def random_election_timeout_def trio_config_def
        config_default_def Let_def)
  from heartbeat_prevents_election [OF h _ _ _ l] h l show ?thesis by (auto simp: calm_env_def)
qed

text \<open>A leadership transfer ends: once a turn of its wait finds the deadline passed, two seconds after the
  start, the handler has an answer; and a successful one names a peer that had caught up with the leader's
  log, and leaves the node a follower.\<close>

theorem transfer_ends:
  assumes "kv_available K C" and "(now, m) \<in> set turns" and "start + 2000 * ns_per_ms \<le> now"
  shows "\<exists>n' res. handle_transfer_leadership K C call target_id start turns at_end n = Some (n', res) \<and>
    (\<forall>target. res = Inr target \<longrightarrow> role (rn_state n) = Leader \<and> role (rn_state n') = Follower \<and>
      (\<exists>now m. (now, m) \<in> set turns \<and> caught_up target (last_log_index (rn_state n)) m))"
proof -
  have sd: "\<exists>n'. step_down K C t at_end = Some n'" for t
    unfolding step_down_def by (rule persist_hard_state_returns [OF assms(1)])
  have ft: "finish_transfer K C target t sent at_end \<noteq> None" for target t sent
    using sd [of t] by (auto simp: finish_transfer_def split: sum.splits)
  have "handle_transfer_leadership K C call target_id start turns at_end n \<noteq> None"
  proof (cases "pick_target target_id n")
    case (Inr target)
    from transfer_poll_ends [OF assms(2,3), of target "last_log_index (rn_state n)"] obtain w where
      "transfer_poll target (last_log_index (rn_state n)) (start + 2000 * ns_per_ms) turns = Some w" by blast
    with Inr ft show ?thesis by (cases w) (simp_all add: handle_transfer_leadership_def Let_def)
  qed (simp add: handle_transfer_leadership_def)
  then obtain n' res where h: "handle_transfer_leadership K C call target_id start turns at_end n = Some (n', res)" by auto
  have "role (rn_state n) = Leader \<and> role (rn_state n') = Follower \<and>
      (\<exists>now m. (now, m) \<in> set turns \<and> caught_up target (last_log_index (rn_state n)) m)" if "res = Inr target" for target
    using transfer_result(1,3,4) [OF h [unfolded that]] by blast
  with h show ?thesis by blast
qed

theorem transfer_ends_witness:
  "\<exists>n' res. handle_transfer_leadership kv_mem serde_unary (\<lambda>p r. RpcTimeout) (Some 2) 0 [(2000 * ns_per_ms, cl_node trio_logged 1)]
     (cl_node trio_logged 1) (cl_node trio_logged 1) = Some (n', res)"
  using transfer_ends [OF kv_mem_available, of "2000 * ns_per_ms" "cl_node trio_logged 1" "[(2000 * ns_per_ms, cl_node trio_logged 1)]" 0
      "\<lambda>p r. RpcTimeout" "Some 2" "cl_node trio_logged 1" "cl_node trio_logged 1"] by auto

text \<open>C28: Where Election Safety ends. The step down at the end of a leadership transfer is not among the steps
  of the relation: with it, a cluster of three nodes gets two leaders in the same term.\<close>

theorem transfer_elects_two_leaders:
  "\<exists>c n c'. reachable kv_mem serde_unary ext_unary (trio_config 1) c \<and>
     role (state_of c 2) = Leader \<and> current_term (state_of c 2) = 2 \<and> voted_for (state_of c 1) = Some 2 \<and>
     finish_transfer kv_mem serde_unary 2 1 (Inr ()) (cl_node c 1) = Some (n, Inr 2) \<and>
     (cluster_step kv_mem serde_unary ext_unary (trio_config 1))\<^sup>*\<^sup>* (set_node 1 n c) c' \<and>
     role (state_of c' 2) = Leader \<and> role (state_of c' 3) = Leader \<and>
     current_term (state_of c' 2) = 2 \<and> current_term (state_of c' 3) = 2"
proof (intro exI conjI)
  show "(cluster_step kv_mem serde_unary ext_unary (trio_config 1))\<^sup>*\<^sup>* (set_node 1 stepped_down transferred) (elected 3 1 campaigning)"
    by (rule converse_rtranclp_into_rtranclp [OF campaigning_step second_election])
qed (rule transferred_reachable finish_transfer_run two_leaders | simp add: run_defs)+

text \<open>C29: Where State Machine Safety ends. Heartbeats carry the leader's commit index without a position to check,
  so a node commits whatever it has at those indices: a cluster of three nodes reaches a state in which two
  nodes have committed, and hand to their schedulers, different commands at the same index.\<close>

theorem heartbeats_commit_different_entries:
  "\<exists>c e f. reachable kv_mem serde_unary ext_unary (trio_config 1) c \<and>
     commit_index (state_of c 1) = 1 \<and> get_entry (state_of c 1) 1 = Some e \<and> snd (get_committed_entries (cl_node c 1)) = [e] \<and>
     commit_index (state_of c 2) = 1 \<and> get_entry (state_of c 2) 1 = Some f \<and> snd (get_committed_entries (cl_node c 2)) = [f] \<and>
     le_command e \<noteq> le_command f"
proof -
  obtain c where c: "reachable_full kv_mem serde_unary ext_unary (trio_config 1) c" "cl_node c 1 = cl_node rival 1"
      "rn_config (cl_node c 2) = trio_config 2" "heartbeat_peers (cl_node c 2) = [1, 3]"
    and two: "state_of c 2 = (state_of rival 2)\<lparr>match_index := [(1, 0), (3, 1)], next_index := [(1, 1), (3, 2)], commit_index := 1\<rparr>"
    by (rule rival_committed)
  let ?req = "heartbeat_request 2 (state_of c 2)" and ?s = "state_of rival 1"
  note one = rival_one [simplified] and t = rival_two [simplified]
  obtain n where h: "handle_append_entries_node kv_mem serde_unary ext_unary 0 ?req (cl_node c 1) =
      Some (n, snd (handle_append_entries ext_unary ?req ?s))"
    and n: "rn_state n = fst (handle_append_entries ext_unary ?req ?s)"
    using append_in_memory [of "cl_node c 1" kv_mem serde_unary ext_unary 0 ?req] rival_nodes(1) [of 1] unfolding c(2) by metis
  let ?c = "received 1 ?req n c"
  have r: "reachable kv_mem serde_unary ext_unary (trio_config 1) ?c"
    by (rule reachable_full_reachable [OF reachable_full_star [OF received_run [OF _ _ _ h, of 2] c(1)]])
      (simp_all add: heartbeat_round_def c(3,4) two t)
  have s: "commit_index (rn_state n) = 1" "rlog (rn_state n) = [noop_entry 1 1]" "log_offset (rn_state n) = 0" "last_applied (rn_state n) = 0"
    by (simp_all add: n heartbeat_request_def two t one handler_defs)
  have "get_entry (rn_state n) 1 = Some (noop_entry 1 1)" "snd (get_committed_entries n) = [noop_entry 1 1]"
    using s by (simp_all add: get_entry_def get_committed_entries_def committed_loop.simps split_beta)
  moreover have "get_entry (state_of c 2) 1 = Some \<lparr>le_term = 2, le_index = 1, le_command = RegisterWorker 2\<rparr>"
    "snd (get_committed_entries (cl_node c 2)) = [\<lparr>le_term = 2, le_index = 1, le_command = RegisterWorker 2\<rparr>]"
    by (simp_all add: two t get_entry_def get_committed_entries_def committed_loop.simps split_beta)
  ultimately show ?thesis using r s(1)
    by (intro exI [of _ ?c] exI [of _ "noop_entry 1 1"] exI [of _ "\<lparr>le_term = 2, le_index = 1, le_command = RegisterWorker 2\<rparr>"])
      (simp add: two noop_entry_def)
qed

end
