(* ===== verification/Committed.thy ===== *)
theory Committed
  imports Log_Matching "HOL-Library.Sublist"
begin

text \<open>
  State Machine Safety and Leader Completeness of \<open>src/raft/node.rs\<close>. The code keeps them only in some runs, so the
  runs of a cluster are taken with the answers that its nodes really gave, and what has to be avoided is said of
  the delivery of requests (\<open>deliverable\<close>) and answers (\<open>countable_answer\<close>). The proof keeps, beside the logs of the
  leaders, the log each of them was elected with.
\<close>

section \<open>Runs with real answers\<close>

type_synonym answers = "(node_id \<times> append_entries_request \<times> append_entries_response) set"

text \<open>The index up to which a request, once accepted, makes the log of its receiver that of the leader.\<close>

definition established :: "ext \<Rightarrow> append_entries_request \<Rightarrow> u64" where
  "established X req = ae_prev_log_index req + length (new_entries X req)"

text \<open>Node \<open>p\<close> has accepted a request of the leader of term \<open>t\<close> that reaches index \<open>k\<close>.\<close>

definition acked :: "ext \<Rightarrow> answers \<Rightarrow> node_id \<Rightarrow> u64 \<Rightarrow> u64 \<Rightarrow> bool" where
  "acked X A p t k \<longleftrightarrow>
     (\<exists>req r. (p, req, r) \<in> A \<and> aer_success r \<and> ae_term req = t \<and> k \<le> established X req)"

text \<open>
  A request is deliverable if it is not an older copy of one that reached further, and if the commit index it
  carries is one up to which the receiver has, by this or an earlier request, the log of the leader.
\<close>

definition deliverable :: "ext \<Rightarrow> answers \<Rightarrow> node_id \<Rightarrow> raft_state \<Rightarrow> append_entries_request \<Rightarrow> bool" where
  "deliverable X A p s req \<longleftrightarrow>
     (ae_entries req \<noteq> [] \<longrightarrow> (\<forall>k. acked X A p (ae_term req) k \<longrightarrow> k \<le> established X req)) \<and>
     (ae_leader_commit req \<le> commit_index s \<or> ae_leader_commit req \<le> established X req \<or>
      acked X A p (ae_term req) (ae_leader_commit req))"

text \<open>
  An answer may be counted if it is one to a request of the current term, and claims no more than that request
  established.
\<close>

definition countable_answer :: "ext \<Rightarrow> raft_state \<Rightarrow> append_entries_request \<Rightarrow> append_entries_response \<Rightarrow> bool" where
  "countable_answer X s req r \<longleftrightarrow>
     (aer_success r \<longrightarrow> ae_term req = current_term s \<and> aer_match_index r \<le> established X req)"

text \<open>
  The steps of a cluster that never compacts, with the set of answers given so far. Where \<open>careful\<close> is set, requests
  and answers are delivered only as above.
\<close>

inductive run_step ::
  "bool \<Rightarrow> 'db kv \<Rightarrow> serde \<Rightarrow> ext \<Rightarrow> node_config \<Rightarrow> 'db cluster \<Rightarrow> answers \<Rightarrow> 'db cluster \<Rightarrow> answers \<Rightarrow> bool"
  for careful K C X cf where
  campaign: "\<lbrakk>i \<in> cluster_ids cf; current_term (state_of c i) < u64_max;
    begin_election K C (cl_node c i) = Some (n, req)\<rbrakk>
    \<Longrightarrow> run_step careful K C X cf c A ((set_node i n c)\<lparr>cl_requests := insert req (cl_requests c)\<rparr>) A"
| vote: "\<lbrakk>i \<in> cluster_ids cf; req \<in> cl_requests c; vr_candidate_id req \<noteq> i;
    handle_vote_request K C now req (cl_node c i) = Some (n, r)\<rbrakk>
    \<Longrightarrow> run_step careful K C X cf c A
      ((set_node i n c)\<lparr>cl_grants := (if vote_granted r then insert (i, req) else id) (cl_grants c)\<rparr>) A"
| count: "\<lbrakk>i \<in> cluster_ids cf; req \<in> cl_requests c; vr_candidate_id req = i;
    P \<subseteq> set (peers (cl_node c i)); \<forall>p \<in> P. (p, req) \<in> cl_grants c;
    n = finish_election (vr_term req) (Suc (card P)) (cl_node c i)\<rbrakk>
    \<Longrightarrow> run_step careful K C X cf c A
      ((set_node i n c)\<lparr>cl_leaders := (if role (rn_state n) = Leader then insert (current_term (rn_state n), i) else id) (cl_leaders c)\<rparr>) A"
| higher_term: "\<lbrakk>i \<in> cluster_ids cf; current_term (state_of c i) < t; t \<le> u64_max;
    step_down K C t (cl_node c i) = Some n\<rbrakk> \<Longrightarrow> run_step careful K C X cf c A (set_node i n c) A"
| heartbeat: "\<lbrakk>i \<in> cluster_ids cf; m \<in> set (heartbeat_round (cl_node c i))\<rbrakk>
    \<Longrightarrow> run_step careful K C X cf c A (c\<lparr>cl_appends := insert m (cl_appends c)\<rparr>) A"
| send_entries: "\<lbrakk>i \<in> cluster_ids cf; (p, SendEntries req) \<in> set (replicate_to_peers X (cl_node c i))\<rbrakk>
    \<Longrightarrow> run_step careful K C X cf c A (c\<lparr>cl_appends := insert (p, req) (cl_appends c)\<rparr>) A"
| append: "\<lbrakk>i \<in> cluster_ids cf; (i, areq) \<in> cl_appends c; careful \<longrightarrow> deliverable X A i (state_of c i) areq;
    handle_append_entries_node K C X now areq (cl_node c i) = Some (n, ar)\<rbrakk>
    \<Longrightarrow> run_step careful K C X cf c A (set_node i n c) (insert (i, areq, ar) A)"
| append_ack: "\<lbrakk>i \<in> cluster_ids cf; (p, areq, ar) \<in> A; ae_leader_id areq = i; aer_term ar \<le> u64_max;
    careful \<longrightarrow> countable_answer X (state_of c i) areq ar; append_answer K C now p ar (cl_node c i) = Some n\<rbrakk>
    \<Longrightarrow> run_step careful K C X cf c A (set_node i n c) A"
| propose: "\<lbrakk>i \<in> cluster_ids cf; last_log_index (state_of c i) < u64_max;
    handle_append_command K C cmd (cl_node c i) = Some (n, res)\<rbrakk>
    \<Longrightarrow> run_step careful K C X cf c A (set_node i n c) A"
| deliver: "\<lbrakk>i \<in> cluster_ids cf; get_committed_entries (cl_node c i) = (n, es)\<rbrakk>
    \<Longrightarrow> run_step careful K C X cf c A (set_node i n c) A"
| connect: "\<lbrakk>i \<in> cluster_ids cf; n = connect_to_peers dial has_tls (cl_node c i)\<rbrakk>
    \<Longrightarrow> run_step careful K C X cf c A (set_node i n c) A"
| crash: "\<lbrakk>i \<in> cluster_ids cf; rn_storage (cl_node c i) = Some db;
    restart K C (rn_config (cl_node c i)) now db = Some n\<rbrakk>
    \<Longrightarrow> run_step careful K C X cf c A (set_node i n c) A"

inductive run :: "bool \<Rightarrow> 'db kv \<Rightarrow> serde \<Rightarrow> ext \<Rightarrow> node_config \<Rightarrow> 'db cluster \<Rightarrow> answers \<Rightarrow> bool"
  for careful K C X cf where
  start: "initial K cf c \<Longrightarrow> run careful K C X cf c {}"
| step: "run careful K C X cf c A \<Longrightarrow> run_step careful K C X cf c A c' A' \<Longrightarrow> run careful K C X cf c' A'"

lemma run_step_cluster: "run_step careful K C X cf c A c' A' \<Longrightarrow> cluster_step K C X cf c c'"
  by (induction rule: run_step.induct) (blast intro: cluster_step.intros)+

lemma run_reachable: "run careful K C X cf c A \<Longrightarrow> reachable K C X cf c"
  by (induction rule: run.induct) (blast intro: reachable.intros run_step_cluster)+

section \<open>Prefixes of the leaders' logs\<close>

definition position :: "log_entry list \<Rightarrow> u64 \<times> u64" where
  "position L = (if L = [] then 0 else le_term (last L), length L)"

lemma full_position: "full s \<Longrightarrow> log_wf s \<Longrightarrow> log_position s = position (log_of X s)"
  by (simp add: position_def log_of_def last_log_term_def full_def last_map norm_entry_def log_wf_last_index)

text \<open>The log of the leader of a term follows the leaders, and has no entry of a later term.\<close>

definition ranked :: "(u64 \<Rightarrow> log_entry list) \<Rightarrow> bool" where
  "ranked G \<longleftrightarrow> (\<forall>t. follows G (G t) \<and> (\<forall>e \<in> set (G t). le_term e \<le> t))"

lemma rankedD:
  assumes "ranked G"
  shows "follows G (G t)" and "e \<in> set (G t) \<Longrightarrow> le_term e \<le> t"
  using assms by (simp_all add: ranked_def)

lemma follows_last:
  assumes "follows G L" and "L \<noteq> []"
  shows "L = take (length L) (G (le_term (last L)))" and "length L \<le> length (G (le_term (last L)))"
proof -
  have k: "length L - 1 < length L" "Suc (length L - 1) = length L" using assms(2) by (cases L; simp)+
  from assms(1) k(1) show "L = take (length L) (G (le_term (last L)))" and "length L \<le> length (G (le_term (last L)))"
    unfolding follows_def last_conv_nth [OF assms(2)] by (metis k(2) take_all order_refl, metis k(2) Suc_leI)
qed

lemma prefix_of_take: "prefix P L \<Longrightarrow> length P \<le> m \<Longrightarrow> prefix P (take m L)"
  by (auto simp: prefix_def)

text \<open>
  A log that is at least as up to date as one with the first \<open>k\<close> entries of the leader of term \<open>t\<close>, the last of them
  of that term, has them too, provided the leaders of later terms have.
\<close>

lemma up_to_date_has:
  assumes G: "ranked G" and k: "0 < k" "k \<le> length (G t)" "le_term (G t ! (k - 1)) = t"
    and L: "follows G L" "prefix (take k (G t)) L" and R: "follows G R" and le: "log_le (position L) (position R)"
    and later: "\<And>u. t < u \<Longrightarrow> R \<noteq> [] \<Longrightarrow> u = le_term (last R) \<Longrightarrow> prefix (take k (G t)) (G u)"
  shows "prefix (take k (G t)) R"
proof -
  let ?P = "take k (G t)" and ?v = "le_term (last L)" and ?u = "le_term (last R)"
  have P: "length ?P = k" "?P ! (k - 1) = G t ! (k - 1)" using k by simp_all
  have kL: "k \<le> length L" and Lk: "L ! (k - 1) = G t ! (k - 1)"
    using L(2) P k(1) by (auto simp: prefix_def nth_append)
  then have ne: "L \<noteq> []" using k(1) by auto
  have "L ! (k - 1) \<in> set (G ?v)"
    using follows_last [OF L(1) ne] kL k(1) by (metis Suc_pred' Suc_le_eq in_set_takeD nth_mem)
  from rankedD(2) [OF G this] Lk k(3) have tv: "t \<le> ?v" by simp
  from le ne have R0: "R \<noteq> []" by (auto simp: log_le_def position_def split: if_splits)
  with le ne have uv: "?v < ?u \<or> ?v = ?u \<and> length L \<le> length R" by (simp add: log_le_def position_def)
  note Ru = follows_last [OF R R0]
  have "k \<le> length R \<and> prefix ?P (G ?u)"
  proof (cases "t < ?u")
    case True
    from later [OF this R0 refl] have p: "prefix ?P (G ?u)" .
    have "k \<le> length R"
    proof (rule ccontr)
      assume "\<not> k \<le> length R"
      then have lt: "length R - 1 < k" "length R - 1 < length (G ?u)" using R0 Ru(2) by (cases R; simp)+
      have "last R = G ?u ! (length R - 1)"
        using Ru R0 by (metis last_conv_nth length_greater_0_conv diff_less nth_take zero_less_one)
      also have "\<dots> = ?P ! (length R - 1)" using p lt(1) P(1) by (auto simp: prefix_def nth_append)
      also have "\<dots> \<in> set (G t)" using lt(1) P(1) by (metis in_set_takeD nth_mem)
      finally show False using rankedD(2) [OF G] True by fastforce
    qed
    with p show ?thesis by simp
  next
    case False
    with tv uv have "?u = t" "length L \<le> length R" by auto
    with kL show ?thesis by (simp add: take_is_prefix)
  qed
  then have "prefix ?P (take (length R) (G ?u))" by (intro prefix_of_take) auto
  then show ?thesis by (subst Ru(1))
qed

section \<open>What is known of votes and commits\<close>

text \<open>Node \<open>q\<close> has had the first \<open>k\<close> entries of the leader of term \<open>t\<close>: it was this leader, or answered it.\<close>

definition supports :: "ext \<Rightarrow> 'db cluster \<Rightarrow> answers \<Rightarrow> (u64 \<Rightarrow> log_entry list) \<Rightarrow> node_id \<Rightarrow> u64 \<Rightarrow> u64 \<Rightarrow> bool" where
  "supports X c A G q t k \<longleftrightarrow> acked X A q t k \<or> (t, q) \<in> cl_leaders c \<and> k \<le> length (G t)"

text \<open>Some leader of a term after \<open>t\<close> and up to \<open>u\<close> was elected without \<open>P\<close> in its log; \<open>E\<close> are the logs at the elections.\<close>

definition overruled :: "'db cluster \<Rightarrow> (u64 \<Rightarrow> log_entry list) \<Rightarrow> log_entry list \<Rightarrow> u64 \<Rightarrow> u64 \<Rightarrow> bool" where
  "overruled c E P t u \<longleftrightarrow> (\<exists>t' j. t < t' \<and> t' \<le> u \<and> (t', j) \<in> cl_leaders c \<and> \<not> prefix P (E t'))"

text \<open>
  The vote of \<open>q\<close> for \<open>req\<close>: its log \<open>L\<close> at that time was not more up to date, and had what \<open>q\<close> supported unless that
  was overruled.
\<close>

definition vote_ok ::
  "ext \<Rightarrow> 'db cluster \<Rightarrow> answers \<Rightarrow> (u64 \<Rightarrow> log_entry list) \<Rightarrow> (u64 \<Rightarrow> log_entry list) \<Rightarrow> node_id \<Rightarrow> vote_request \<Rightarrow> bool" where
  "vote_ok X c A G E q req \<longleftrightarrow>
     vr_term req \<le> current_term (state_of c q) \<and>
     (\<exists>L. follows G L \<and> log_le (position L) (vr_last_log_term req, vr_last_log_index req) \<and>
        (\<forall>t k. supports X c A G q t k \<longrightarrow> t < vr_term req \<longrightarrow>
           prefix (take k (G t)) L \<or> overruled c E (take k (G t)) t (vr_term req - 1)))"

lemma vote_okI:
  assumes "vr_term req \<le> current_term (state_of c q)" and "follows G L"
    and "log_le (position L) (vr_last_log_term req, vr_last_log_index req)"
    and "\<And>t k. supports X c A G q t k \<Longrightarrow> t < vr_term req \<Longrightarrow>
      prefix (take k (G t)) L \<or> overruled c E (take k (G t)) t (vr_term req - 1)"
  shows "vote_ok X c A G E q req"
  using assms unfolding vote_ok_def by blast

text \<open>How the leader of term \<open>t\<close> was elected.\<close>

definition elected_ok ::
  "ext \<Rightarrow> node_config \<Rightarrow> 'db cluster \<Rightarrow> answers \<Rightarrow> (u64 \<Rightarrow> log_entry list) \<Rightarrow> (u64 \<Rightarrow> log_entry list) \<Rightarrow> u64 \<Rightarrow> bool" where
  "elected_ok X cf c A G E t \<longleftrightarrow>
     follows G (E t) \<and> prefix (E t) (G t) \<and> (\<forall>e \<in> set (E t). le_term e < t) \<and>
     (\<exists>req. vr_term req = t \<and> position (E t) = (vr_last_log_term req, vr_last_log_index req) \<and>
        (\<exists>Q \<subseteq> cluster_ids cf. is_quorum cf Q \<and> (\<forall>q \<in> Q. vote_ok X c A G E q req)))"

text \<open>The first \<open>k\<close> entries of the leader of term \<open>t\<close> are chosen: the last is of this term, and a quorum supports them.\<close>

definition chosen :: "ext \<Rightarrow> node_config \<Rightarrow> 'db cluster \<Rightarrow> answers \<Rightarrow> (u64 \<Rightarrow> log_entry list) \<Rightarrow> u64 \<Rightarrow> u64 \<Rightarrow> bool" where
  "chosen X cf c A G t k \<longleftrightarrow>
     0 < k \<and> k \<le> length (G t) \<and> le_term (G t ! (k - 1)) = t \<and>
     (\<exists>Q \<subseteq> cluster_ids cf. is_quorum cf Q \<and> (\<forall>q \<in> Q. supports X c A G q t k))"

text \<open>The first \<open>k\<close> entries of \<open>L\<close> were chosen in a term up to \<open>u\<close>.\<close>

definition backed ::
  "ext \<Rightarrow> node_config \<Rightarrow> 'db cluster \<Rightarrow> answers \<Rightarrow> (u64 \<Rightarrow> log_entry list) \<Rightarrow> u64 \<Rightarrow> log_entry list \<Rightarrow> u64 \<Rightarrow> u64 \<Rightarrow> bool" where
  "backed X cf c A G u L k t \<longleftrightarrow>
     t \<le> u \<and> prefix (take k (G t)) L \<and> (\<exists>k'. k \<le> k' \<and> chosen X cf c A G t k')"

text \<open>Quorums meet: a later leader was elected with every chosen entry.\<close>

lemma chosen_elected:
  assumes G: "ranked G" and E: "\<And>t j. (t, j) \<in> cl_leaders c \<Longrightarrow> elected_ok X cf c A G E t"
    and led: "\<And>t. G t \<noteq> [] \<Longrightarrow> \<exists>j. (t, j) \<in> cl_leaders c"
    and ch: "chosen X cf c A G t k"
  shows "(t', j) \<in> cl_leaders c \<Longrightarrow> t < t' \<Longrightarrow> prefix (take k (G t)) (E t')"
proof (induction t' arbitrary: j rule: less_induct)
  case (less t')
  from ch obtain Q where k: "0 < k" "k \<le> length (G t)" "le_term (G t ! (k - 1)) = t"
    and Q: "Q \<subseteq> cluster_ids cf" "is_quorum cf Q" "\<And>q. q \<in> Q \<Longrightarrow> supports X c A G q t k"
    unfolding chosen_def by blast
  from E [OF less.prems(1)] obtain req Q' where e: "follows G (E t')" "prefix (E t') (G t')" "\<forall>e \<in> set (E t'). le_term e < t'"
    and r: "vr_term req = t'" "position (E t') = (vr_last_log_term req, vr_last_log_index req)"
    and Q': "Q' \<subseteq> cluster_ids cf" "is_quorum cf Q'" "\<And>q. q \<in> Q' \<Longrightarrow> vote_ok X c A G E q req"
    unfolding elected_ok_def by blast
  obtain q where q: "q \<in> Q" "q \<in> Q'" using majority.quorum_meet [OF Q(1) Q'(1) Q(2) Q'(2)] by blast
  from Q'(3) [OF q(2)] Q(3) [OF q(1)] less.prems(2) obtain L where L: "follows G L" "log_le (position L) (position (E t'))"
    "prefix (take k (G t)) L \<or> overruled c E (take k (G t)) t (t' - 1)"
    unfolding vote_ok_def r by blast
  have "\<not> overruled c E (take k (G t)) t (t' - 1)"
    using less.IH less.prems(2) unfolding overruled_def by (metis Suc_pred' le_imp_less_Suc less_nat_zero_code not_gr_zero)
  with L(3) have "prefix (take k (G t)) L" by blast
  from G k L(1) this e(1) L(2) show ?case
  proof (rule up_to_date_has)
    fix u assume u: "t < u" "E t' \<noteq> []" "u = le_term (last (E t'))"
    have "u < t'" using e(3) u(2,3) by simp
    have "G u \<noteq> []" using follows_last(2) [OF e(1) u(2)] u(2,3) by auto
    from led [OF this] obtain j' where j': "(u, j') \<in> cl_leaders c" by blast
    from less.IH [OF \<open>u < t'\<close> j' u(1)] E [OF j'] show "prefix (take k (G t)) (G u)"
      unfolding elected_ok_def using prefix_order.trans by blast
  qed
qed

section \<open>The invariant\<close>

definition node_safe ::
  "ext \<Rightarrow> node_config \<Rightarrow> 'db cluster \<Rightarrow> answers \<Rightarrow> (u64 \<Rightarrow> log_entry list) \<Rightarrow> (u64 \<Rightarrow> log_entry list) \<Rightarrow> node_id \<Rightarrow> 'db raft_node \<Rightarrow> bool" where
  "node_safe X cf c A G E i n \<longleftrightarrow>
     (let s = rn_state n; L = log_of X s; u = current_term s in
      (\<forall>e \<in> set L. le_term e \<le> u) \<and>
      (role s = Candidate \<longrightarrow> (\<forall>e \<in> set L. le_term e < u) \<and>
         (\<forall>req \<in> cl_requests c. vr_candidate_id req = i \<longrightarrow> vr_term req = u \<longrightarrow>
            position L = (vr_last_log_term req, vr_last_log_index req))) \<and>
      (role s = Leader \<longrightarrow> peers_tracked n \<and>
         (\<forall>p v. hm_get (match_index s) p = Some v \<longrightarrow> v = 0 \<or> acked X A p u v) \<and>
         (\<forall>p v. hm_get (next_index s) p = Some v \<longrightarrow> v \<le> Suc (length L))) \<and>
      (\<forall>t k. supports X c A G i t k \<longrightarrow> t \<le> u \<and> (prefix (take k (G t)) L \<or> overruled c E (take k (G t)) t u)) \<and>
      (commit_index s = 0 \<or>
         (\<exists>t. backed X cf c A G u L (commit_index s) t \<and> (t = u \<longrightarrow> supports X c A G i u (commit_index s)))))"

definition request_ok ::
  "ext \<Rightarrow> node_config \<Rightarrow> 'db cluster \<Rightarrow> answers \<Rightarrow> (u64 \<Rightarrow> log_entry list) \<Rightarrow> (u64 \<Rightarrow> log_entry list) \<Rightarrow> append_entries_request \<Rightarrow> bool" where
  "request_ok X cf c A G E req \<longleftrightarrow>
     (let L = G (ae_term req); p = ae_prev_log_index req; m = established X req in
      m \<le> length L \<and>
      (ae_entries req \<noteq> [] \<longrightarrow>
         length (E (ae_term req)) \<le> m \<and> map (norm_entry X) (new_entries X req) = drop p (take m L)) \<and>
      (0 < p \<longrightarrow> le_term (L ! (p - 1)) = ae_prev_log_term req) \<and>
      (ae_leader_commit req = 0 \<or> (\<exists>t. backed X cf c A G (ae_term req) L (ae_leader_commit req) t)))"

text \<open>A vote counts only as long as its term has no leader.\<close>

definition ballot_ok ::
  "ext \<Rightarrow> 'db cluster \<Rightarrow> answers \<Rightarrow> (u64 \<Rightarrow> log_entry list) \<Rightarrow> (u64 \<Rightarrow> log_entry list) \<Rightarrow> node_id \<Rightarrow> vote_request \<Rightarrow> bool" where
  "ballot_ok X c A G E q req \<longleftrightarrow> (\<exists>j. (vr_term req, j) \<in> cl_leaders c) \<or> vote_ok X c A G E q req"

definition safe_inv ::
  "'db kv \<Rightarrow> serde \<Rightarrow> ext \<Rightarrow> node_config \<Rightarrow> 'db cluster \<Rightarrow> answers \<Rightarrow> (u64 \<Rightarrow> log_entry list) \<Rightarrow> (u64 \<Rightarrow> log_entry list) \<Rightarrow> bool" where
  "safe_inv K C X cf c A G E \<longleftrightarrow>
     matching K C X cf G c \<and> election_inv K C cf c \<and> ranked G \<and>
     (\<forall>i \<in> cluster_ids cf. node_safe X cf c A G E i (cl_node c i)) \<and>
     (\<forall>p req. (p, req) \<in> cl_appends c \<longrightarrow> request_ok X cf c A G E req) \<and>
     (\<forall>p req r. (p, req, r) \<in> A \<longrightarrow> p \<in> cluster_ids cf \<and> (p, req) \<in> cl_appends c) \<and>
     (\<forall>req \<in> cl_requests c. vr_candidate_id req \<in> cluster_ids cf \<and>
        vr_term req \<le> current_term (state_of c (vr_candidate_id req)) \<and> ballot_ok X c A G E (vr_candidate_id req) req) \<and>
     (\<forall>q req. (q, req) \<in> cl_grants c \<longrightarrow> q \<in> cluster_ids cf \<and> ballot_ok X c A G E q req) \<and>
     (\<forall>t j. (t, j) \<in> cl_leaders c \<longrightarrow> elected_ok X cf c A G E t)"

lemma safe_invD:
  assumes "safe_inv K C X cf c A G E"
  shows "matching K C X cf G c" and "election_inv K C cf c" and "ranked G"
    and "i \<in> cluster_ids cf \<Longrightarrow> node_safe X cf c A G E i (cl_node c i)"
    and "(p, areq) \<in> cl_appends c \<Longrightarrow> request_ok X cf c A G E areq"
    and "(p, areq, r) \<in> A \<Longrightarrow> p \<in> cluster_ids cf \<and> (p, areq) \<in> cl_appends c"
    and "req \<in> cl_requests c \<Longrightarrow> vr_candidate_id req \<in> cluster_ids cf \<and>
      vr_term req \<le> current_term (state_of c (vr_candidate_id req)) \<and> ballot_ok X c A G E (vr_candidate_id req) req"
    and "(q, req) \<in> cl_grants c \<Longrightarrow> q \<in> cluster_ids cf \<and> ballot_ok X c A G E q req"
    and "(t, j) \<in> cl_leaders c \<Longrightarrow> elected_ok X cf c A G E t"
  using assms unfolding safe_inv_def by blast+

text \<open>What is acknowledged is in the log of the leader.\<close>

lemma supports_bound:
  assumes "safe_inv K C X cf c A G E" and "supports X c A G q t k"
  shows "k \<le> length (G t)"
  using assms(2) safe_invD(5,6) [OF assms(1)] unfolding supports_def acked_def request_ok_def Let_def
  by (metis order_trans)

lemma led_nonempty:
  assumes "safe_inv K C X cf c A G E" and "G t \<noteq> []"
  shows "\<exists>j. (t, j) \<in> cl_leaders c"
  using matchingD(2) [OF safe_invD(1) [OF assms(1)], of t] assms(2) by blast

lemma chosen_kept:
  assumes inv: "safe_inv K C X cf c A G E" and "chosen X cf c A G t k" and "(t', j) \<in> cl_leaders c" and "t < t'"
  shows "prefix (take k (G t)) (E t')"
  by (rule chosen_elected [OF safe_invD(3) [OF inv] safe_invD(9) [OF inv] led_nonempty [OF inv] assms(2-4)])

section \<open>How the history grows\<close>

definition evolves ::
  "ext \<Rightarrow> node_config \<Rightarrow> 'db cluster \<Rightarrow> answers \<Rightarrow> (u64 \<Rightarrow> log_entry list) \<Rightarrow> (u64 \<Rightarrow> log_entry list) \<Rightarrow>
   'db cluster \<Rightarrow> answers \<Rightarrow> (u64 \<Rightarrow> log_entry list) \<Rightarrow> (u64 \<Rightarrow> log_entry list) \<Rightarrow> bool" where
  "evolves X cf c A G E c' A' G' E' \<longleftrightarrow>
     cl_leaders c \<subseteq> cl_leaders c' \<and> A \<subseteq> A' \<and> grows G G' \<and> (\<forall>t j. (t, j) \<in> cl_leaders c \<longrightarrow> E' t = E t) \<and>
     (\<forall>q. current_term (state_of c q) \<le> current_term (state_of c' q)) \<and>
     (\<forall>q t k. supports X c A G q t k \<longrightarrow> k \<le> length (G t)) \<and>
     (\<forall>q t k. supports X c' A' G' q t k \<longrightarrow> supports X c A G q t k \<or> current_term (state_of c q) \<le> t)"

lemma evolvesD:
  assumes "evolves X cf c A G E c' A' G' E'"
  shows "cl_leaders c \<subseteq> cl_leaders c'" and "A \<subseteq> A'" and "grows G G'" and "(t, j) \<in> cl_leaders c \<Longrightarrow> E' t = E t"
    and "current_term (state_of c q) \<le> current_term (state_of c' q)" and "supports X c A G q t k \<Longrightarrow> k \<le> length (G t)"
    and "supports X c' A' G' q t k \<Longrightarrow> t < current_term (state_of c q) \<Longrightarrow> supports X c A G q t k"
  using assms leD [of "current_term (state_of c q)" t] unfolding evolves_def by blast+

lemma grows_take: "grows G G' \<Longrightarrow> k \<le> length (G t) \<Longrightarrow> take k (G' t) = take k (G t)"
  by (auto simp: grows_def dest!: spec [of _ t])

lemma grows_length: "grows G G' \<Longrightarrow> length (G t) \<le> length (G' t)"
  by (auto simp: grows_def dest!: spec [of _ t])

lemma grows_nth: "grows G G' \<Longrightarrow> k < length (G t) \<Longrightarrow> G' t ! k = G t ! k"
  by (auto simp: grows_def nth_append dest!: spec [of _ t])

lemma grows_prefix: "grows G G' \<Longrightarrow> prefix P (G t) \<Longrightarrow> prefix P (G' t)"
  by (auto simp: grows_def prefix_def dest!: spec [of _ t])

lemma acked_mono: "acked X A q t k \<Longrightarrow> A \<subseteq> A' \<Longrightarrow> acked X A' q t k"
  unfolding acked_def by blast

lemma acked_le: "acked X A q t k \<Longrightarrow> k' \<le> k \<Longrightarrow> acked X A q t k'"
  unfolding acked_def by (metis order_trans)

lemma supports_le: "supports X c A G q t k \<Longrightarrow> k' \<le> k \<Longrightarrow> supports X c A G q t k'"
  unfolding supports_def using acked_le by (metis order_trans)

lemma supports_mono:
  assumes "evolves X cf c A G E c' A' G' E'" and "supports X c A G q t k"
  shows "supports X c' A' G' q t k"
  using assms(2) evolvesD(1) [OF assms(1)] acked_mono [OF _ evolvesD(2) [OF assms(1)]] grows_length [OF evolvesD(3) [OF assms(1)], of t]
  unfolding supports_def by (metis order_trans subsetD)

lemma overruled_mono:
  assumes "evolves X cf c A G E c' A' G' E'" and "overruled c E P t u" and "u \<le> u'"
  shows "overruled c' E' P t u'"
  using assms(2,3) evolvesD(1,4) [OF assms(1)] unfolding overruled_def by (metis order_trans subsetD)

lemma chosen_mono:
  assumes e: "evolves X cf c A G E c' A' G' E'" and ch: "chosen X cf c A G t k"
  shows "chosen X cf c' A' G' t k"
proof -
  have "k \<le> length (G' t) \<and> G' t ! (k - 1) = G t ! (k - 1)"
    using ch grows_length [OF evolvesD(3) [OF e], of t] grows_nth [OF evolvesD(3) [OF e], of "k - 1" t]
    by (auto simp: chosen_def)
  with ch supports_mono [OF e] show ?thesis unfolding chosen_def by metis
qed

lemma backed_mono:
  assumes e: "evolves X cf c A G E c' A' G' E'" and b: "backed X cf c A G u L k t" and "u \<le> u'" and "prefix L L'"
  shows "backed X cf c' A' G' u' L' k t"
proof -
  have "k \<le> length (G t)" using b by (auto simp: backed_def chosen_def)
  from grows_take [OF evolvesD(3) [OF e] this] b assms(3,4) chosen_mono [OF e] show ?thesis
    unfolding backed_def by (metis order_trans prefix_order.trans)
qed

lemma vote_ok_mono:
  assumes e: "evolves X cf c A G E c' A' G' E'" and v: "vote_ok X c A G E q req"
  shows "vote_ok X c' A' G' E' q req"
proof -
  from v obtain L where t: "vr_term req \<le> current_term (state_of c q)" and L: "follows G L"
    "log_le (position L) (vr_last_log_term req, vr_last_log_index req)"
    "\<And>t k. supports X c A G q t k \<Longrightarrow> t < vr_term req \<Longrightarrow>
       prefix (take k (G t)) L \<or> overruled c E (take k (G t)) t (vr_term req - 1)"
    unfolding vote_ok_def by blast
  have "prefix (take k (G' t')) L \<or> overruled c' E' (take k (G' t')) t' (vr_term req - 1)"
    if s: "supports X c' A' G' q t' k" and lt: "t' < vr_term req" for t' k
  proof -
    have old: "supports X c A G q t' k" using evolvesD(7) [OF e s] t lt by simp
    from grows_take [OF evolvesD(3) [OF e] evolvesD(6) [OF e old]] L(3) [OF old lt] overruled_mono [OF e] show ?thesis
      by (metis order_refl)
  qed
  with t L(2) follows_mono [OF L(1) evolvesD(3) [OF e]] evolvesD(5) [OF e, of q] show ?thesis
    unfolding vote_ok_def by (meson order_trans)
qed

lemma ballot_ok_mono:
  assumes "evolves X cf c A G E c' A' G' E'" and "ballot_ok X c A G E q req"
  shows "ballot_ok X c' A' G' E' q req"
  using assms(2) vote_ok_mono [OF assms(1)] evolvesD(1) [OF assms(1)] unfolding ballot_ok_def by blast

lemma elected_ok_mono:
  assumes e: "evolves X cf c A G E c' A' G' E'" and "elected_ok X cf c A G E t" and "(t, j) \<in> cl_leaders c"
  shows "elected_ok X cf c' A' G' E' t"
  using assms(2) follows_mono [OF _ evolvesD(3) [OF e]] grows_prefix [OF evolvesD(3) [OF e]] vote_ok_mono [OF e]
  unfolding elected_ok_def evolvesD(4) [OF e assms(3)] by blast

lemma request_ok_mono:
  assumes e: "evolves X cf c A G E c' A' G' E'" and r: "request_ok X cf c A G E req" and l: "(ae_term req, j) \<in> cl_leaders c"
  shows "request_ok X cf c' A' G' E' req"
proof -
  let ?G = "G (ae_term req)" and ?p = "ae_prev_log_index req" and ?m = "established X req"
  note g = evolvesD(3) [OF e]
  have m: "?m \<le> length ?G" and p: "?p \<le> ?m" using r by (simp_all add: request_ok_def established_def Let_def)
  have "?m \<le> length (G' (ae_term req))" using m grows_length [OF g, of "ae_term req"] by simp
  moreover have "take ?m (G' (ae_term req)) = take ?m ?G" by (rule grows_take [OF g m])
  moreover have "0 < ?p \<Longrightarrow> G' (ae_term req) ! (?p - 1) = ?G ! (?p - 1)" using m p by (intro grows_nth [OF g]) simp
  moreover have "backed X cf c' A' G' (ae_term req) (G' (ae_term req)) (ae_leader_commit req) t"
    if "backed X cf c A G (ae_term req) ?G (ae_leader_commit req) t" for t
    using backed_mono [OF e that] grows_prefix [OF g, of ?G] by simp
  ultimately show ?thesis using r unfolding request_ok_def evolvesD(4) [OF e l] Let_def by (metis (no_types, lifting))
qed

section \<open>Nodes that change little\<close>

lemma node_safeD:
  assumes "node_safe X cf c A G E i n"
  shows "e \<in> set (log_of X (rn_state n)) \<Longrightarrow> le_term e \<le> current_term (rn_state n)"
    and "role (rn_state n) = Candidate \<Longrightarrow> e \<in> set (log_of X (rn_state n)) \<Longrightarrow> le_term e < current_term (rn_state n)"
    and "role (rn_state n) = Candidate \<Longrightarrow> req \<in> cl_requests c \<Longrightarrow> vr_candidate_id req = i \<Longrightarrow>
      vr_term req = current_term (rn_state n) \<Longrightarrow> position (log_of X (rn_state n)) = (vr_last_log_term req, vr_last_log_index req)"
    and "role (rn_state n) = Leader \<Longrightarrow> peers_tracked n"
    and "role (rn_state n) = Leader \<Longrightarrow> hm_get (match_index (rn_state n)) p = Some v \<Longrightarrow>
      v = 0 \<or> acked X A p (current_term (rn_state n)) v"
    and "role (rn_state n) = Leader \<Longrightarrow> hm_get (next_index (rn_state n)) p = Some v \<Longrightarrow>
      v \<le> Suc (length (log_of X (rn_state n)))"
    and "supports X c A G i t k \<Longrightarrow> t \<le> current_term (rn_state n)"
    and "supports X c A G i t k \<Longrightarrow> prefix (take k (G t)) (log_of X (rn_state n)) \<or>
      overruled c E (take k (G t)) t (current_term (rn_state n))"
    and "commit_index (rn_state n) = 0 \<or>
      (\<exists>t. backed X cf c A G (current_term (rn_state n)) (log_of X (rn_state n)) (commit_index (rn_state n)) t \<and>
         (t = current_term (rn_state n) \<longrightarrow> supports X c A G i (current_term (rn_state n)) (commit_index (rn_state n))))"
  using assms unfolding node_safe_def Let_def by blast+

lemma node_safeI:
  assumes "\<And>e. e \<in> set (log_of X (rn_state n)) \<Longrightarrow> le_term e \<le> current_term (rn_state n)"
    and "\<And>e. role (rn_state n) = Candidate \<Longrightarrow> e \<in> set (log_of X (rn_state n)) \<Longrightarrow> le_term e < current_term (rn_state n)"
    and "\<And>req. role (rn_state n) = Candidate \<Longrightarrow> req \<in> cl_requests c \<Longrightarrow> vr_candidate_id req = i \<Longrightarrow>
      vr_term req = current_term (rn_state n) \<Longrightarrow> position (log_of X (rn_state n)) = (vr_last_log_term req, vr_last_log_index req)"
    and "role (rn_state n) = Leader \<Longrightarrow> peers_tracked n"
    and "\<And>p v. role (rn_state n) = Leader \<Longrightarrow> hm_get (match_index (rn_state n)) p = Some v \<Longrightarrow>
      v = 0 \<or> acked X A p (current_term (rn_state n)) v"
    and "\<And>p v. role (rn_state n) = Leader \<Longrightarrow> hm_get (next_index (rn_state n)) p = Some v \<Longrightarrow>
      v \<le> Suc (length (log_of X (rn_state n)))"
    and "\<And>t k. supports X c A G i t k \<Longrightarrow> t \<le> current_term (rn_state n) \<and> (prefix (take k (G t)) (log_of X (rn_state n)) \<or>
      overruled c E (take k (G t)) t (current_term (rn_state n)))"
    and "commit_index (rn_state n) = 0 \<or>
      (\<exists>t. backed X cf c A G (current_term (rn_state n)) (log_of X (rn_state n)) (commit_index (rn_state n)) t \<and>
         (t = current_term (rn_state n) \<longrightarrow> supports X c A G i (current_term (rn_state n)) (commit_index (rn_state n))))"
  shows "node_safe X cf c A G E i n"
  using assms unfolding node_safe_def Let_def by blast

lemma kept_mono:
  assumes e: "evolves X cf c A G E c' A' G' E'" and n: "node_safe X cf c A G E i n" and s: "supports X c A G i t k"
    and u: "current_term (rn_state n) \<le> u" and L: "prefix (log_of X (rn_state n)) L"
  shows "t \<le> u \<and> (prefix (take k (G' t)) L \<or> overruled c' E' (take k (G' t)) t u)"
  using node_safeD(7,8) [OF n s] grows_take [OF evolvesD(3) [OF e] evolvesD(6) [OF e s]] overruled_mono [OF e _ u] u L
  by (metis order_trans prefix_order.trans)

text \<open>
  A node that keeps its log, and its role unless it becomes a follower, while the history grows by nothing of its
  own: all other nodes in a step, and a node that steps down, is restarted or hands over entries.
\<close>

lemma node_safe_calm:
  assumes e: "evolves X cf c A G E c' A' G' E'" and n: "node_safe X cf c A G E i n"
    and own: "\<And>t k. supports X c' A' G' i t k \<Longrightarrow> supports X c A G i t k"
    and req: "\<And>req. req \<in> cl_requests c' \<Longrightarrow> vr_candidate_id req = i \<Longrightarrow> req \<in> cl_requests c"
    and log: "log_of X (rn_state n') = log_of X (rn_state n)" and t: "current_term (rn_state n) \<le> current_term (rn_state n')"
    and role: "role (rn_state n') \<noteq> Follower \<Longrightarrow> role (rn_state n') = role (rn_state n) \<and>
      current_term (rn_state n') = current_term (rn_state n) \<and> match_index (rn_state n') = match_index (rn_state n) \<and>
      next_index (rn_state n') = next_index (rn_state n) \<and> rn_config n' = rn_config n"
    and ci: "commit_index (rn_state n') = 0 \<or> commit_index (rn_state n') = commit_index (rn_state n)"
  shows "node_safe X cf c' A' G' E' i n'"
proof (rule node_safeI, unfold log)
  let ?L = "log_of X (rn_state n)" and ?u = "current_term (rn_state n')"
  note D = node_safeD [OF n]
  show "le_term x \<le> ?u" if "x \<in> set ?L" for x using D(1) [OF that] t by simp
  show "le_term x < ?u" if "role (rn_state n') = Candidate" "x \<in> set ?L" for x using D(2) [of x] role that by simp
  show "position ?L = (vr_last_log_term r, vr_last_log_index r)"
    if "role (rn_state n') = Candidate" "r \<in> cl_requests c'" "vr_candidate_id r = i" "vr_term r = ?u" for r
    using D(3) [OF _ req [OF that(2,3)] that(3)] role that by simp
  show "peers_tracked n'" if "role (rn_state n') = Leader" using D(4) role that by (simp add: peers_tracked_def)
  show "v = 0 \<or> acked X A' p ?u v" if "role (rn_state n') = Leader" "hm_get (match_index (rn_state n')) p = Some v" for p v
    using D(5) [of p v] role that acked_mono [OF _ evolvesD(2) [OF e]] by auto
  show "v \<le> Suc (length ?L)" if "role (rn_state n') = Leader" "hm_get (next_index (rn_state n')) p = Some v" for p v
    using D(6) [of p v] role that by simp
  show "t' \<le> ?u \<and> (prefix (take k (G' t')) ?L \<or> overruled c' E' (take k (G' t')) t' ?u)"
    if "supports X c' A' G' i t' k" for t' k
    by (rule kept_mono [OF e n own [OF that] t prefix_order.refl])
  show "commit_index (rn_state n') = 0 \<or>
      (\<exists>t. backed X cf c' A' G' ?u ?L (commit_index (rn_state n')) t \<and>
         (t = ?u \<longrightarrow> supports X c' A' G' i ?u (commit_index (rn_state n'))))"
  proof (cases "commit_index (rn_state n') = 0")
    case False
    with ci D(9) obtain t' where b: "backed X cf c A G (current_term (rn_state n)) ?L (commit_index (rn_state n')) t'"
      and s: "t' = current_term (rn_state n) \<Longrightarrow> supports X c A G i (current_term (rn_state n)) (commit_index (rn_state n'))"
      by auto
    have "supports X c' A' G' i ?u (commit_index (rn_state n'))" if "t' = ?u"
      using that b s t supports_mono [OF e] by (auto simp: backed_def)
    with backed_mono [OF e b t] show ?thesis by blast
  qed simp
qed

text \<open>One node changes, and the history grows by what the node does.\<close>

lemma safe_inv_step:
  assumes inv: "safe_inv K C X cf c A G E" and i: "i \<in> cluster_ids cf" and node: "cl_node c' = (cl_node c)(i := n)"
    and keep: "matching K C X cf G' c'" "election_inv K C cf c'" "ranked G'" and e: "evolves X cf c A G E c' A' G' E'"
    and n: "node_safe X cf c' A' G' E' i n"
    and own: "\<And>q t k. supports X c' A' G' q t k \<Longrightarrow> q \<noteq> i \<Longrightarrow> supports X c A G q t k"
    and reqs: "\<And>req. req \<in> cl_requests c' \<Longrightarrow> req \<in> cl_requests c \<or>
      vr_candidate_id req = i \<and> vr_term req \<le> current_term (rn_state n) \<and> ballot_ok X c' A' G' E' i req"
    and grants: "\<And>q req. (q, req) \<in> cl_grants c' \<Longrightarrow> (q, req) \<in> cl_grants c \<or> q = i \<and> ballot_ok X c' A' G' E' i req"
    and sent: "\<And>p req. (p, req) \<in> cl_appends c' \<Longrightarrow> (p, req) \<in> cl_appends c \<or> request_ok X cf c' A' G' E' req"
    and answers: "\<And>p req r. (p, req, r) \<in> A' \<Longrightarrow> (p, req, r) \<in> A \<or> p \<in> cluster_ids cf \<and> (p, req) \<in> cl_appends c'"
    and more: "cl_appends c \<subseteq> cl_appends c'"
    and leaders: "\<And>t j. (t, j) \<in> cl_leaders c' \<Longrightarrow> (t, j) \<in> cl_leaders c \<or> elected_ok X cf c' A' G' E' t"
  shows "safe_inv K C X cf c' A' G' E'"
proof -
  note D = safe_invD [OF inv]
  have "node_safe X cf c' A' G' E' j (cl_node c' j)" if j: "j \<in> cluster_ids cf" for j
  proof (cases "j = i")
    case False
    with reqs have "req \<in> cl_requests c' \<Longrightarrow> vr_candidate_id req = j \<Longrightarrow> req \<in> cl_requests c" for req by blast
    with node_safe_calm [OF e D(4) [OF j] own] False node show ?thesis by simp
  qed (use n node in simp)
  moreover have "request_ok X cf c' A' G' E' req" if "(p, req) \<in> cl_appends c'" for p req
    using sent [OF that] request_ok_mono [OF e D(5)] election_invD(7) [OF D(2), of p req] by (auto simp: sent_ok_def)
  moreover have "vr_candidate_id req \<in> cluster_ids cf \<and> vr_term req \<le> current_term (state_of c' (vr_candidate_id req)) \<and>
      ballot_ok X c' A' G' E' (vr_candidate_id req) req" if "req \<in> cl_requests c'" for req
    using reqs [OF that] D(7) [of req] ballot_ok_mono [OF e] evolvesD(5) [OF e, of "vr_candidate_id req"] i node by auto
  moreover have "q \<in> cluster_ids cf \<and> ballot_ok X c' A' G' E' q req" if "(q, req) \<in> cl_grants c'" for q req
    using grants [OF that] D(8) [of q req] ballot_ok_mono [OF e] i by blast
  moreover have "elected_ok X cf c' A' G' E' t" if "(t, j) \<in> cl_leaders c'" for t j
    using leaders [OF that] D(9) [of t j] elected_ok_mono [OF e] by blast
  moreover have "p \<in> cluster_ids cf \<and> (p, req) \<in> cl_appends c'" if "(p, req, r) \<in> A'" for p req r
    using answers [OF that] D(6) [of p req r] more by blast
  ultimately show ?thesis using keep unfolding safe_inv_def by blast
qed

section \<open>The steps\<close>

lemma supports_frame [simp]:
  "supports X (set_node i n c) A G = supports X c A G" "supports X (c\<lparr>cl_requests := R\<rparr>) A G = supports X c A G"
  "supports X (c\<lparr>cl_grants := V\<rparr>) A G = supports X c A G" "supports X (c\<lparr>cl_appends := M\<rparr>) A G = supports X c A G"
  by (simp_all add: fun_eq_iff supports_def)

lemma set_node_fun: "cl_node (set_node i n c) = (cl_node c)(i := n)"
  by (simp add: set_node_def)

lemma evolves_same:
  assumes "safe_inv K C X cf c A G E" and "cl_leaders c' = cl_leaders c"
    and "\<And>q. current_term (state_of c q) \<le> current_term (state_of c' q)"
  shows "evolves X cf c A G E c' A G E"
proof -
  have "supports X c' A G = supports X c A G" by (simp add: fun_eq_iff supports_def assms(2))
  with assms(2,3) supports_bound [OF assms(1)] show ?thesis by (simp add: evolves_def)
qed

lemma safe_calm:
  assumes inv: "safe_inv K C X cf c A G E" and i: "i \<in> cluster_ids cf"
    and keep: "matching K C X cf G (set_node i n c)" "election_inv K C cf (set_node i n c)"
    and "log_of X (rn_state n) = log_of X (state_of c i)" and t: "current_term (state_of c i) \<le> current_term (rn_state n)"
    and "role (rn_state n) \<noteq> Follower \<Longrightarrow> role (rn_state n) = role (state_of c i) \<and>
      current_term (rn_state n) = current_term (state_of c i) \<and> match_index (rn_state n) = match_index (state_of c i) \<and>
      next_index (rn_state n) = next_index (state_of c i) \<and> rn_config n = rn_config (cl_node c i)"
    and "commit_index (rn_state n) = 0 \<or> commit_index (rn_state n) = commit_index (state_of c i)"
  shows "safe_inv K C X cf (set_node i n c) A G E"
proof -
  have e: "evolves X cf c A G E (set_node i n c) A G E" by (rule evolves_same [OF inv]) (use t in simp_all)
  show ?thesis
    by (rule safe_inv_step [OF inv i _ keep safe_invD(3) [OF inv] e node_safe_calm [OF e safe_invD(4) [OF inv i] _ _ assms(5-8)]])
      (auto simp: set_node_fun)
qed

lemma safe_higher_term:
  assumes K: "kv_laws K" "serde_laws C" and inv: "safe_inv K C X cf c A G E" and i: "i \<in> cluster_ids cf"
    and t: "current_term (state_of c i) < t" "t \<le> u64_max" and op: "step_down K C t (cl_node c i) = Some n"
    and new: "election_inv K C cf (set_node i n c)"
  shows "safe_inv K C X cf (set_node i n c) A G E"
proof -
  have s: "rn_state n = become_follower t (state_of c i)"
    using persist_hard_state_sel(1) [OF op [unfolded step_down_def]] by simp
  show ?thesis
    using t by (intro safe_calm [OF inv i matching_step_down [OF K safe_invD(1) [OF inv] i t op] new])
      (simp_all add: s log_of_def become_follower_def)
qed

lemma safe_deliver:
  assumes K: "kv_laws K" "serde_laws C" "kv_available K C" and inv: "safe_inv K C X cf c A G E" and i: "i \<in> cluster_ids cf"
    and op: "get_committed_entries (cl_node c i) = (n, es)" and new: "election_inv K C cf (set_node i n c)"
  shows "safe_inv K C X cf (set_node i n c) A G E"
  using op by (intro safe_calm [OF inv i matching_deliver [OF K safe_invD(1) [OF inv] i op] new])
    (auto simp: get_committed_entries_def committed_loop_result log_of_def)

lemma safe_connect:
  assumes inv: "safe_inv K C X cf c A G E" and i: "i \<in> cluster_ids cf"
    and new: "election_inv K C cf (set_node i (connect_to_peers dial has_tls (cl_node c i)) c)"
  shows "safe_inv K C X cf (set_node i (connect_to_peers dial has_tls (cl_node c i)) c) A G E"
proof -
  have "member_ok cf i (cl_node c i)" using election_invD(1) [OF safe_invD(2) [OF inv] i] by (simp add: node_ok_def)
  note k = connect_fold_keeps [OF this subset_refl, of dial has_tls, folded connect_to_peers_def]
  show ?thesis
    using k by (intro safe_calm [OF inv i matching_connect [OF safe_invD(1,2) [OF inv] i] new]) (simp_all add: connect_config)
qed

lemma safe_crash:
  assumes K: "kv_laws K" "kv_available K C" and inv: "safe_inv K C X cf c A G E" and i: "i \<in> cluster_ids cf"
    and op: "rn_storage (cl_node c i) = Some db" "restart K C (rn_config (cl_node c i)) now db = Some n"
    and new: "election_inv K C cf (set_node i n c)"
  shows "safe_inv K C X cf (set_node i n c) A G E"
proof -
  note m = matching_members [OF safe_invD(1) [OF inv] i]
  note r = restart_inv [OF K m(1) op]
  have f: "full (rn_state n)" using r m(2) by (simp add: durable_def full_def)
  have s: "role (rn_state n) = Follower" using op(2) by (auto simp: restart_def new_with_storage_def restored_follower)
  have c0: "snapshot (restored_state q) = None \<Longrightarrow> commit_index (restored_state q) = 0" for q
    by (cases q) (simp_all add: restored_state_def raft_new_def Let_def split: option.splits)
  have "commit_index (rn_state n) = 0"
    using f op(2) by (auto simp: restart_def new_with_storage_def full_def intro!: c0)
  with r s show ?thesis
    by (intro safe_calm [OF inv i matching_crash [OF K safe_invD(1) [OF inv] i op] new]) (simp_all add: durable_def log_of_def)
qed

subsection \<open>Elections\<close>

lemma safe_campaign:
  assumes K: "kv_laws K" "serde_laws C" "kv_available K C" and inv: "safe_inv K C X cf c A G E" and i: "i \<in> cluster_ids cf"
    and bound: "current_term (state_of c i) < u64_max" and op: "begin_election K C (cl_node c i) = Some (n, req)"
    and new: "election_inv K C cf ((set_node i n c)\<lparr>cl_requests := insert req (cl_requests c)\<rparr>)" (is "election_inv K C cf ?c")
  shows "safe_inv K C X cf ?c A G E"
proof -
  note D = safe_invD [OF inv]
  let ?s = "state_of c i" and ?L = "log_of X (state_of c i)"
  note m = matching_members [OF D(1) i] and b = begin_election_votes [OF op K(1,2) bound]
  have wf: "log_wf ?s" and me: "nc_node_id (rn_config (cl_node c i)) = i"
    using m(1) election_invD(1) [OF D(2) i] by (simp_all add: node_inv_def node_ok_def member_ok_def)
  have st: "rn_state n = become_candidate i ?s" using begin_election_result(4) [OF op] me by simp
  have log: "log_of X (rn_state n) = ?L" "commit_index (rn_state n) = commit_index ?s" by (simp_all add: st log_of_def)
  have "req = own_request (cl_node c i)" by (rule begin_election_result(1) [OF op])
  then have r: "vr_term req = Suc (current_term ?s)" "vr_candidate_id req = i"
    "position ?L = (vr_last_log_term req, vr_last_log_index req)"
    using b(8,9) me full_position [OF m(2) wf, of X, symmetric]
    by (simp_all add: own_request_def become_candidate_def last_log_term_def last_log_index_def)
  have e: "evolves X cf c A G E ?c A G E" using b(1) by (intro evolves_same [OF inv]) simp_all
  note N = node_safeD [OF D(4) [OF i]]
  have "node_safe X cf ?c A G E i n"
  proof (rule node_safeI, unfold log b(1))
    show "le_term x \<le> Suc (current_term ?s)" "le_term x < Suc (current_term ?s)" if "x \<in> set ?L" for x
      using N(1) [OF that] by simp_all
    show "position ?L = (vr_last_log_term q, vr_last_log_index q)"
      if "q \<in> cl_requests ?c" "vr_candidate_id q = i" "vr_term q = Suc (current_term ?s)" for q
      using that r(3) D(7) [of q] by auto
    show "t \<le> Suc (current_term ?s) \<and> (prefix (take k (G t)) ?L \<or> overruled ?c E (take k (G t)) t (Suc (current_term ?s)))"
      if "supports X ?c A G i t k" for t k
      using N(7,8) [of t k] that overruled_mono [OF e, of "take k (G t)" t "current_term ?s"] by auto
    show "commit_index ?s = 0 \<or> (\<exists>t. backed X cf ?c A G (Suc (current_term ?s)) ?L (commit_index ?s) t \<and>
        (t = Suc (current_term ?s) \<longrightarrow> supports X ?c A G i (Suc (current_term ?s)) (commit_index ?s)))"
      using N(9) backed_mono [OF e, of "current_term ?s" ?L "commit_index ?s"] by (fastforce simp: backed_def)
  qed (use b(3) in simp_all)
  moreover have "vote_ok X ?c A G E i req"
  proof (rule vote_okI)
    show "prefix (take k (G t)) ?L \<or> overruled ?c E (take k (G t)) t (vr_term req - 1)" if "supports X ?c A G i t k" for t k
      using N(8) [of t k] that overruled_mono [OF e, of "take k (G t)" t "current_term ?s"] r(1) by auto
  qed (use matchingD(1) [OF D(1) i] b(1) r in \<open>simp_all add: member_matches_def\<close>)
  moreover have "matching K C X cf G ?c" using matching_campaign [OF K D(1,2) i bound op] by simp
  ultimately show ?thesis
    using new r b(1) D(3) by (intro safe_inv_step [OF inv i _ _ _ _ e]) (auto simp: set_node_fun ballot_ok_def)
qed

lemma safe_vote:
  assumes K: "kv_laws K" "serde_laws C" "kv_available K C" and inv: "safe_inv K C X cf c A G E" and i: "i \<in> cluster_ids cf"
    and req: "req \<in> cl_requests c" and op: "handle_vote_request K C now req (cl_node c i) = Some (n, r)"
    and new: "election_inv K C cf ((set_node i n c)\<lparr>cl_grants := (if vote_granted r then insert (i, req) else id) (cl_grants c)\<rparr>)"
      (is "election_inv K C cf ?c")
  shows "safe_inv K C X cf ?c A G E"
proof -
  note D = safe_invD [OF inv] and v = vote_request_sel [OF op]
  let ?s = "state_of c i" and ?L = "log_of X (state_of c i)"
  note m = matching_members [OF D(1) i]
  have wf: "log_wf ?s" using m(1) by (simp add: node_inv_def)
  have t: "current_term ?s \<le> current_term (rn_state n)" by (simp add: v rv_term)
  have e: "evolves X cf c A G E ?c A G E" using t by (intro evolves_same [OF inv]) simp_all
  note N = node_safeD [OF D(4) [OF i]]
  have "node_safe X cf ?c A G E i n"
    using t by (intro node_safe_calm [OF e D(4) [OF i]]) (auto simp: v log_of_def rv_role rv_term split: if_splits)
  moreover have "ballot_ok X ?c A G E i req" if g: "vote_granted r"
  proof (cases "\<exists>j. (vr_term req, j) \<in> cl_leaders c")
    case False
    from g have g': "vote_granted (snd (handle_request_vote req ?s))" by (simp add: v)
    then have le: "current_term ?s \<le> vr_term req" "log_le (position ?L) (vr_last_log_term req, vr_last_log_index req)"
      using full_position [OF m(2) wf, of X] by (simp_all add: rv_granted_iff)
    have "overruled c E P t (vr_term req - 1)" if "overruled c E P t (current_term ?s)" for P t
      using that False le(1) unfolding overruled_def by (metis Suc_pred' le_less_trans le_neq_implies_less less_Suc_eq_le order_trans zero_le)
    then have "supports X c A G i t k \<Longrightarrow> prefix (take k (G t)) ?L \<or> overruled ?c E (take k (G t)) t (vr_term req - 1)" for t k
      using N(8) [of t k] overruled_mono [OF e, of "take k (G t)" t "vr_term req - 1"] by blast
    moreover have "follows G ?L" using matchingD(1) [OF D(1) i] by (simp add: member_matches_def)
    moreover have "vr_term req \<le> current_term (rn_state n)" by (simp add: v rv_term)
    ultimately have "vote_ok X ?c A G E i req" using le(2) by (intro vote_okI [of req ?c i G ?L]) simp_all
    then show ?thesis by (simp add: ballot_ok_def)
  qed (auto simp: ballot_ok_def)
  moreover have "matching K C X cf G ?c" using matching_vote [OF K D(1,2) i req op] by simp
  ultimately show ?thesis
    using new D(3) by (intro safe_inv_step [OF inv i _ _ _ _ e]) (auto simp: set_node_fun split: if_splits)
qed

text \<open>The candidate that wins; its log at this time is the one it was elected with.\<close>

lemma winner_state:
  assumes "role (rn_state (finish_election t v n)) = Leader" and "role (rn_state n) = Candidate"
  shows "hm_get (match_index (rn_state (finish_election t v n))) p = Some w \<Longrightarrow> w = 0"
    and "hm_get (next_index (rn_state (finish_election t v n))) p = Some w \<Longrightarrow> w = u64_inc (last_log_index (rn_state n))"
    and "commit_index (rn_state (finish_election t v n)) = commit_index (rn_state n)"
  using assms by (auto simp: finish_election_def Let_def become_leader_def init_peers_get last_log_index_def split: if_splits)

lemma winner_evolves:
  assumes inv: "safe_inv K C X cf c A G E" and fresh: "\<And>j. (t, j) \<notin> cl_leaders c"
    and t: "current_term (state_of c i) = t" "current_term (rn_state n) = t" and g: "grows G (G(t := L))"
  shows "evolves X cf c A G E ((set_node i n c)\<lparr>cl_leaders := insert (t, i) (cl_leaders c)\<rparr>) A (G(t := L)) (E(t := L))"
proof -
  have "supports X c A G q t' k \<or> current_term (state_of c q) \<le> t'"
    if "supports X ((set_node i n c)\<lparr>cl_leaders := insert (t, i) (cl_leaders c)\<rparr>) A (G(t := L)) q t' k" for q t' k
    using that fresh t(1) by (auto simp: supports_def split: if_splits)
  with supports_bound [OF inv] g t fresh show ?thesis by (auto simp: evolves_def)
qed

lemma safe_win:
  assumes K: "kv_laws K" "serde_laws C" "kv_available K C" and inv: "safe_inv K C X cf c A G E" and i: "i \<in> cluster_ids cf"
    and req: "req \<in> cl_requests c" "vr_candidate_id req = i"
    and P: "P \<subseteq> set (peers (cl_node c i))" "\<forall>p \<in> P. (p, req) \<in> cl_grants c"
    and n: "n = finish_election (vr_term req) (Suc (card P)) (cl_node c i)" and win: "role (rn_state n) = Leader" "role (state_of c i) \<noteq> Leader"
    and new: "election_inv K C cf ((set_node i n c)\<lparr>cl_leaders := insert (vr_term req, i) (cl_leaders c)\<rparr>)"
      (is "election_inv K C cf ?c")
  shows "safe_inv K C X cf ?c A (G(vr_term req := log_of X (state_of c i))) (E(vr_term req := log_of X (state_of c i)))"
    (is "safe_inv K C X cf ?c A ?G ?E")
proof -
  note D = safe_invD [OF inv] and w = finish_election_wins [OF win(1) [unfolded n] win(2)]
  let ?s = "state_of c i" and ?t = "vr_term req" and ?L = "log_of X (state_of c i)"
  note N = node_safeD [OF D(4) [OF i]]
  have cur: "current_term (rn_state n) = ?t" "current_term ?s = ?t" and log: "log_of X (rn_state n) = ?L"
    using w(2) by (simp_all add: n finish_election_sel finish_election_log log_of_def)
  have "led X G n = ?G" using win(1) by (simp add: led_def cur log)
  then have mat: "matching K C X cf ?G ?c" and gr: "grows G ?G"
    using matching_count [OF K D(1) i n refl D(2)] new win(1) by (simp_all add: cur)
  have fresh: "(?t, j) \<notin> cl_leaders c" for j using fresh_term [OF D(1) i w(1) new] by (auto simp: cur)
  have e: "evolves X cf c A G E ?c A ?G ?E" by (rule winner_evolves [OF inv fresh cur(2,1) gr])
  have fol: "follows ?G ?L"
    using follows_mono [OF _ gr] matchingD(1) [OF D(1) i] by (simp add: member_matches_def)
  have rank: "ranked ?G"
    using rankedD [OF D(3)] follows_mono [OF _ gr] fol N(1) cur(2) by (auto simp: ranked_def)
  have ok: "vote_ok X ?c A ?G ?E q req" if "q \<in> insert i P" for q
    using that D(7) [OF req(1)] D(8) [of q req] P(2) req(2) fresh vote_ok_mono [OF e] by (auto simp: ballot_ok_def)
  have mem: "member_ok cf i (cl_node c i)" using election_invD(1) [OF D(2) i] by (simp add: node_ok_def)
  have el: "elected_ok X cf ?c A ?G ?E ?t"
    unfolding elected_ok_def
    using fol N(3) [OF w(1) req cur(2) [symmetric]] N(2) [OF w(1)] majority_quorum [OF mem P(1) w(3)] ok cur
    by (auto intro!: exI [of _ req] exI [of _ "insert i P"])
  have wf: "log_wf ?s" "log_offset ?s = 0" using matching_members [OF D(1) i] by (simp_all add: node_inv_def full_def)
  note W = winner_state [OF win(1) [unfolded n] w(1), folded n]
  have "node_safe X cf ?c A ?G ?E i n"
  proof (rule node_safeI, unfold log cur)
    show "le_term x \<le> ?t" if "x \<in> set ?L" for x using N(1) [OF that] cur(2) by simp
    show "peers_tracked n" using finish_election_tracked [OF w(1)] win(1) by (simp add: n)
    show "v = 0 \<or> acked X A p ?t v" if "hm_get (match_index (rn_state n)) p = Some v" for p v using W(1) [OF that] by simp
    show "v \<le> Suc (length ?L)" if "hm_get (next_index (rn_state n)) p = Some v" for p v
      using W(2) [OF that] wf by (simp add: u64_inc_def log_of_def log_wf_last_index)
    show "t \<le> ?t \<and> (prefix (take k (?G t)) ?L \<or> overruled ?c ?E (take k (?G t)) t ?t)" if "supports X ?c A ?G i t k" for t k
    proof (cases "supports X c A G i t k")
      case False
      with that fresh have "t = ?t" by (auto simp: supports_def split: if_splits)
      then show ?thesis by (simp add: take_is_prefix)
    qed (rule kept_mono [OF e D(4) [OF i] _ _ prefix_order.refl], simp_all add: cur)
    show "commit_index (rn_state n) = 0 \<or> (\<exists>t. backed X cf ?c A ?G ?t ?L (commit_index (rn_state n)) t \<and>
        (t = ?t \<longrightarrow> supports X ?c A ?G i ?t (commit_index (rn_state n))))"
      using N(9) backed_mono [OF e _ order_refl prefix_order.refl] supports_mono [OF e] unfolding W(3) cur by blast
  qed (use win in simp_all)
  with mat new rank el e fresh show ?thesis
    by (intro safe_inv_step [OF inv i _ _ _ _ e]) (auto simp: set_node_fun supports_def split: if_splits)
qed

lemma safe_count:
  assumes K: "kv_laws K" "serde_laws C" "kv_available K C" and inv: "safe_inv K C X cf c A G E" and i: "i \<in> cluster_ids cf"
    and req: "req \<in> cl_requests c" "vr_candidate_id req = i"
    and P: "P \<subseteq> set (peers (cl_node c i))" "\<forall>p \<in> P. (p, req) \<in> cl_grants c"
    and n: "n = finish_election (vr_term req) (Suc (card P)) (cl_node c i)"
    and L: "L = (if role (rn_state n) = Leader then insert (current_term (rn_state n), i) else id) (cl_leaders c)"
    and new: "election_inv K C cf ((set_node i n c)\<lparr>cl_leaders := L\<rparr>)"
  shows "\<exists>G E. safe_inv K C X cf ((set_node i n c)\<lparr>cl_leaders := L\<rparr>) A G E"
proof (cases "role (rn_state n) = Leader \<and> role (state_of c i) \<noteq> Leader")
  case True
  then have "current_term (rn_state n) = vr_term req"
    using finish_election_wins(2) [of "vr_term req" "Suc (card P)" "cl_node c i"] by (simp add: n finish_election_sel)
  with True L new have "L = insert (vr_term req, i) (cl_leaders c)"
    "election_inv K C cf ((set_node i n c)\<lparr>cl_leaders := insert (vr_term req, i) (cl_leaders c)\<rparr>)" by simp_all
  with safe_win [OF K inv i req P n _ _ this(2)] True show ?thesis by blast
next
  case False
  then have r: "role (rn_state n) = role (state_of c i)" unfolding n by (intro finish_election_loses) auto
  have L': "L = cl_leaders c"
    using L r election_invD(1) [OF safe_invD(2) [OF inv] i] by (auto simp: n finish_election_sel node_ok_def)
  have s: "(set_node i n c)\<lparr>cl_leaders := cl_leaders c\<rparr> = set_node i n c" by (rule set_node_leaders)
  have "led X G n = G"
    using r matchingD(1) [OF safe_invD(1) [OF inv] i]
    by (auto simp: led_def n finish_election_sel finish_election_log log_of_def member_matches_def leads_ok_def)
  with matching_count(1) [OF K safe_invD(1) [OF inv] i n L safe_invD(2) [OF inv] new]
  have "matching K C X cf G (set_node i n c)" unfolding L' s by simp
  moreover have "match_index (rn_state n) = match_index (state_of c i) \<and> next_index (rn_state n) = next_index (state_of c i) \<and>
      commit_index (rn_state n) = commit_index (state_of c i)"
    using False by (auto simp: n finish_election_def Let_def become_leader_def split: if_splits)
  ultimately have "safe_inv K C X cf (set_node i n c) A G E"
    using r new [unfolded L' s] by (intro safe_calm [OF inv i]) (simp_all add: n finish_election_sel finish_election_log log_of_def)
  then show ?thesis unfolding L' s by blast
qed

subsection \<open>Sending\<close>

text \<open>Nothing but a message is added.\<close>

lemma safe_send:
  assumes inv: "safe_inv K C X cf c A G E" and i: "i \<in> cluster_ids cf" and "request_ok X cf c A G E req"
    and lead: "(ae_term req, j) \<in> cl_leaders c" and msg: "message_ok X G req"
    and new: "election_inv K C cf (c\<lparr>cl_appends := insert (p, req) (cl_appends c)\<rparr>)" (is "election_inv K C cf ?c")
  shows "safe_inv K C X cf ?c A G E"
proof -
  have e: "evolves X cf c A G E ?c A G E" by (intro evolves_same [OF inv]) simp_all
  note D = safe_invD [OF inv]
  have "node_safe X cf ?c A G E i (cl_node c i)"
    by (intro node_safe_calm [OF e D(4) [OF i]]) simp_all
  moreover have "matching K C X cf G ?c" using matching_send [OF D(1), of "(p, req)"] msg by simp
  moreover have "request_ok X cf ?c A G E req" by (rule request_ok_mono [OF e assms(3) lead])
  ultimately show ?thesis using new D(3) by (intro safe_inv_step [OF inv i _ _ _ _ e]) auto
qed

text \<open>What the leader has committed is backed by its own log.\<close>

lemma leader_backed:
  assumes inv: "safe_inv K C X cf c A G E" and i: "i \<in> cluster_ids cf" and lead: "role (state_of c i) = Leader"
  shows "commit_index (state_of c i) = 0 \<or>
      (\<exists>t. backed X cf c A G (current_term (state_of c i)) (G (current_term (state_of c i))) (commit_index (state_of c i)) t)"
    and "(current_term (state_of c i), i) \<in> cl_leaders c" and "G (current_term (state_of c i)) = log_of X (state_of c i)"
proof -
  show G: "G (current_term (state_of c i)) = log_of X (state_of c i)"
    using matchingD(1) [OF safe_invD(1) [OF inv] i] lead by (simp add: member_matches_def leads_ok_def)
  show "(current_term (state_of c i), i) \<in> cl_leaders c"
    using election_invD(1) [OF safe_invD(2) [OF inv] i] lead by (simp add: node_ok_def)
  show "commit_index (state_of c i) = 0 \<or>
      (\<exists>t. backed X cf c A G (current_term (state_of c i)) (G (current_term (state_of c i))) (commit_index (state_of c i)) t)"
    using node_safeD(9) [OF safe_invD(4) [OF inv i]] unfolding G by blast
qed

lemma safe_heartbeat:
  assumes inv: "safe_inv K C X cf c A G E" and i: "i \<in> cluster_ids cf" and m: "(p, req) \<in> set (heartbeat_round (cl_node c i))"
    and new: "election_inv K C cf (c\<lparr>cl_appends := insert (p, req) (cl_appends c)\<rparr>)"
  shows "safe_inv K C X cf (c\<lparr>cl_appends := insert (p, req) (cl_appends c)\<rparr>) A G E"
proof -
  from m have lead: "role (state_of c i) = Leader" and r: "ae_term req = current_term (state_of c i)" "ae_entries req = []"
    "ae_prev_log_index req = 0" "ae_leader_commit req = commit_index (state_of c i)"
    by (auto simp: heartbeat_round_def heartbeat_request_def split: if_splits)
  have "request_ok X cf c A G E req"
    using leader_backed(1) [OF inv i lead] by (simp add: request_ok_def Let_def r established_def new_entries_def)
  then show ?thesis
    using leader_backed(2) [OF inv i lead] new r by (intro safe_send [OF inv i]) (simp_all add: message_ok_def)
qed

text \<open>A leader that is not ahead of itself sends its log from the position on, to the end.\<close>

lemma sent_request:
  assumes X: "uuid_laws X" "chrono_laws X" and wf: "log_wf s" and f: "full s"
    and nx: "hm_get (next_index s) p = Some next" and le: "next \<le> Suc (length (rlog s))"
  shows "established X (append_request X me s next) = length (rlog s)"
    and "map (norm_entry X) (new_entries X (append_request X me s next)) = drop (next - 1) (log_of X s)"
    and "ae_prev_log_index (append_request X me s next) = next - 1" and "ae_term (append_request X me s next) = current_term s"
    and "ae_leader_commit (append_request X me s next) = commit_index s"
proof -
  have new: "new_entries X (append_request X me s next) = map (norm_entry X) (drop (next - 1) (rlog s))"
    by (rule new_entries_sent [OF X(1) full_request_entries [OF wf f nx]])
  show "map (norm_entry X) (new_entries X (append_request X me s next)) = drop (next - 1) (log_of X s)"
    by (simp add: new log_of_def comp_def norm_entry_idem [OF X(2)] drop_map)
  show prev: "ae_prev_log_index (append_request X me s next) = next - 1" and "ae_term (append_request X me s next) = current_term s"
    and "ae_leader_commit (append_request X me s next) = commit_index s"
    by (simp_all add: append_request_def Let_def)
  show "established X (append_request X me s next) = length (rlog s)" using le by (simp add: established_def prev new)
qed

lemma safe_entries:
  assumes X: "uuid_laws X" "chrono_laws X" and inv: "safe_inv K C X cf c A G E" and i: "i \<in> cluster_ids cf"
    and op: "(p, SendEntries req) \<in> set (replicate_to_peers X (cl_node c i))"
    and new: "election_inv K C cf (c\<lparr>cl_appends := insert (p, req) (cl_appends c)\<rparr>)"
  shows "safe_inv K C X cf (c\<lparr>cl_appends := insert (p, req) (cl_appends c)\<rparr>) A G E"
proof -
  note D = safe_invD [OF inv] and r = replicate_entries(1,2) [OF op]
  let ?s = "state_of c i" and ?me = "nc_node_id (rn_config (cl_node c i))"
  note lb = leader_backed [OF inv i r(1)] and m = matching_members [OF D(1) i] and mi = matchingD(1) [OF D(1) i]
  have wf: "log_wf ?s" using m(1) by (simp add: node_inv_def)
  have "p \<in> set (peer_ids (rn_config (cl_node c i)))"
    using election_invD(1) [OF D(2) i] r(2) by (auto simp: node_ok_def member_ok_def)
  then obtain nx where nx: "hm_get (next_index ?s) p = Some nx" using mi r(1) by (auto simp: member_matches_def leads_ok_def)
  have le: "nx \<le> Suc (length (rlog ?s))" using node_safeD(6) [OF D(4) [OF i] r(1) nx] by (simp add: log_of_def)
  have req: "req = append_request X ?me ?s nx" using full_replicate [OF op m(2) nx] by simp
  note q = sent_request [OF X wf m(2) nx le, of ?me, folded req]
  have E: "length (E (current_term ?s)) \<le> length (rlog ?s)"
    using D(9) [OF lb(2)] lb(3) prefix_length_le by (fastforce simp: elected_ok_def log_of_def)
  have "le_term (G (current_term ?s) ! (nx - 1 - 1)) = ae_prev_log_term req" if "0 < nx - 1"
    using full_request_prev [OF wf m(2) nx that] le that by (simp add: req lb(3) log_of_def norm_entry_def)
  with lb(1) E have "request_ok X cf c A G E req" by (simp add: request_ok_def Let_def q lb(3)) (simp add: log_of_def)
  then show ?thesis
    using lb(2) new matching_entries [OF X D(1,2) i op] by (intro safe_send [OF inv i]) (simp_all add: q)
qed

subsection \<open>Receiving\<close>

text \<open>What an accepted request leaves in the log.\<close>

lemma accepted_log:
  assumes inv: "safe_inv K C X cf c A G E" and i: "i \<in> cluster_ids cf" and req: "(i, req) \<in> cl_appends c"
    and ok: "aer_success (snd (handle_append_entries X req (state_of c i)))"
  shows "prefix (take (established X req) (G (ae_term req))) (log_of X (fst (handle_append_entries X req (state_of c i))))"
    and "ae_entries req \<noteq> [] \<Longrightarrow>
      log_of X (fst (handle_append_entries X req (state_of c i))) = take (established X req) (G (ae_term req))"
    and "ae_entries req = [] \<Longrightarrow> log_of X (fst (handle_append_entries X req (state_of c i))) = log_of X (state_of c i)"
proof -
  note D = safe_invD [OF inv]
  let ?s = "state_of c i" and ?G = "G (ae_term req)" and ?p = "ae_prev_log_index req" and ?m = "established X req"
  let ?h = "fst (handle_append_entries X req ?s)"
  have n: "log_wf ?s" "full ?s" "follows G (log_of X ?s)"
    using matchingD(1) [OF D(1) i] by (simp_all add: member_matches_def node_inv_def)
  have r: "?m \<le> length ?G" "?p \<le> ?m" "0 < ?p \<Longrightarrow> le_term (?G ! (?p - 1)) = ae_prev_log_term req"
    "ae_entries req \<noteq> [] \<Longrightarrow> map (norm_entry X) (new_entries X req) = drop ?p (take ?m ?G)"
    using D(5) [OF req] by (simp_all add: request_ok_def established_def Let_def)
  have wf: "request_wf X req ?s" using matchingD(3) [OF D(1) req] n(2) by (auto simp: message_ok_def request_wf_def full_def)
  have p: "take ?p (log_of X ?s) = take ?p ?G" using r by (intro hae_matched(2) [OF n rankedD(1) [OF D(3)] ok]) simp_all
  show same: "log_of X ?h = log_of X ?s" if "ae_entries req = []"
    using hae_success(3) [OF ok] by (simp add: log_of_def accept_entries_heartbeat(1) [OF that])
  show new: "log_of X ?h = take ?m ?G" if ne: "ae_entries req \<noteq> []"
  proof -
    have "log_of X ?h = take ?p (log_of X ?s) @ drop ?p (take ?m ?G)"
      using hae_log [OF n(1) wf ok ne] n(2) by (simp add: log_of_def full_def take_map r(4) [OF ne, symmetric])
    also have "\<dots> = take ?p (take ?m ?G) @ drop ?p (take ?m ?G)" using p r(2) by (simp add: min_def)
    finally show ?thesis by (simp only: append_take_drop_id)
  qed
  show "prefix (take ?m ?G) (log_of X ?h)"
  proof (cases "ae_entries req = []")
    case True
    with p have "take ?m (log_of X ?s) = take ?m ?G" by (simp add: established_def new_entries_def)
    then show ?thesis using same [OF True] by (metis take_is_prefix)
  qed (simp add: new)
qed

text \<open>A refused request cuts the log only at an entry whose term is not the leader's.\<close>

lemma hae_cut:
  assumes fail: "\<not> aer_success (snd (handle_append_entries X req s))" and wf: "log_wf s" and off: "log_offset s = 0"
  shows "rlog (fst (handle_append_entries X req s)) = rlog s \<or>
    0 < ae_prev_log_index req \<and> ae_prev_log_index req \<le> length (rlog s) \<and>
    le_term (rlog s ! (ae_prev_log_index req - 1)) \<noteq> ae_prev_log_term req \<and>
    rlog (fst (handle_append_entries X req s)) = take (ae_prev_log_index req - 1) (rlog s)"
proof (cases "ae_term req < current_term s")
  case False
  obtain s4 ok where p: "prev_log_check req (adopted req s) = (s4, ok)" by force
  with fail False have "\<not> ok" "fst (handle_append_entries X req s) = s4"
    by (auto simp: hae_fresh ae_reply_def Let_def split: if_splits)
  with prev_log_check_fail [of req "adopted req s" s4] p off show ?thesis
    by (auto simp: get_entry_cases [OF wf] log_wf_last_index [OF wf] split: if_splits)
qed (simp add: hae_stale)

text \<open>An initial part of the log that the leader has too outlives a request, unless the request ends before it does.\<close>

lemma append_keeps_prefix:
  assumes inv: "safe_inv K C X cf c A G E" and i: "i \<in> cluster_ids cf" and req: "(i, req) \<in> cl_appends c"
    and P: "prefix P (log_of X (state_of c i))" "prefix P (G (ae_term req))"
    and len: "ae_entries req \<noteq> [] \<Longrightarrow> length P \<le> established X req"
  shows "prefix P (log_of X (fst (handle_append_entries X req (state_of c i))))"
proof (cases "aer_success (snd (handle_append_entries X req (state_of c i)))")
  case True
  note a = accepted_log [OF inv i req True]
  show ?thesis
  proof (cases "ae_entries req = []")
    case False
    with P(2) len show ?thesis by (simp add: a(2) prefix_of_take)
  qed (use a(3) P(1) in simp)
next
  case False
  note D = safe_invD [OF inv]
  let ?s = "state_of c i" and ?G = "G (ae_term req)" and ?p = "ae_prev_log_index req"
  have n: "log_wf ?s" "log_offset ?s = 0"
    using matchingD(1) [OF D(1) i] by (simp_all add: member_matches_def node_inv_def full_def)
  have r: "?p \<le> length ?G" "0 < ?p \<Longrightarrow> le_term (?G ! (?p - 1)) = ae_prev_log_term req"
    using D(5) [OF req] by (auto simp: request_ok_def established_def Let_def)
  show ?thesis
  proof (cases "log_of X (fst (handle_append_entries X req ?s)) = log_of X ?s")
    case neq: False
    with hae_cut [OF False n(1)] n(2) have cut: "rlog (fst (handle_append_entries X req ?s)) = take (?p - 1) (rlog ?s)"
      and mis: "0 < ?p" "?p \<le> length (rlog ?s)" "le_term (rlog ?s ! (?p - 1)) \<noteq> ae_prev_log_term req"
      by (auto simp: log_of_def)
    have "length P \<le> ?p - 1"
    proof (rule ccontr)
      assume "\<not> length P \<le> ?p - 1"
      then have "log_of X ?s ! (?p - 1) = ?G ! (?p - 1)" using P by (auto simp: prefix_def nth_append)
      moreover have "le_term (log_of X ?s ! (?p - 1)) = le_term (rlog ?s ! (?p - 1))"
        using mis(1,2) by (simp add: log_of_def norm_entry_def)
      ultimately show False using mis(1,3) r(2) by simp
    qed
    with prefix_of_take [OF P(1)] show ?thesis by (simp add: log_of_def cut take_map)
  qed (use P(1) in simp)
qed

lemma acked_insert:
  "acked X (insert (p, req, r) A) q t k \<longleftrightarrow>
     acked X A q t k \<or> q = p \<and> aer_success r \<and> ae_term req = t \<and> k \<le> established X req"
  unfolding acked_def by blast

lemma request_leader:
  assumes inv: "safe_inv K C X cf c A G E" and req: "(i, req) \<in> cl_appends c"
  shows "(ae_term req, ae_leader_id req) \<in> cl_leaders c" and "(ae_term req, i) \<notin> cl_leaders c" and "ae_term req \<le> u64_max"
    and "elected_ok X cf c A G E (ae_term req)"
proof -
  have s: "sent_ok c i (ae_term req) (ae_leader_id req)" by (rule election_invD(7) [OF safe_invD(2) [OF inv] req])
  then show l: "(ae_term req, ae_leader_id req) \<in> cl_leaders c" and "ae_term req \<le> u64_max" by (simp_all add: sent_ok_def)
  show "(ae_term req, i) \<notin> cl_leaders c"
    using s election_invD(5) [OF safe_invD(2) [OF inv] l, of i] by (auto simp: sent_ok_def)
  show "elected_ok X cf c A G E (ae_term req)" by (rule safe_invD(9) [OF inv l])
qed

text \<open>A log elected before outlives the first request of a new leader that was elected with it.\<close>

lemma append_keeps_elected:
  assumes inv: "safe_inv K C X cf c A G E" and i: "i \<in> cluster_ids cf" and req: "(i, req) \<in> cl_appends c"
    and P: "prefix P (log_of X (state_of c i))" "prefix P (E (ae_term req))"
  shows "prefix P (log_of X (fst (handle_append_entries X req (state_of c i))))"
proof (rule append_keeps_prefix [OF inv i req P(1)])
  show "prefix P (G (ae_term req))"
    using request_leader(4) [OF inv req] P(2) by (auto simp: elected_ok_def intro: prefix_order.trans)
  show "length P \<le> established X req" if "ae_entries req \<noteq> []"
    using safe_invD(5) [OF inv req] that prefix_length_le [OF P(2)] by (simp add: request_ok_def Let_def)
qed

text \<open>What a node supports stays in its log, or is overruled by the sender.\<close>

lemma append_keeps_support:
  assumes inv: "safe_inv K C X cf c A G E" and i: "i \<in> cluster_ids cf" and req: "(i, req) \<in> cl_appends c"
    and del: "deliverable X A i (state_of c i) req" and s: "supports X c A G i t k" and t: "t \<le> ae_term req"
    and P: "prefix (take k (G t)) (log_of X (state_of c i))"
  shows "prefix (take k (G t)) (log_of X (fst (handle_append_entries X req (state_of c i)))) \<or>
    overruled c E (take k (G t)) t (ae_term req)"
proof (cases "t = ae_term req")
  case True
  with s request_leader(2) [OF inv req] have "acked X A i (ae_term req) k" by (simp add: supports_def)
  with del have "ae_entries req \<noteq> [] \<Longrightarrow> k \<le> established X req" by (simp add: deliverable_def)
  with append_keeps_prefix [OF inv i req P] True show ?thesis by (simp add: take_is_prefix min_le_iff_disj)
next
  case False
  with t have "t < ae_term req" by simp
  then show ?thesis
    using append_keeps_elected [OF inv i req P] request_leader(1) [OF inv req] unfolding overruled_def by blast
qed

text \<open>A commit index that the leader announces is one up to which the logs agree.\<close>

lemma append_commit_announced:
  assumes inv: "safe_inv K C X cf c A G E" and i: "i \<in> cluster_ids cf" and req: "(i, req) \<in> cl_appends c"
    and del: "deliverable X A i (state_of c i) req" and ok: "aer_success (snd (handle_append_entries X req (state_of c i)))"
    and more: "commit_index (state_of c i) < ae_leader_commit req"
  shows "prefix (take (ae_leader_commit req) (G (ae_term req))) (log_of X (fst (handle_append_entries X req (state_of c i))))"
    and "acked X A i (ae_term req) (ae_leader_commit req) \<or> ae_leader_commit req \<le> established X req"
proof -
  let ?k = "ae_leader_commit req" and ?G = "G (ae_term req)" and ?h = "fst (handle_append_entries X req (state_of c i))"
  show d: "acked X A i (ae_term req) ?k \<or> ?k \<le> established X req" using del more by (auto simp: deliverable_def)
  show "prefix (take ?k ?G) (log_of X ?h)"
  proof (cases "?k \<le> established X req")
    case True
    then have "prefix (take ?k ?G) (take (established X req) ?G)" by (metis min.absorb1 take_is_prefix take_take)
    with accepted_log(1) [OF inv i req ok] show ?thesis by (rule prefix_order.trans [rotated])
  next
    case False
    with d have s: "supports X c A G i (ae_term req) ?k" by (simp add: supports_def)
    have u: "\<not> overruled c E P (ae_term req) u" if "u \<le> ae_term req" for P u using that by (auto simp: overruled_def)
    have "prefix (take ?k ?G) (log_of X (state_of c i))"
      using node_safeD(8) [OF safe_invD(4) [OF inv i] s] u [OF hae_success(1) [OF ok]] by blast
    from append_keeps_support [OF inv i req del s order_refl this] u [OF order_refl] show ?thesis by blast
  qed
qed

lemma append_commit:
  assumes inv: "safe_inv K C X cf c A G E" and i: "i \<in> cluster_ids cf" and req: "(i, req) \<in> cl_appends c"
    and del: "deliverable X A i (state_of c i) req" and t: "current_term (state_of c i) \<le> ae_term req"
    and h: "h = handle_append_entries X req (state_of c i)" and wf: "last_log_index (fst h) = length (log_of X (fst h))"
    and c: "commit_index (fst h) \<noteq> 0"
  shows "\<exists>t. backed X cf c A G (ae_term req) (log_of X (fst h)) (commit_index (fst h)) t \<and>
    (t = ae_term req \<longrightarrow> acked X (insert (i, req, snd h) A) i (ae_term req) (commit_index (fst h)))"
proof (cases "aer_success (snd h) \<and> commit_index (state_of c i) < ae_leader_commit req")
  case True
  let ?k = "ae_leader_commit req" and ?G = "G (ae_term req)"
  note a = append_commit_announced [OF inv i req del True [unfolded h, THEN conjunct1] conjunct2 [OF True], folded h]
  from True safe_invD(5) [OF inv req] obtain u where b: "backed X cf c A G (ae_term req) ?G ?k u"
    by (auto simp: request_ok_def Let_def)
  then have "?k \<le> length (G u)" "prefix (take ?k (G u)) ?G" by (auto simp: backed_def chosen_def)
  then have k: "?k \<le> length ?G" and eq: "take ?k (G u) = take ?k ?G"
    by (auto simp: prefix_def)
  have "commit_index (fst h) = min ?k (last_log_index (fst h))" using hae_commit True by (simp add: h)
  also have "\<dots> = ?k" using prefix_length_le [OF a(1)] k by (simp add: wf)
  finally have ci: "commit_index (fst h) = ?k" .
  have "backed X cf c A G (ae_term req) (log_of X (fst h)) ?k u" using b a(1) by (simp add: backed_def eq)
  moreover have "acked X (insert (i, req, snd h) A) i (ae_term req) ?k" using a(2) True by (auto simp: acked_insert)
  ultimately show ?thesis unfolding ci by blast
next
  case False
  let ?s = "state_of c i" and ?k = "commit_index (state_of c i)"
  have ci: "commit_index (fst h) = ?k" using False hae_commit [of X req ?s] hae_failure(4) [of X req ?s] by (auto simp: h)
  with c node_safeD(9) [OF safe_invD(4) [OF inv i]] obtain u
    where b: "backed X cf c A G (current_term ?s) (log_of X ?s) ?k u"
      and s: "u = current_term ?s \<Longrightarrow> supports X c A G i (current_term ?s) ?k" by auto
  then obtain k' where u: "u \<le> current_term ?s" and P: "prefix (take ?k (G u)) (log_of X ?s)" and k': "?k \<le> k'" "chosen X cf c A G u k'"
    by (auto simp: backed_def)
  have "prefix (take ?k (G u)) (log_of X (fst h))"
  proof (cases "u = ae_term req")
    case True
    with u t s have "supports X c A G i u ?k" by simp
    from append_keeps_support [OF inv i req del this _ P] True show ?thesis by (auto simp: h overruled_def)
  next
    case False
    with u t have "u < ae_term req" by simp
    from chosen_kept [OF inv k'(2) request_leader(1) [OF inv req] this]
    have "prefix (take ?k (G u)) (E (ae_term req))"
      using k'(1) by (metis min.absorb1 prefix_order.trans take_is_prefix take_take)
    from append_keeps_elected [OF inv i req P this] show ?thesis by (simp add: h)
  qed
  with u t k' have "backed X cf c A G (ae_term req) (log_of X (fst h)) ?k u" by (auto simp: backed_def)
  moreover have "acked X (insert (i, req, snd h) A) i (ae_term req) ?k" if "u = ae_term req"
    using that u t s request_leader(2) [OF inv req] by (auto simp: supports_def acked_insert)
  ultimately show ?thesis unfolding ci by blast
qed

lemma append_log_set:
  assumes inv: "safe_inv K C X cf c A G E" and i: "i \<in> cluster_ids cf" and req: "(i, req) \<in> cl_appends c"
  shows "set (log_of X (fst (handle_append_entries X req (state_of c i)))) \<subseteq> set (log_of X (state_of c i)) \<union> set (G (ae_term req))"
proof (cases "aer_success (snd (handle_append_entries X req (state_of c i)))")
  case True
  note a = accepted_log(2,3) [OF inv i req True]
  show ?thesis by (cases "ae_entries req = []") (auto simp: a dest: in_set_takeD)
next
  case False
  from hae_failure(1) [OF this] show ?thesis by (auto simp: log_of_def intro!: imageI dest: in_set_takeD)
qed

lemma append_reply:
  assumes "handle_append_entries_node K C X now req n = Some (n', r)"
  shows "r = snd (handle_append_entries X req (rn_state n))"
  using assms by (auto simp: handle_append_entries_node_def Let_def split_beta bind_eq_Some_conv)

lemma safe_append:
  assumes K: "kv_laws K" "serde_laws C" "kv_available K C" and inv: "safe_inv K C X cf c A G E" and i: "i \<in> cluster_ids cf"
    and req: "(i, req) \<in> cl_appends c" and del: "deliverable X A i (state_of c i) req"
    and op: "handle_append_entries_node K C X now req (cl_node c i) = Some (n, r)"
    and new: "election_inv K C cf (set_node i n c)"
  shows "safe_inv K C X cf (set_node i n c) (insert (i, req, r) A) G E" (is "safe_inv K C X cf ?c ?A G E")
proof -
  note D = safe_invD [OF inv] and sel = append_entries_node_sel(1,2) [OF op] and N = node_safeD [OF D(4) [OF i]]
  let ?s = "state_of c i" and ?h = "handle_append_entries X req (state_of c i)" and ?t = "ae_term req"
  have r: "r = snd ?h" by (rule append_reply [OF op])
  have mat: "matching K C X cf G ?c" by (rule matching_append [OF K D(1,2) i req op])
  have sup: "supports X c ?A G q t k \<longleftrightarrow> supports X c A G q t k \<or> q = i \<and> aer_success r \<and> ?t = t \<and> k \<le> established X req" for q t k
    by (auto simp: supports_def acked_insert)
  have e: "evolves X cf c A G E ?c ?A G E"
    using supports_bound [OF inv] hae_success(1) [of X req ?s, folded r] by (auto simp: evolves_def sup sel hae_term)
  have "node_safe X cf ?c ?A G E i n"
  proof (cases "?t < current_term ?s")
    case True
    then have "rn_state n = ?s" "\<not> aer_success r" by (simp_all add: sel r hae_stale ae_reply_def)
    then show ?thesis by (intro node_safe_calm [OF e D(4) [OF i]]) (simp_all add: sup sel(2))
  next
    case False
    then have t: "current_term ?s \<le> ?t" and cur: "current_term (rn_state n) = ?t" by (simp_all add: sel hae_term)
    have m: "log_wf (rn_state n)" "full (rn_state n)" using matching_members [OF mat i] by (simp_all add: node_inv_def)
    show ?thesis
    proof (rule node_safeI, unfold cur)
      show "le_term x \<le> ?t" if "x \<in> set (log_of X (rn_state n))" for x
        using that append_log_set [OF inv i req] N(1) [of x] rankedD(2) [OF D(3), of x ?t] t unfolding sel by fastforce
      show "t' \<le> ?t \<and> (prefix (take k (G t')) (log_of X (rn_state n)) \<or> overruled ?c E (take k (G t')) t' ?t)"
        if s: "supports X ?c ?A G i t' k" for t' k
      proof (cases "supports X c A G i t' k")
        case True
        with N(7) t have t': "t' \<le> ?t" by fastforce
        from N(8) [OF True] append_keeps_support [OF inv i req del True t'] t t' overruled_mono [OF e] show ?thesis
          unfolding sel by blast
      next
        case False
        with s have n: "aer_success r" "?t = t'" "k \<le> established X req" by (simp_all add: sup)
        have "prefix (take k (G t')) (take (established X req) (G t'))" using n(3) by (metis min.absorb1 take_is_prefix take_take)
        then show ?thesis
          using n accepted_log(1) [OF inv i req] prefix_order.trans by (auto simp: sel r)
      qed
      show "commit_index (rn_state n) = 0 \<or> (\<exists>t. backed X cf ?c ?A G ?t (log_of X (rn_state n)) (commit_index (rn_state n)) t \<and>
          (t = ?t \<longrightarrow> supports X ?c ?A G i ?t (commit_index (rn_state n))))"
      proof (cases "commit_index (rn_state n) = 0")
        case False
        have "last_log_index (rn_state n) = length (log_of X (rn_state n))"
          using m by (simp add: log_wf_last_index full_def log_of_def)
        with append_commit [OF inv i req del t refl] False obtain u
          where b: "backed X cf c A G ?t (log_of X (rn_state n)) (commit_index (rn_state n)) u"
            and s: "u = ?t \<longrightarrow> acked X ?A i ?t (commit_index (rn_state n))" by (auto simp: sel r)
        from s have "u = ?t \<longrightarrow> supports X ?c ?A G i ?t (commit_index (rn_state n))" by (simp add: supports_def)
        with backed_mono [OF e b order_refl prefix_order.refl] show ?thesis by blast
      qed simp
    qed (use hae_follower(1) [OF t] in \<open>simp_all add: sel\<close>)
  qed
  with mat new D(3) req show ?thesis
    by (intro safe_inv_step [OF inv i _ _ _ _ e]) (auto simp: set_node_fun sup i)
qed

text \<open>A leader appends a command.\<close>

lemma safe_propose:
  assumes K: "kv_laws K" "serde_laws C" "kv_available K C" and X: "chrono_laws X" and inv: "safe_inv K C X cf c A G E"
    and i: "i \<in> cluster_ids cf" and room: "last_log_index (state_of c i) < u64_max"
    and op: "handle_append_command K C cmd (cl_node c i) = Some (n, res)" and new: "election_inv K C cf (set_node i n c)"
  shows "\<exists>G. safe_inv K C X cf (set_node i n c) A G E"
proof -
  note D = safe_invD [OF inv] and N = node_safeD [OF D(4) [OF i]]
  let ?s = "state_of c i" and ?t = "current_term (state_of c i)"
  have s: "rn_state n = (if role ?s = Leader then fst (append_entry cmd ?s) else ?s)"
    using op by (auto simp: handle_append_command_def append_command_def persist_entry_def Let_def split_beta
        dest!: with_storage_sel(1) split: if_splits)
  have cf: "rn_config n = rn_config (cl_node c i)" using append_command_quiet [OF K(1) op] by (simp add: quiet_def)
  have full: "full (rn_state n)" using matching_members(2) [OF D(1) i] by (simp add: s full_def append_entry_def Let_def)
  note mat = matching_propose [OF K X D(1) i room op new full]
  show ?thesis
  proof (cases "role ?s = Leader")
    case False
    then have "led X G n = G" by (simp add: led_def s)
    with mat(1) False have "safe_inv K C X cf (set_node i n c) A G E" by (intro safe_calm [OF inv i _ new]) (simp_all add: s cf)
    then show ?thesis by blast
  next
    case True
    let ?e = "norm_entry X (snd (append_entry cmd ?s))" and ?G = "led X G n"
    have L: "log_of X (rn_state n) = log_of X ?s @ [?e]" "le_term ?e = ?t" and st: "role (rn_state n) = Leader"
      "current_term (rn_state n) = ?t" "match_index (rn_state n) = match_index ?s" "next_index (rn_state n) = next_index ?s"
      "commit_index (rn_state n) = commit_index ?s"
      using True by (simp_all add: s log_of_def append_entry_def Let_def norm_entry_def)
    note lb = leader_backed(2,3) [OF inv i True]
    have G: "?G = G(?t := log_of X (rn_state n))" using st by (simp add: led_def)
    have only: "(?t, q) \<in> cl_leaders c \<Longrightarrow> q = i" for q using election_invD(5) [OF D(2) lb(1), of q] by simp
    have sup: "supports X c A ?G q t k \<Longrightarrow> supports X c A G q t k \<or> q = i \<and> t = ?t" for q t k
      using only by (auto simp: supports_def G split: if_splits)
    have e: "evolves X cf c A G E (set_node i n c) A ?G E"
      using supports_bound [OF inv] mat(2) st(2) sup by (fastforce simp: evolves_def)
    have "follows ?G (log_of X (rn_state n))"
      using matchingD(1) [OF mat(1) i] by (simp add: member_matches_def)
    then have rank: "ranked ?G"
      using rankedD [OF D(3)] follows_mono [OF _ mat(2)] N(1) L by (auto simp: ranked_def G)
    have "node_safe X cf (set_node i n c) A ?G E i n"
    proof (rule node_safeI, unfold st)
      show "le_term x \<le> ?t" if "x \<in> set (log_of X (rn_state n))" for x using that N(1) [of x] L by auto
      show "peers_tracked n" using N(4) [OF True] by (simp add: peers_tracked_def st cf)
      show "v = 0 \<or> acked X A p ?t v" if "hm_get (match_index ?s) p = Some v" for p v by (rule N(5) [OF True that])
      show "v \<le> Suc (length (log_of X (rn_state n)))" if "hm_get (next_index ?s) p = Some v" for p v
        using N(6) [OF True that] L(1) by simp
      show "t \<le> ?t \<and> (prefix (take k (?G t)) (log_of X (rn_state n)) \<or> overruled (set_node i n c) E (take k (?G t)) t ?t)"
        if "supports X (set_node i n c) A ?G i t k" for t k
      proof (cases "t = ?t")
        case False
        with that sup [of i t k] have "supports X c A G i t k" by simp
        then show ?thesis by (rule kept_mono [OF e D(4) [OF i]]) (simp_all add: L(1))
      qed (simp add: G take_is_prefix)
      show "commit_index ?s = 0 \<or> (\<exists>t. backed X cf (set_node i n c) A ?G ?t (log_of X (rn_state n)) (commit_index ?s) t \<and>
          (t = ?t \<longrightarrow> supports X (set_node i n c) A ?G i ?t (commit_index ?s)))"
        using N(9) backed_mono [OF e _ order_refl, of ?t "log_of X ?s" "commit_index ?s" _ "log_of X (rn_state n)"] supports_mono [OF e]
        unfolding L(1) by fastforce
    qed (use st in simp_all)
    with mat(1) new rank sup have "safe_inv K C X cf (set_node i n c) A ?G E"
      by (intro safe_inv_step [OF inv i _ _ _ _ e]) (auto simp: set_node_fun)
    then show ?thesis by blast
  qed
qed

subsection \<open>Counting answers\<close>

text \<open>What an answer does to a leader that stays leader.\<close>

lemma leader_answer:
  assumes op: "append_answer K C now p r n = Some n'" and lead: "role (rn_state n) = Leader"
    and t: "\<not> current_term (rn_state n) < aer_term r"
  shows "role (rn_state n') = Leader" "current_term (rn_state n') = current_term (rn_state n)"
    and "rlog (rn_state n') = rlog (rn_state n)" "log_offset (rn_state n') = log_offset (rn_state n)" "rn_config n' = rn_config n"
    and "hm_get (match_index (rn_state n')) q = Some v \<Longrightarrow>
      hm_get (match_index (rn_state n)) q = Some v \<or> aer_success r \<and> q = p \<and> v = aer_match_index r"
    and "hm_get (next_index (rn_state n')) q = Some v \<Longrightarrow>
      (\<exists>w. hm_get (next_index (rn_state n)) q = Some w \<and> v \<le> w) \<or> v = 0 \<or> aer_success r \<and> q = p \<and> v = u64_inc (aer_match_index r)"
  using assms
  by (auto simp: append_answer_def Let_def advance_commit_def saw_peer_def split: if_splits option.splits)

text \<open>The code itself counts an answer whatever the term of the request was.\<close>

lemma old_answer_counts:
  assumes "append_answer K C now p r n = Some n'" and "role (rn_state n) = Leader" and "aer_success r"
    and "aer_term r < current_term (rn_state n)"
  shows "hm_get (match_index (rn_state n')) p = Some (aer_match_index r)"
  using assms by (auto simp: append_answer_def saw_peer_def advance_commit_def Let_def split: option.splits)

lemma answer_chosen:
  assumes inv: "safe_inv K C X cf c A G E" and i: "i \<in> cluster_ids cf" and odd: "odd (card (cluster_ids cf))"
    and op: "append_answer K C now p r (cl_node c i) = Some n" and lead: "role (state_of c i) = Leader"
    and t: "\<not> current_term (state_of c i) < aer_term r" and p: "p \<in> set (peer_ids (rn_config (cl_node c i)))"
    and match: "\<And>q v. hm_get (match_index (rn_state n)) q = Some v \<Longrightarrow> v = 0 \<or> acked X A q (current_term (state_of c i)) v"
    and moved: "commit_index (rn_state n) \<noteq> commit_index (state_of c i)"
  shows "chosen X cf c A G (current_term (state_of c i)) (commit_index (rn_state n))"
proof -
  note D = safe_invD [OF inv] and st = leader_answer [OF op lead t]
  let ?s = "state_of c i" and ?t = "current_term (state_of c i)" and ?k = "commit_index (rn_state n)"
  have mem: "member_ok cf i (cl_node c i)" using election_invD(1) [OF D(2) i] by (simp add: node_ok_def)
  then have cf: "config_wf (rn_config (cl_node c i))" "cluster_ids (rn_config (cl_node c i)) = cluster_ids cf"
    "nc_node_id (rn_config (cl_node c i)) = i" by (simp_all add: member_ok_def)
  have wf: "log_wf ?s" "full ?s" using matching_members [OF D(1) i] by (simp_all add: node_inv_def)
  note lb = leader_backed(2,3) [OF inv i lead]
  from answer_commits [OF op cf(1) node_safeD(4) [OF D(4) [OF i] lead] p moved] odd
  obtain e where less: "commit_index ?s < ?k" and e: "get_entry (rn_state n) ?k = Some e" "le_term e = ?t"
    and Q: "holders i (rn_state n) ?k \<subseteq> cluster_ids cf" "is_quorum cf (holders i (rn_state n) ?k)"
    unfolding cf st(2) by (auto simp: is_quorum_def cf)
  have "get_entry ?s ?k = Some e" using e(1) log_fields_get(1) [OF st(3,4)] by simp
  then have k: "?k \<le> length (rlog ?s)" "e = rlog ?s ! (?k - 1)"
    using wf(2) by (auto simp: full_def get_entry_cases [OF wf(1)] log_wf_last_index [OF wf(1)] split: if_splits)
  then have G: "?k \<le> length (G ?t)" "le_term (G ?t ! (?k - 1)) = ?t"
    using less e(2) by (simp_all add: lb(2) log_of_def norm_entry_def)
  have "supports X c A G q ?t ?k" if "q \<in> holders i (rn_state n) ?k" for q
  proof (cases "q = i")
    case False
    with that obtain v where "hm_get (match_index (rn_state n)) q = Some v" "?k \<le> v" by (auto simp: holders_def split: if_splits)
    with match [of q v] less show ?thesis by (auto simp: supports_def intro: acked_le)
  qed (use lb(1) G(1) in \<open>simp add: supports_def\<close>)
  moreover have "0 < ?k" using less by simp
  ultimately show ?thesis using G Q unfolding chosen_def by blast
qed

lemma safe_append_ack:
  assumes K: "kv_laws K" "serde_laws C" "kv_available K C" and inv: "safe_inv K C X cf c A G E" and i: "i \<in> cluster_ids cf"
    and odd: "odd (card (cluster_ids cf))" and ans: "(p, req, r) \<in> A" "ae_leader_id req = i" and u: "aer_term r \<le> u64_max"
    and ok: "countable_answer X (state_of c i) req r" and op: "append_answer K C now p r (cl_node c i) = Some n"
    and new: "election_inv K C cf (set_node i n c)"
  shows "safe_inv K C X cf (set_node i n c) A G E" (is "safe_inv K C X cf ?c A G E")
proof -
  note D = safe_invD [OF inv] and N = node_safeD [OF D(4) [OF i]]
  note mat = matching_append_ack [OF K D(1) i u op]
  let ?s = "state_of c i" and ?t = "current_term (state_of c i)" and ?L = "log_of X (state_of c i)"
  have log: "log_of X (rn_state n) = ?L" by (simp add: log_of_def append_answer_calm(1) [OF op])
  show ?thesis
  proof (cases "role ?s = Leader \<and> \<not> ?t < aer_term r")
    case False
    then have "rn_state n = ?s \<or> ?t < aer_term r \<and> rn_state n = become_follower (aer_term r) ?s"
      using op by (auto simp: append_answer_def Let_def saw_peer_def step_down_def dest!: persist_hard_state_sel(1) split: if_splits)
    with mat log show ?thesis
      using append_answer_match(1) [OF op] by (intro safe_calm [OF inv i _ new]) (auto simp: become_follower_def)
  next
    case True
    note st = leader_answer [OF op conjunct1 [OF True] conjunct2 [OF True]] and lb = leader_backed(2,3) [OF inv i conjunct1 [OF True]]
    have e: "evolves X cf c A G E ?c A G E" using st(2) by (intro evolves_same [OF inv]) simp_all
    have mem: "member_ok cf i (cl_node c i)" using election_invD(1) [OF D(2) i] by (simp add: node_ok_def)
    have p: "p \<in> set (peer_ids (rn_config (cl_node c i)))"
      using D(6) [OF ans(1)] election_invD(7) [OF D(2), of p req] ans(2) mem
      by (auto simp: sent_ok_def member_ok_def cluster_ids_def)
    have est: "aer_match_index r \<le> established X req" "acked X A p ?t (aer_match_index r)" "established X req \<le> length ?L"
      if "aer_success r"
      using ok that ans(1) supports_bound [OF inv, of p ?t] lb(2) by (auto simp: countable_answer_def acked_def supports_def)
    have match: "v = 0 \<or> acked X A q ?t v" if "hm_get (match_index (rn_state n)) q = Some v" for q v
      using st(6) [OF that] N(5) [OF conjunct1 [OF True], of q v] est(2) by blast
    have "node_safe X cf ?c A G E i n"
    proof (rule node_safeI, unfold log st(1,2))
      show "le_term x \<le> ?t" if "x \<in> set ?L" for x by (rule N(1) [OF that])
      show "peers_tracked n" by (rule append_answer_tracked [OF op N(4) p]) (use True in simp)
      show "v = 0 \<or> acked X A q ?t v" if "hm_get (match_index (rn_state n)) q = Some v" for q v by (rule match [OF that])
      show "v \<le> Suc (length ?L)" if "hm_get (next_index (rn_state n)) q = Some v" for q v
        using st(7) [OF that] N(6) [OF conjunct1 [OF True], of q] est(1,3) by (fastforce simp: u64_inc_def)
      show "t \<le> ?t \<and> (prefix (take k (G t)) ?L \<or> overruled ?c E (take k (G t)) t ?t)" if "supports X ?c A G i t k" for t k
        using that by (intro kept_mono [OF e D(4) [OF i]]) simp_all
      show "commit_index (rn_state n) = 0 \<or> (\<exists>t. backed X cf ?c A G ?t ?L (commit_index (rn_state n)) t \<and>
          (t = ?t \<longrightarrow> supports X ?c A G i ?t (commit_index (rn_state n))))"
      proof (cases "commit_index (rn_state n) = commit_index ?s")
        case same: True
        from N(9) backed_mono [OF e _ order_refl prefix_order.refl] supports_mono [OF e] show ?thesis unfolding same by blast
      next
        case False
        from answer_chosen [OF inv i odd op conjunct1 [OF True] conjunct2 [OF True] p match False]
        have ch: "chosen X cf ?c A G ?t (commit_index (rn_state n))" by (rule chosen_mono [OF e])
        then have "backed X cf ?c A G ?t ?L (commit_index (rn_state n)) ?t" by (auto simp: backed_def lb(2) take_is_prefix)
        moreover have "supports X ?c A G i ?t (commit_index (rn_state n))" using ch lb(1) by (simp add: chosen_def supports_def)
        ultimately show ?thesis by blast
      qed
    qed (use st in simp_all)
    with mat new D(3) show ?thesis by (intro safe_inv_step [OF inv i _ _ _ _ e]) (auto simp: set_node_fun)
  qed
qed

section \<open>Every run\<close>

lemma safe_step:
  assumes "run_step True K C X cf c A c' A'" and K: "kv_laws K" "serde_laws C" "kv_available K C"
    and X: "uuid_laws X" "chrono_laws X" and odd: "odd (card (cluster_ids cf))" and inv: "safe_inv K C X cf c A G E"
  shows "\<exists>G E. safe_inv K C X cf c' A' G E"
proof -
  have new: "election_inv K C cf c'" by (rule inv_step [OF run_step_cluster [OF assms(1)] safe_invD(2) [OF inv] K(1,2)])
  from assms(1) new show ?thesis
  proof cases
    case (campaign i n req)
    show ?thesis using safe_campaign [OF K inv campaign(3-5)] new campaign(1,2) by blast
  next
    case (vote i req now n r)
    show ?thesis using safe_vote [OF K inv vote(3,4,6)] new vote(1,2) by blast
  next
    case (count i req P n)
    show ?thesis unfolding count(1,2) by (rule safe_count [OF K inv count(3-8) refl new [unfolded count(1)]])
  next
    case (higher_term i t n)
    show ?thesis using safe_higher_term [OF K(1,2) inv higher_term(3-6)] new higher_term(1,2) by blast
  next
    case (heartbeat i m)
    show ?thesis
      using safe_heartbeat [OF inv heartbeat(3), of "fst m" "snd m"] heartbeat(4) new heartbeat(1,2) unfolding prod.collapse by blast
  next
    case (send_entries i p req)
    show ?thesis using safe_entries [OF X inv send_entries(3,4)] new send_entries(1,2) by blast
  next
    case (append i req now n r)
    show ?thesis using safe_append [OF K inv append(3,4) _ append(6)] append(5) new append(1,2) by blast
  next
    case (append_ack i p req r now n)
    show ?thesis
      using safe_append_ack [OF K inv append_ack(3) odd append_ack(4-6) _ append_ack(8)] append_ack(7) new append_ack(1,2) by blast
  next
    case (propose i cmd n res)
    show ?thesis using safe_propose [OF K X(2) inv propose(3-5)] new propose(1,2) by blast
  next
    case (deliver i n es)
    show ?thesis using safe_deliver [OF K inv deliver(3,4)] new deliver(1,2) by blast
  next
    case (connect i n dial has_tls)
    show ?thesis using safe_connect [OF inv connect(3)] new connect(1,2,4) by blast
  next
    case (crash i db now n)
    show ?thesis using safe_crash [OF K(1,3) inv crash(3-5)] new crash(1,2) by blast
  qed
qed

lemma safe_initial:
  assumes "initial K cf c"
  shows "safe_inv K C X cf c {} (\<lambda>t. []) E"
proof -
  have e: "cl_leaders c = {}" "cl_appends c = {}" "cl_requests c = {}" "cl_grants c = {}"
    using assms by (simp_all add: initial_def)
  have "node_safe X cf c {} (\<lambda>t. []) E i (cl_node c i)" if "i \<in> cluster_ids cf" for i
  proof -
    have "state_of c i = raft_new" using assms that by (auto simp: initial_def)
    then show ?thesis by (simp add: node_safe_def Let_def supports_def acked_def e raft_new_def log_of_def)
  qed
  then show ?thesis
    using matching_initial [OF assms] inv_initial [OF assms] by (simp add: safe_inv_def e ranked_def)
qed

lemma run_safe:
  assumes "run True K C X cf c A" and "kv_laws K" "serde_laws C" "kv_available K C" and "uuid_laws X" "chrono_laws X"
    and "odd (card (cluster_ids cf))"
  shows "\<exists>G E. safe_inv K C X cf c A G E"
  using assms(1)
proof (induction rule: run.induct)
  case (start c)
  from safe_initial [OF this] show ?case by blast
next
  case (step c A c' A')
  then show ?case using safe_step [OF step(2) assms(2-7)] by blast
qed

text \<open>Two backed prefixes of logs agree.\<close>

lemma backed_agree:
  assumes inv: "safe_inv K C X cf c A G E" and b: "backed X cf c A G u L k t" "backed X cf c A G u' L' k' t'"
    and m: "m \<le> k" "m \<le> k'"
  shows "take m L = take m L' \<and> m \<le> length L"
proof -
  have one: "take m M = take m (G v') \<and> m \<le> length M"
    if x: "backed X cf c A G w M l v" and y: "backed X cf c A G w' M' l' v'" and le: "m \<le> l" "v \<le> v'" for w M l v w' M' l' v'
  proof -
    from x obtain j where P: "prefix (take l (G v)) M" and j: "l \<le> j" "chosen X cf c A G v j" by (auto simp: backed_def)
    then have len: "m \<le> length (G v)" "l \<le> length (G v)" using le(1) by (auto simp: chosen_def)
    from P le(1) len have "take m M = take m (G v) \<and> m \<le> length M" by (auto simp: prefix_def)
    moreover have "take m (G v) = take m (G v')"
    proof (cases "v = v'")
      case False
      with le(2) have lt: "v < v'" by simp
      have "G v' \<noteq> []" using y by (auto simp: backed_def chosen_def)
      from led_nonempty [OF inv this] obtain q where q: "(v', q) \<in> cl_leaders c" by blast
      have "prefix (take j (G v)) (G v')"
        using chosen_kept [OF inv j(2) q lt] safe_invD(9) [OF inv q] by (auto simp: elected_ok_def intro: prefix_order.trans)
      moreover have "m \<le> j" "j \<le> length (G v)" using j le(1) by (auto simp: chosen_def)
      ultimately show ?thesis by (auto simp: prefix_def)
    qed simp
    ultimately show ?thesis by simp
  qed
  have "take m L = take m (G (max t t')) \<and> m \<le> length L" "take m L' = take m (G (max t t'))"
    using one [OF b m(1)] one [OF b(1,1) m(1)] one [OF b(2,1) m(2)] one [OF b(2,2) m(2)] by (auto simp: max_def)
  then show ?thesis by simp
qed

lemma committed_agree:
  assumes inv: "safe_inv K C X cf c A G E" and i: "i \<in> cluster_ids cf" and j: "j \<in> cluster_ids cf"
    and k: "k \<le> commit_index (state_of c i)" "k \<le> commit_index (state_of c j)"
  shows "take k (log_of X (state_of c i)) = take k (log_of X (state_of c j)) \<and> k \<le> length (log_of X (state_of c i))"
proof (cases "k = 0")
  case False
  with k node_safeD(9) [OF safe_invD(4) [OF inv i]] node_safeD(9) [OF safe_invD(4) [OF inv j]] obtain t t'
    where "backed X cf c A G (current_term (state_of c i)) (log_of X (state_of c i)) (commit_index (state_of c i)) t"
      "backed X cf c A G (current_term (state_of c j)) (log_of X (state_of c j)) (commit_index (state_of c j)) t'" by auto
  from backed_agree [OF inv this k] show ?thesis .
qed simp

lemma leader_has_committed:
  assumes inv: "safe_inv K C X cf c A G E" and i: "i \<in> cluster_ids cf" and j: "j \<in> cluster_ids cf"
    and lead: "role (state_of c j) = Leader" and t: "current_term (state_of c i) \<le> current_term (state_of c j)"
  shows "take (commit_index (state_of c i)) (log_of X (state_of c i)) = take (commit_index (state_of c i)) (log_of X (state_of c j)) \<and>
    commit_index (state_of c i) \<le> length (log_of X (state_of c j))"
proof (cases "commit_index (state_of c i) = 0")
  case False
  let ?k = "commit_index (state_of c i)" and ?u = "current_term (state_of c j)"
  from False node_safeD(9) [OF safe_invD(4) [OF inv i]] obtain v l
    where v: "v \<le> current_term (state_of c i)" "prefix (take ?k (G v)) (log_of X (state_of c i))" "?k \<le> l" "chosen X cf c A G v l"
    by (auto simp: backed_def)
  note lb = leader_backed(2,3) [OF inv j lead]
  have len: "?k \<le> length (G v)" "l \<le> length (G v)" using v(3,4) by (auto simp: chosen_def)
  have "prefix (take l (G v)) (G ?u)"
  proof (cases "v = ?u")
    case False
    with v(1) t have "v < ?u" by simp
    from chosen_kept [OF inv v(4) lb(1) this] safe_invD(9) [OF inv lb(1)] show ?thesis
      by (auto simp: elected_ok_def intro: prefix_order.trans)
  qed (simp add: take_is_prefix)
  with v(2,3) len show ?thesis unfolding lb(2) by (auto simp: prefix_def)
qed simp

end
