(* ===== verification/Replicas.thy ===== *)
theory Replicas
  imports Log_Matching
begin

text \<open>
  From matching logs to matching state machines. A leader has its own entries as they were proposed, a
  follower as they came over the wire (\<open>src/raft/rpc.rs\<close>), so the jobs (\<open>src/node.rs\<close>) of two replicas are
  compared up to what the wire format keeps of a time and an image.
\<close>

definition norm_view :: "ext \<Rightarrow> view \<Rightarrow> view" where
  "norm_view X v i = map_option (norm_job X) (v i)"

lemma norm_job_sel [simp]:
  "j_status (norm_job X j) = j_status j" "job_active (norm_job X j) = job_active j" "j_id (norm_job X j) = j_id j"
  by (simp_all add: norm_job_def)

lemma norm_view_active [simp]: "view_active (norm_view X v) = view_active v"
  unfolding view_active_def by (rule arg_cong [where f = card]) (auto simp: norm_view_def)

lemma norm_replica: "norm_job X (replica_job j) = replica_job (norm_job X j)"
  by (simp add: norm_job_def replica_job_def)

lemma norm_spec_update: "norm_view X (spec_update u v) = spec_update (norm_update X u) (norm_view X v)"
proof (cases "v (jsu_job_id u)")
  case (Some j)
  then show ?thesis
    by (auto simp: fun_eq_iff norm_view_def spec_update_def norm_update_def norm_replica)
       (simp add: replica_job_def norm_job_def)
qed (auto simp: fun_eq_iff norm_view_def spec_update_def norm_update_def)

text \<open>Applying commutes with the trip over the wire.\<close>

lemma norm_spec_apply: "norm_view X (spec_apply limit v c) = spec_apply limit (norm_view X v) (norm_command X c)"
proof (cases c)
  case (SubmitJob i cmd t img)
  have "norm_view X v i = None \<longleftrightarrow> v i = None" by (simp add: norm_view_def)
  then show ?thesis
    by (auto simp: SubmitJob fun_eq_iff) (auto simp: norm_view_def norm_job_def with_id_def)
next
  case (UpdateJobStatus i st b code t)
  then show ?thesis by (simp add: norm_spec_update) (simp add: norm_update_def)
next
  case (BatchUpdateJobStatus us)
  have "norm_view X (foldl (\<lambda>v u. spec_update u v) v us) = foldl (\<lambda>v u. spec_update u v) (norm_view X v) (map (norm_update X) us)"
    by (induction us arbitrary: v) (simp_all add: norm_spec_update)
  then show ?thesis by (simp add: BatchUpdateJobStatus)
next
  case (AssignJob i w)
  then show ?thesis by (cases "v i") (auto simp: fun_eq_iff norm_view_def norm_job_def)
next
  case (CancelJob i)
  then show ?thesis by (cases "v i") (auto simp: fun_eq_iff norm_view_def norm_job_def)
qed simp_all

lemma norm_spec_foldl:
  "norm_view X (foldl (spec_apply limit) v (map le_command es)) =
   foldl (spec_apply limit) (norm_view X v) (map le_command (map (norm_entry X) es))"
  by (induction es arbitrary: v) (simp_all add: norm_spec_apply norm_entry_def)

lemma same_log_same_jobs:
  assumes wf: "app_wf a" "app_wf b" and max: "max_jobs (app_queue a) = max_jobs (app_queue b)"
    and start: "norm_view X (replica_view (app_queue a)) = norm_view X (replica_view (app_queue b))"
    and es: "map (norm_entry X) es = map (norm_entry X) fs"
  shows "norm_view X (replica_view (app_queue (apply_entries me simple utc now es a))) =
    norm_view X (replica_view (app_queue (apply_entries me' simple' utc' now' fs b)))"
  using apply_entries_refines(1) [OF wf(1), of me simple utc now es] apply_entries_refines(1) [OF wf(2), of me' simple' utc' now' fs]
  by (simp add: norm_spec_foldl start max es)

text \<open>Nodes that hold entries of the same term at an index have, up to the wire format, the same log to apply.\<close>

lemma same_prefix:
  assumes "kv_laws K" and "serde_laws C" and "kv_available K C" and "uuid_laws X" and "chrono_laws X"
    and "reachable_full K C X cf c" and ids: "i \<in> cluster_ids cf" "j \<in> cluster_ids cf"
    and "get_entry (state_of c i) k = Some e" and "get_entry (state_of c j) k = Some f" and "le_term e = le_term f"
  shows "map (norm_entry X) (take k (rlog (state_of c i))) = map (norm_entry X) (take k (rlog (state_of c j)))"
proof -
  obtain G where m: "matching K C X cf G c" using matching_reachable [OF assms(6,1-5)] by blast
  from matching_prefix(1) [OF m ids assms(9-11)] show ?thesis by (simp add: log_of_def take_map)
qed

end
