(* ===== verification/Agreement.thy ===== *)
theory Agreement
  imports Committed Replicas
begin

text \<open>
  What the committed entries of a cluster (\<open>src/raft/node.rs\<close>) guarantee: the properties that hold in careful runs
  (theory \<open>Committed\<close>), and a run in which an answer that must not be counted is.
\<close>

section \<open>Runs of three nodes in memory\<close>

text \<open>The nodes have no database, are connected, and their Raft states are given by \<open>f\<close>.\<close>

definition trio_at :: "(bytes, bytes) fmap cluster \<Rightarrow> (node_id \<Rightarrow> raft_state) \<Rightarrow> bool" where
  "trio_at c f \<longleftrightarrow>
     (\<forall>i \<in> {1, 2, 3}. state_of c i = f i \<and> rn_storage (cl_node c i) = None \<and> rn_config (cl_node c i) = trio_config i \<and>
        peers (cl_node c i) = remove1 i [1, 2, 3] \<and> heartbeat_peers (cl_node c i) = remove1 i [1, 2, 3])"

abbreviation trio_run :: "bool \<Rightarrow> (node_id \<Rightarrow> raft_state) \<Rightarrow> answers \<Rightarrow> bool" where
  "trio_run b f A \<equiv> (\<exists>c. run b kv_mem serde_unary ext_unary (trio_config 1) c A \<and> trio_at c f)"

lemma trio_atD:
  assumes "trio_at c f" and "i \<in> {1, 2, 3}"
  shows "state_of c i = f i" "rn_storage (cl_node c i) = None" "rn_config (cl_node c i) = trio_config i"
    "peers (cl_node c i) = remove1 i [1, 2, 3]" "heartbeat_peers (cl_node c i) = remove1 i [1, 2, 3]" "i \<in> cluster_ids (trio_config 1)"
  using bspec [OF assms(1) [unfolded trio_at_def] assms(2)] assms(2) by (simp_all only: trio_ids)

lemma trio_at_set:
  assumes "trio_at c f" and "rn_state n = s" and "rn_storage n = None" and "rn_config n = trio_config i"
    and "peers n = remove1 i [1, 2, 3]" and "heartbeat_peers n = remove1 i [1, 2, 3]"
  shows "trio_at (set_node i n c) (f(i := s))"
  using assms unfolding trio_at_def by (simp only: set_node_sel fun_upd_apply) auto

lemma trio_at_frame [simp]:
  "trio_at (c\<lparr>cl_appends := M\<rparr>) f = trio_at c f" "trio_at (c\<lparr>cl_requests := M'\<rparr>) f = trio_at c f"
  by (simp_all add: trio_at_def)

lemma trio_start: "trio_run b (\<lambda>i. raft_new) {}"
  using run.start [OF trio_initial] by (intro exI [of _ trio] conjI) (auto simp: trio_at_def)

lemma trio_propose:
  assumes "trio_run b f A" and i: "i \<in> {1, 2, 3}" and lead: "role (f i) = Leader" "last_log_index (f i) < u64_max"
    and s: "fst (append_entry cmd (f i)) = s"
  shows "trio_run b (f(i := s)) A"
proof -
  from assms(1) obtain c where c: "run b kv_mem serde_unary ext_unary (trio_config 1) c A" "trio_at c f" by blast
  note d = trio_atD [OF c(2) i]
  let ?n = "(cl_node c i)\<lparr>rn_state := fst (append_entry cmd (f i))\<rparr>"
  obtain res where op: "handle_append_command kv_mem serde_unary cmd (cl_node c i) = Some (?n, res)"
    using lead d by (simp add: handle_append_command_def append_command_def persist_entry_def with_no_storage split_beta Let_def)
  have "run b kv_mem serde_unary ext_unary (trio_config 1) (set_node i ?n c) A"
    by (rule run.step [OF c(1) run_step.propose [OF d(6) _ op]]) (use lead d in simp)
  moreover have "trio_at (set_node i ?n c) (f(i := s))"
    by (rule trio_at_set [OF c(2)]) (use d s in simp_all)
  ultimately show ?thesis by blast
qed

lemma trio_elect:
  assumes "trio_run b f A" and iv: "i \<in> {1, 2, 3}" "v \<in> {1, 2, 3}" "i \<noteq> v"
    and t: "current_term (f i) < u64_max" "current_term (f v) < Suc (current_term (f i))"
    and log: "log_le (log_position (f v)) (log_position (f i))"
    and s: "(become_follower (Suc (current_term (f i))) (f v))\<lparr>voted_for := Some i\<rparr> = s"
    and s': "become_leader i (remove1 i [1, 2, 3]) ((become_candidate i (f i))\<lparr>votes_received := 2\<rparr>) = s'"
  shows "trio_run b (f(v := s, i := s')) A"
proof -
  from assms(1) obtain c where c: "run b kv_mem serde_unary ext_unary (trio_config 1) c A" "trio_at c f" by blast
  note d = trio_atD [OF c(2) iv(1)] and e = trio_atD [OF c(2) iv(2)]
  have v: "v \<in> set (peers (cl_node c i))" and three: "length (nc_peers (rn_config (cl_node c i))) = 2"
    using iv d(3,4) by (auto simp: trio_peers)
  have me: "nc_node_id (rn_config (cl_node c i)) = i" by (simp add: d(3))
  from elected_moves [OF iv(3) d(2) e(2) t [folded d(1) e(1)] log [folded d(1) e(1)] me v three, of kv_mem serde_unary]
  obtain n1 n2 r n3 c1 c2 req
    where a: "begin_election kv_mem serde_unary (cl_node c i) = Some (n1, req)" "vr_candidate_id req = i"
      "c1 = (set_node i n1 c)\<lparr>cl_requests := insert req (cl_requests c)\<rparr>"
    and g: "handle_vote_request kv_mem serde_unary 0 req (cl_node c1 v) = Some (n2, r)"
      "c2 = (set_node v n2 c1)\<lparr>cl_grants := (if vote_granted r then insert (v, req) else id) (cl_grants c1)\<rparr>"
    and h: "{v} \<subseteq> set (peers (cl_node c2 i))" "\<forall>p \<in> {v}. (p, req) \<in> cl_grants c2" "req \<in> cl_requests c2"
      "n3 = finish_election (vr_term req) (Suc (card {v})) (cl_node c2 i)"
      "elected i v c = (set_node i n3 c2)\<lparr>cl_leaders :=
        (if role (rn_state n3) = Leader then insert (current_term (rn_state n3), i) else id) (cl_leaders c2)\<rparr>" .
  have "run b kv_mem serde_unary ext_unary (trio_config 1) c1 A"
    unfolding a(3) by (rule run.step [OF c(1) run_step.campaign [OF d(6) _ a(1)]]) (use t d(1) in simp)
  then have "run b kv_mem serde_unary ext_unary (trio_config 1) c2 A"
    unfolding g(2) by (rule run.step [OF _ run_step.vote [OF e(6) _ _ g(1)]]) (use a iv(3) in auto)
  then have "run b kv_mem serde_unary ext_unary (trio_config 1) (elected i v c) A"
    unfolding h(5) by (rule run.step [OF _ run_step.count [OF d(6) h(3) a(2) h(1,2,4)]])
  moreover have "trio_at (elected i v c) (f(v := s, i := s'))"
    unfolding s [symmetric] s' [symmetric] using c(2) iv(3) d e unfolding trio_at_def by (simp only: elected_node fun_upd_apply) auto
  ultimately show ?thesis by blast
qed

lemma trio_append:
  assumes "trio_run b f A" and ip: "i \<in> {1, 2, 3}" "p \<in> {1, 2, 3}" "p \<noteq> i" and lead: "role (f i) = Leader"
    and sent: "replicate_to_peer ext_unary i (f i) p = SendEntries req \<or> req = heartbeat_request i (f i)"
    and del: "b \<Longrightarrow> deliverable ext_unary A p (f p) req" and h: "handle_append_entries ext_unary req (f p) = (s, r)"
  shows "trio_run b (f(p := s)) (insert (p, req, r) A)"
proof -
  from assms(1) obtain c where c: "run b kv_mem serde_unary ext_unary (trio_config 1) c A" "trio_at c f" by blast
  note d = trio_atD [OF c(2) ip(1)] and e = trio_atD [OF c(2) ip(2)]
  have p: "p \<in> set (remove1 i [1, 2, 3])" using ip by auto
  let ?c = "c\<lparr>cl_appends := insert (p, req) (cl_appends c)\<rparr>"
  have run: "run b kv_mem serde_unary ext_unary (trio_config 1) ?c A"
    using sent
  proof
    assume "replicate_to_peer ext_unary i (f i) p = SendEntries req"
    then have "(p, SendEntries req) \<in> set (replicate_to_peers ext_unary (cl_node c i))"
      using d lead p by (auto simp: replicate_to_peers_def image_iff)
    then show ?thesis by (rule run.step [OF c(1) run_step.send_entries [OF d(6)]])
  next
    assume "req = heartbeat_request i (f i)"
    then have "(p, req) \<in> set (heartbeat_round (cl_node c i))" using d lead p by (auto simp: heartbeat_round_def)
    then show ?thesis by (rule run.step [OF c(1) run_step.heartbeat [OF d(6)]])
  qed
  obtain n where op: "handle_append_entries_node kv_mem serde_unary ext_unary 0 req (cl_node c p) = Some (n, r)"
    and n: "rn_state n = s" "rn_storage n = None" "rn_config n = rn_config (cl_node c p)"
    using append_in_memory [OF e(2), of kv_mem serde_unary ext_unary 0 req] unfolding e(1) h by auto
  have "run b kv_mem serde_unary ext_unary (trio_config 1) (set_node p n ?c) (insert (p, req, r) A)"
    by (rule run.step [OF run run_step.append [OF e(6)]]) (use op del e(1) in simp_all)
  moreover have "trio_at (set_node p n ?c) (f(p := s))"
    by (rule trio_at_set) (use c(2) n e append_entries_node_sel(3,4) [OF op] in simp_all)
  ultimately show ?thesis by blast
qed

lemma trio_answer:
  assumes "trio_run b f A" and i: "i \<in> {1, 2, 3}" and lead: "role (f i) = Leader" "current_term (f i) \<le> u64_max"
    and ans: "(p, req, r) \<in> A" "ae_leader_id req = i" "aer_success r" "aer_term r \<le> current_term (f i)"
    and ok: "b \<Longrightarrow> countable_answer ext_unary (f i) req r"
    and s: "advance_commit ((f i)\<lparr>match_index := hm_insert p (aer_match_index r) (match_index (f i)),
      next_index := hm_insert p (u64_inc (aer_match_index r)) (next_index (f i))\<rparr>) = s"
  shows "trio_run b (f(i := s)) A"
proof -
  from assms(1) obtain c where c: "run b kv_mem serde_unary ext_unary (trio_config 1) c A" "trio_at c f" by blast
  note d = trio_atD [OF c(2) i]
  obtain n where op: "append_answer kv_mem serde_unary 0 p r (cl_node c i) = Some n"
    and n: "rn_state n = s" "rn_storage n = None"
      "rn_config n = rn_config (cl_node c i)" "peers n = peers (cl_node c i)" "heartbeat_peers n = heartbeat_peers (cl_node c i)"
    using d lead(1) ans(3,4) s by (simp add: append_answer_def saw_peer_def Let_def)
  have "run b kv_mem serde_unary ext_unary (trio_config 1) (set_node i n c) A"
    by (rule run.step [OF c(1) run_step.append_ack [OF d(6) ans(1,2) _ _ op]]) (use ans(4) lead(2) ok d(1) in simp_all)
  moreover have "trio_at (set_node i n c) (f(i := s))"
    by (rule trio_at_set [OF c(2) n(1,2)]) (use n d in simp_all)
  ultimately show ?thesis by blast
qed

section \<open>A run that commits an entry on two nodes\<close>

text \<open>The states of a leader and of a follower of term 1.\<close>

definition leading :: "u64 \<Rightarrow> u64 \<Rightarrow> log_entry list \<Rightarrow> raft_state" where
  "leading k m L = \<lparr>current_term = 1, voted_for = Some 1, rlog = L, commit_index = k, last_applied = 0,
     next_index = [(2, Suc m), (3, 1)], match_index = [(2, m), (3, 0)], role = Leader, leader_id = Some 1, votes_received = 2,
     log_offset = 0, snapshot = None\<rparr>"

text \<open>The states of nodes 1, 2 and 3.\<close>

definition states :: "raft_state \<Rightarrow> raft_state \<Rightarrow> raft_state \<Rightarrow> node_id \<Rightarrow> raft_state" where
  "states a b c i = (if i = 1 then a else if i = 2 then b else if i = 3 then c else raft_new)"

lemma states_sel: "states a b c 1 = a" "states a b c 2 = b" "states a b c 3 = c"
  by (simp_all add: states_def)

lemma states_upd: "(states a b c)(1 := x) = states x b c" "(states a b c)(2 := x) = states a x c"
  "(states a b c)(3 := x) = states a b x"
  by (simp_all add: fun_eq_iff states_def)

definition following :: "u64 \<Rightarrow> log_entry list \<Rightarrow> raft_state" where
  "following k L = \<lparr>current_term = 1, voted_for = Some 1, rlog = L, commit_index = k, last_applied = 0,
     next_index = hm_empty, match_index = hm_empty, role = Follower, leader_id = Some 1, votes_received = 0,
     log_offset = 0, snapshot = None\<rparr>"

abbreviation one_entry :: "log_entry list" where "one_entry \<equiv> [noop_entry 1 1]"

definition first_append :: append_entries_request where
  "first_append = noop_request 1 1 0 0 0 [noop_entry 1 1]"

definition first_answers :: answers where
  "first_answers = {(2, heartbeat_request 1 (leading 1 1 one_entry), \<lparr>aer_term = 1, aer_success = True, aer_match_index = 1\<rparr>),
     (2, first_append, \<lparr>aer_term = 1, aer_success = True, aer_match_index = 1\<rparr>)}"

lemma first_append_sent: "replicate_to_peer ext_unary 1 (leading 0 0 one_entry) 2 = SendEntries first_append"
  by (simp add: replicate_to_peer_def append_request_def leading_def first_append_def noop_request_def Let_def hm_get_def
      entries_start_def hm_values_def get_entries_from_def last_log_index_def prev_term_of_def u64_inc_def noop_entry_def)

lemma first_append_accepted:
  "handle_append_entries ext_unary first_append ((become_follower 1 raft_new)\<lparr>voted_for := Some 1\<rparr>) =
     (following 0 one_entry, \<lparr>aer_term = 1, aer_success = True, aer_match_index = 1\<rparr>)"
  by (simp add: first_append_def following_def noop_defs handler_defs raft_new_def)

lemma first_heartbeat_accepted:
  "handle_append_entries ext_unary (heartbeat_request 1 (leading 1 1 one_entry)) (following 0 one_entry) =
     (following 1 one_entry, \<lparr>aer_term = 1, aer_success = True, aer_match_index = 1\<rparr>)"
  by (simp add: heartbeat_request_def leading_def following_def noop_defs handler_defs)

lemma first_established: "established ext_unary first_append = 1"
  by (simp add: established_def first_append_def noop_defs handler_defs)

lemma committed_on_two: "trio_run b (states (leading 1 1 one_entry) (following 1 one_entry) raft_new) first_answers"
proof -
  let ?r = "\<lparr>aer_term = 1, aer_success = True, aer_match_index = 1\<rparr> :: append_entries_response"
  let ?A = "{(2, first_append, ?r)}" and ?v = "(become_follower 1 raft_new)\<lparr>voted_for := Some 1\<rparr>"
  have "states raft_new raft_new raft_new = (\<lambda>i. raft_new)" by (simp add: fun_eq_iff states_def)
  then have "trio_run b (states raft_new raft_new raft_new) {}" using trio_start [of b] by simp
  from trio_elect [OF this, of 1 2 ?v "leading 0 0 []", unfolded states_sel states_upd]
  have "trio_run b (states (leading 0 0 []) ?v raft_new) {}"
    by (simp add: raft_new_def u64_max_def become_follower_def)
       (simp add: become_leader_def become_candidate_def leading_def init_peers_def hm_insert_def hm_empty_def u64_inc_def last_log_index_def)
  from trio_propose [OF this, of 1 Noop "leading 0 0 one_entry", unfolded states_sel states_upd]
  have "trio_run b (states (leading 0 0 one_entry) ?v raft_new) {}"
    by (simp add: leading_def append_entry_def last_log_index_def u64_inc_def u64_max_def noop_entry_def Let_def)
  from trio_append [OF this, of 1 2 first_append, unfolded states_sel states_upd, OF _ _ _ _ _ _ first_append_accepted]
  have "trio_run b (states (leading 0 0 one_entry) (following 0 one_entry) raft_new) ?A"
    using first_append_sent by (simp add: deliverable_def acked_def first_append_def noop_request_def leading_def)
  from trio_answer [OF this, of 1 2 first_append ?r, unfolded states_sel states_upd]
  have "trio_run b (states (leading 1 1 one_entry) (following 0 one_entry) raft_new) ?A"
    by (simp add: leading_def countable_answer_def first_established u64_max_def)
       (simp add: advance_commit_def majority_match_def hm_insert_def hm_values_def last_log_index_def get_entry_def
        u64_inc_def noop_entry_def first_append_def noop_request_def Let_def)
  from trio_append [OF this, of 1 2 "heartbeat_request 1 (leading 1 1 one_entry)", unfolded states_sel states_upd,
      OF _ _ _ _ _ _ first_heartbeat_accepted]
  show ?thesis
    by (simp add: first_answers_def) (simp add: leading_def deliverable_def acked_def heartbeat_request_def first_established,
      simp add: first_append_def noop_request_def)
qed

text \<open>The same, as a careful run of a cluster.\<close>

lemma committed_cluster:
  obtains c where "run True kv_mem serde_unary ext_unary (trio_config 1) c first_answers" and "state_of c 1 = leading 1 1 one_entry"
    and "state_of c 2 = following 1 one_entry" and "odd (card (cluster_ids (trio_config 1)))"
    and "1 \<in> cluster_ids (trio_config 1)" "2 \<in> cluster_ids (trio_config 1)"
proof -
  from committed_on_two [of True] obtain c where c: "run True kv_mem serde_unary ext_unary (trio_config 1) c first_answers"
    "trio_at c (states (leading 1 1 one_entry) (following 1 one_entry) raft_new)" by blast
  show ?thesis
    by (rule that [OF c(1)]) (use trio_atD(1) [OF c(2), of 1] trio_atD(1) [OF c(2), of 2] in \<open>simp_all add: states_def\<close>)
qed

section \<open>What is committed\<close>

lemma entry_of_log:
  assumes "log_wf s" and "full s" and "0 < k" and "k \<le> length (log_of X s)"
  shows "\<exists>e. get_entry s k = Some e \<and> norm_entry X e = log_of X s ! (k - 1)"
  using assms by (simp add: full_def get_entry_cases log_wf_last_index log_of_def)

lemma run_members:
  assumes "safe_inv K C X cf c A G E" and "i \<in> cluster_ids cf"
  shows "log_wf (state_of c i)" and "full (state_of c i)"
  using matching_members [OF safe_invD(1) [OF assms(1)] assms(2)] by (simp_all add: node_inv_def)

lemma logs_agree_entries:
  assumes inv: "safe_inv K C X cf c A G E" and i: "i \<in> cluster_ids cf" and j: "j \<in> cluster_ids cf"
    and eq: "take m (log_of X (state_of c i)) = take m (log_of X (state_of c j))" and m: "m \<le> length (log_of X (state_of c i))"
    and k: "0 < k" "k \<le> m"
  shows "\<exists>e f. get_entry (state_of c i) k = Some e \<and> get_entry (state_of c j) k = Some f \<and> norm_entry X e = norm_entry X f"
proof -
  have "m \<le> length (log_of X (state_of c j))" using arg_cong [OF eq, of length] m by simp
  with entry_of_log [OF run_members [OF inv i], of k X] entry_of_log [OF run_members [OF inv j], of k X] k m
  obtain e f where "get_entry (state_of c i) k = Some e" "get_entry (state_of c j) k = Some f"
    and n: "norm_entry X e = log_of X (state_of c i) ! (k - 1)" "norm_entry X f = log_of X (state_of c j) ! (k - 1)" by auto
  moreover have "log_of X (state_of c i) ! (k - 1) = log_of X (state_of c j) ! (k - 1)"
    using arg_cong [OF eq, of "\<lambda>L. L ! (k - 1)"] k by simp
  ultimately show ?thesis by auto
qed

text \<open>C2: State Machine Safety. In a cluster of odd size, without compaction, whose requests and answers are delivered as
  the leader and the order of sending allow, two nodes that have both committed an index have the same entry there;
  messages may still be lost, repeated and delayed, and nodes may crash and restart.\<close>

theorem state_machine_safety:
  assumes "kv_laws K" and "serde_laws C" and "kv_available K C" and "uuid_laws X" and "chrono_laws X"
    and "odd (card (cluster_ids cf))" and "run True K C X cf c A" and "i \<in> cluster_ids cf" and "j \<in> cluster_ids cf"
    and "0 < k" and "k \<le> commit_index (state_of c i)" and "k \<le> commit_index (state_of c j)"
  shows "\<exists>e f. get_entry (state_of c i) k = Some e \<and> get_entry (state_of c j) k = Some f \<and> norm_entry X e = norm_entry X f"
proof -
  from run_safe [OF assms(7,1-6)] obtain G E where inv: "safe_inv K C X cf c A G E" by blast
  from committed_agree [OF inv assms(8,9,11,12)] logs_agree_entries [OF inv assms(8,9) _ _ assms(10) order_refl] show ?thesis by blast
qed

theorem state_machine_safety_witness:
  "\<exists>c A e f. run True kv_mem serde_unary ext_unary (trio_config 1) c A \<and>
     commit_index (state_of c 1) = 1 \<and> commit_index (state_of c 2) = 1 \<and>
     get_entry (state_of c 1) 1 = Some e \<and> get_entry (state_of c 2) 1 = Some f \<and> norm_entry ext_unary e = norm_entry ext_unary f"
proof -
  obtain c where c: "run True kv_mem serde_unary ext_unary (trio_config 1) c first_answers" "state_of c 1 = leading 1 1 one_entry"
    "state_of c 2 = following 1 one_entry" "odd (card (cluster_ids (trio_config 1)))"
    "1 \<in> cluster_ids (trio_config 1)" "2 \<in> cluster_ids (trio_config 1)" by (rule committed_cluster)
  have k: "commit_index (state_of c 1) = 1" "commit_index (state_of c 2) = 1" unfolding c(2,3) by (simp_all add: leading_def following_def)
  from state_machine_safety [OF kv_mem_laws serde_unary_laws kv_mem_available ext_unary_laws c(4,1,5,6), of 1] c(1) k
  show ?thesis by auto
qed

text \<open>C3: Leader Completeness. In such a run a leader has every entry that any node whose term is not later has committed.\<close>

theorem leader_completeness:
  assumes "kv_laws K" and "serde_laws C" and "kv_available K C" and "uuid_laws X" and "chrono_laws X"
    and "odd (card (cluster_ids cf))" and "run True K C X cf c A" and "i \<in> cluster_ids cf" and "j \<in> cluster_ids cf"
    and "role (state_of c j) = Leader" and "current_term (state_of c i) \<le> current_term (state_of c j)"
    and "0 < k" and "k \<le> commit_index (state_of c i)"
  shows "\<exists>e f. get_entry (state_of c j) k = Some e \<and> get_entry (state_of c i) k = Some f \<and> norm_entry X e = norm_entry X f"
proof -
  from run_safe [OF assms(7,1-6)] obtain G E where inv: "safe_inv K C X cf c A G E" by blast
  have "take (commit_index (state_of c i)) (log_of X (state_of c j)) = take (commit_index (state_of c i)) (log_of X (state_of c i)) \<and>
      commit_index (state_of c i) \<le> length (log_of X (state_of c j))"
    using leader_has_committed [OF inv assms(8-11)] by simp
  then show ?thesis using logs_agree_entries [OF inv assms(9,8) _ _ assms(12,13)] by blast
qed

theorem leader_completeness_witness:
  "\<exists>c A e f. run True kv_mem serde_unary ext_unary (trio_config 1) c A \<and> role (state_of c 1) = Leader \<and>
     commit_index (state_of c 2) = 1 \<and>
     get_entry (state_of c 1) 1 = Some e \<and> get_entry (state_of c 2) 1 = Some f \<and> norm_entry ext_unary e = norm_entry ext_unary f"
proof -
  obtain c where c: "run True kv_mem serde_unary ext_unary (trio_config 1) c first_answers" "state_of c 1 = leading 1 1 one_entry"
    "state_of c 2 = following 1 one_entry" "odd (card (cluster_ids (trio_config 1)))"
    "1 \<in> cluster_ids (trio_config 1)" "2 \<in> cluster_ids (trio_config 1)" by (rule committed_cluster)
  have k: "role (state_of c 1) = Leader" "current_term (state_of c 2) \<le> current_term (state_of c 1)" "commit_index (state_of c 2) = 1"
    unfolding c(2,3) by (simp_all add: leading_def following_def)
  from leader_completeness [OF kv_mem_laws serde_unary_laws kv_mem_available ext_unary_laws c(4,1,6,5) k(1,2), of 1] c(1) k(1,3)
  show ?thesis by auto
qed

section \<open>An answer that claims too much\<close>

text \<open>
  Node 1 leads in term 1 and has, after the entry that nodes 1 and 2 have committed, another one that it has sent to
  nobody. Node 2 is elected in term 2 with the vote of node 3 and probes node 1 with an empty request after the first
  entry. Node 1 accepts the request and answers with the length of its own log.
\<close>

abbreviation lone_entry :: log_entry where
  "lone_entry \<equiv> \<lparr>le_term = 1, le_index = 2, le_command = RegisterWorker 1\<rparr>"

abbreviation later_entry :: log_entry where
  "later_entry \<equiv> \<lparr>le_term = 2, le_index = 2, le_command = RegisterWorker 2\<rparr>"

definition rising :: "u64 \<Rightarrow> u64 \<Rightarrow> u64 \<Rightarrow> log_entry list \<Rightarrow> raft_state" where
  "rising k m x L = \<lparr>current_term = 2, voted_for = Some 2, rlog = L, commit_index = k, last_applied = 0,
     next_index = [(1, x), (3, 2)], match_index = [(1, m), (3, 0)], role = Leader, leader_id = Some 2, votes_received = 2,
     log_offset = 0, snapshot = None\<rparr>"

definition deposed :: raft_state where
  "deposed = (leading 1 1 (one_entry @ [lone_entry]))\<lparr>current_term := 2, voted_for := None, role := Follower,
     leader_id := Some 2, votes_received := 0\<rparr>"

definition voter :: "u64 \<Rightarrow> node_id \<Rightarrow> raft_state" where
  "voter t i = (become_follower t raft_new)\<lparr>voted_for := Some i\<rparr>"

definition probe :: append_entries_request where
  "probe = \<lparr>ae_term = 2, ae_leader_id = 2, ae_prev_log_index = 1, ae_prev_log_term = 1, ae_entries = [], ae_leader_commit = 1\<rparr>"

lemma probe_sent: "replicate_to_peer ext_unary 2 (rising 1 0 2 one_entry) 1 = SendEntries probe"
  by (simp add: replicate_to_peer_def append_request_def rising_def probe_def Let_def hm_get_def
      entries_start_def hm_values_def get_entries_from_def last_log_index_def prev_term_of_def u64_inc_def noop_entry_def)

lemma probe_accepted:
  "handle_append_entries ext_unary probe (leading 1 1 (one_entry @ [lone_entry])) =
     (deposed, \<lparr>aer_term = 2, aer_success = True, aer_match_index = 2\<rparr>)"
  by (simp add: probe_def deposed_def leading_def noop_defs handler_defs)

lemma probe_states:
  "fst (append_entry (RegisterWorker 1) (leading 1 1 one_entry)) = leading 1 1 (one_entry @ [lone_entry])"
  "fst (append_entry (RegisterWorker 2) (rising 1 0 2 one_entry)) = rising 1 0 2 (one_entry @ [later_entry])"
  "become_leader 2 (remove1 2 [1, 2, 3]) ((become_candidate 2 (following 1 one_entry))\<lparr>votes_received := 2\<rparr>) = rising 1 0 2 one_entry"
  "advance_commit ((rising 1 0 2 (one_entry @ [later_entry]))\<lparr>match_index := hm_insert 1 2 (match_index (rising 1 0 2 (one_entry @ [later_entry]))),
     next_index := hm_insert 1 (u64_inc 2) (next_index (rising 1 0 2 (one_entry @ [later_entry])))\<rparr>) = rising 2 2 3 (one_entry @ [later_entry])"
  by (simp_all add: append_entry_def leading_def rising_def following_def last_log_index_def u64_inc_def noop_entry_def Let_def
      become_leader_def become_candidate_def init_peers_def hm_insert_def hm_empty_def advance_commit_def majority_match_def
      hm_values_def get_entry_def)

lemma rising_sel [simp]: "role (rising k m x L) = Leader" "current_term (rising k m x L) = 2"
  by (simp_all add: rising_def)

lemma leading_sel [simp]: "role (leading k m L) = Leader" "current_term (leading k m L) = 1"
  by (simp_all add: leading_def)

lemma probe_counted:
  "trio_run False (states deposed (rising 2 2 3 (one_entry @ [later_entry])) (voter 2 2))
     (insert (1, probe, \<lparr>aer_term = 2, aer_success = True, aer_match_index = 2\<rparr>) first_answers)"
proof -
  let ?r = "\<lparr>aer_term = 2, aer_success = True, aer_match_index = 2\<rparr> :: append_entries_response" and ?L = "one_entry @ [lone_entry]"
  have 1: "trio_run False (states (leading 1 1 ?L) (following 1 one_entry) raft_new) first_answers"
    by (rule trio_propose [OF committed_on_two, where i = 1, unfolded states_sel states_upd, OF _ _ _ probe_states(1)])
      (simp_all, simp add: leading_def last_log_index_def u64_max_def noop_entry_def)
  have 2: "trio_run False (states (leading 1 1 ?L) (rising 1 0 2 one_entry) (voter 2 2)) first_answers"
    by (rule trio_elect [OF 1, where i = 2 and v = 3, unfolded states_sel states_upd, OF _ _ _ _ _ _ _ probe_states(3)])
      (simp_all add: following_def raft_new_def u64_max_def voter_def become_follower_def log_le_def last_log_term_def
        last_log_index_def noop_entry_def)
  have 3: "trio_run False (states deposed (rising 1 0 2 one_entry) (voter 2 2)) (insert (1, probe, ?r) first_answers)"
    by (rule trio_append [OF 2, where i = 2 and p = 1, unfolded states_sel states_upd, OF _ _ _ _ disjI1 [OF probe_sent] _ probe_accepted]) simp_all
  have 4: "trio_run False (states deposed (rising 1 0 2 (one_entry @ [later_entry])) (voter 2 2)) (insert (1, probe, ?r) first_answers)"
    by (rule trio_propose [OF 3, where i = 2, unfolded states_sel states_upd, OF _ _ _ probe_states(2)])
      (simp_all, simp add: rising_def last_log_index_def u64_max_def noop_entry_def)
  show ?thesis
    by (rule trio_answer [OF 4, where i = 2 and p = 1 and req = probe and r = ?r, unfolded states_sel states_upd])
      (simp_all add: u64_max_def probe_def probe_states(4) [simplified])
qed

text \<open>C30: Where Leader Completeness ends. A node accepts an empty request whose position it has and answers with the length of
  its whole log, and the leader takes this for what the node has of the leader's log: with answers that the nodes really
  gave, a cluster of three nodes reaches a state in which node 2 has committed a command that no other node has, and node
  1 leads in a later term with another command at that index.\<close>

theorem probe_answer_overcounts:
  "\<exists>c A e f. run False kv_mem serde_unary ext_unary (trio_config 1) c A \<and>
     commit_index (state_of c 2) = 2 \<and> get_entry (state_of c 2) 2 = Some e \<and> get_entry (state_of c 3) 2 = None \<and>
     role (state_of c 1) = Leader \<and> current_term (state_of c 2) < current_term (state_of c 1) \<and>
     get_entry (state_of c 1) 2 = Some f \<and> le_command e \<noteq> le_command f"
proof -
  let ?s = "become_leader 1 (remove1 1 [1, 2, 3]) ((become_candidate 1 deposed)\<lparr>votes_received := 2\<rparr>)"
  let ?f = "states ?s (rising 2 2 3 (one_entry @ [later_entry])) (voter 3 1)"
  let ?A = "insert (1, probe, \<lparr>aer_term = 2, aer_success = True, aer_match_index = 2\<rparr>) first_answers"
  have "trio_run False ?f ?A"
    by (rule trio_elect [OF probe_counted, where i = 1 and v = 3, unfolded states_sel states_upd, OF _ _ _ _ _ _ _ refl])
      (simp_all add: deposed_def leading_def voter_def become_follower_def raft_new_def u64_max_def log_le_def last_log_term_def
        last_log_index_def)
  then obtain c where c: "run False kv_mem serde_unary ext_unary (trio_config 1) c ?A" "trio_at c ?f" by blast
  have s: "state_of c 1 = ?s" "state_of c 2 = rising 2 2 3 (one_entry @ [later_entry])" "state_of c 3 = voter 3 1"
    using trio_atD(1) [OF c(2), of 1] trio_atD(1) [OF c(2), of 2] trio_atD(1) [OF c(2), of 3] unfolding states_sel by simp_all
  have "get_entry (state_of c 1) 2 = Some lone_entry" "get_entry (state_of c 2) 2 = Some later_entry" "get_entry (state_of c 3) 2 = None"
    "role (state_of c 1) = Leader" "current_term (state_of c 1) = 3" "current_term (state_of c 2) = 2" "commit_index (state_of c 2) = 2"
    unfolding s by (simp_all add: get_entry_def become_leader_def become_candidate_def deposed_def leading_def rising_def voter_def
        become_follower_def raft_new_def u64_inc_def Let_def)
  with c(1) show ?thesis by fastforce
qed

end
