(* ===== verification/Client_Service.thy ===== *)
theory Client_Service
  imports Scheduler
begin

text \<open>
  The client-facing gRPC service (\<open>src/grpc/client_service.rs\<close>). A handler is a function of the request
  and the node; where it waits for the Raft loop or another node it is split into the part before and
  the part after, the answer being an argument of the latter. Errors are values of \<open>grpc_status\<close>.
\<close>

section \<open>Types\<close>

datatype grpc_code =
    InvalidArgument | NotFound | FailedPrecondition | ResourceExhausted | Unavailable | DeadlineExceeded | Internal

record grpc_status =
  st_code :: grpc_code
  st_message :: string

definition grpc_error :: "grpc_code \<Rightarrow> string \<Rightarrow> grpc_status" where
  "grpc_error c m = \<lparr>st_code = c, st_message = m\<rparr>"

text \<open>The outcome of sending to the Raft loop, and what comes back on the one-shot channel.\<close>

datatype send_outcome = Sent | ChannelFull | ChannelClosed

datatype 'r raft_reply = Replied "string + 'r" | ReplyTimeout | ReplyDropped

record submit_response =
  sr_job_id :: string
  sr_created_at_ms :: int

record job_info =
  ji_job_id :: string
  ji_command :: string
  ji_status :: int
  ji_assigned_worker :: u64
  ji_created_at_ms :: int
  ji_completed_at_ms :: "int option"

record job_status_response =
  js_job_id :: string
  js_status :: int
  js_output :: string
  js_error :: string
  js_assigned_worker :: u64
  js_executed_by :: u64
  js_exit_code :: "i32 option"
  js_created_at_ms :: int
  js_completed_at_ms :: "int option"

record list_jobs_request =
  lj_page_size :: nat
  lj_page_token :: string
  lj_status_filter :: int
  lj_worker_id_filter :: u64
  lj_command_filter :: string
  lj_created_after_ms :: int
  lj_created_before_ms :: int

record list_jobs_response =
  lr_jobs :: "job_info list"
  lr_next_page_token :: string
  lr_total_count :: nat

record node_info =
  ni_node_id :: node_id
  ni_address :: string
  ni_is_alive :: bool

record cluster_status_response =
  cs_current_term :: u64
  cs_leader_id :: node_id
  cs_nodes :: "node_info list"

record log_entry_info =
  lei_index :: u64
  lei_term :: u64
  lei_command :: "proto_command option option"
  lei_is_committed :: bool

record log_entries_response =
  lg_entries :: "log_entry_info list"
  lg_commit_index :: u64
  lg_last_log_index :: u64
  lg_first_available_index :: u64

section \<open>Status codes of jobs\<close>

fun status_to_proto :: "job_status \<Rightarrow> proto_job_status" where
  "status_to_proto Pending = PPending"
| "status_to_proto Running = PRunning"
| "status_to_proto Completed = PCompleted"
| "status_to_proto Failed = PFailed"
| "status_to_proto Cancelled = PCancelled"

text \<open>\<open>unreachable!\<close> on \<open>Unspecified\<close> is \<open>None\<close>.\<close>

fun proto_to_status :: "proto_job_status \<Rightarrow> job_status option" where
  "proto_to_status PPending = Some Pending"
| "proto_to_status PRunning = Some Running"
| "proto_to_status PCompleted = Some Completed"
| "proto_to_status PFailed = Some Failed"
| "proto_to_status PCancelled = Some Cancelled"
| "proto_to_status PUnspecified = None"

section \<open>Connections\<close>

text \<open>\<open>ClientPool::get\<close>: a cached client, or a new one that is cached when it can be made.\<close>

definition pool_get :: "node_id \<Rightarrow> ('e + 'c) \<Rightarrow> (node_id, 'c) hmap \<Rightarrow> (node_id, 'c) hmap \<times> ('e + 'c)" where
  "pool_get i mk pool =
     (case hm_get pool i of
        Some c \<Rightarrow> (pool, Inr c)
      | None \<Rightarrow> (case mk of Inr c \<Rightarrow> (hm_insert i c pool, Inr c) | Inl e \<Rightarrow> (pool, Inl e)))"

definition peer_addr :: "node_config \<Rightarrow> node_id \<Rightarrow> grpc_status + string" where
  "peer_addr c i =
     (case List.find (\<lambda>p. pc_node_id p = i) (nc_peers c) of
        Some p \<Rightarrow> Inr (pc_addr p)
      | None \<Rightarrow> Inl (grpc_error NotFound (''Unknown node '' @ show_nat i)))"

definition client_uri :: "bool \<Rightarrow> string \<Rightarrow> string" where
  "client_uri has_tls addr = (if has_tls then ''https://'' @ addr else ''http://'' @ addr)"

text \<open>\<open>get_client\<close> and \<open>get_internal_client\<close>; \<open>connect\<close> dials an address.\<close>

definition get_client ::
  "(string \<Rightarrow> grpc_status + 'c) \<Rightarrow> node_config \<Rightarrow> bool \<Rightarrow> node_id \<Rightarrow> (node_id, 'c) hmap \<Rightarrow> (node_id, 'c) hmap \<times> (grpc_status + 'c)" where
  "get_client connect c has_tls i pool =
     pool_get i (and_then (peer_addr c i) (\<lambda>addr. connect (client_uri has_tls addr))) pool"

section \<open>Leadership in answers\<close>

definition not_leader_status :: "'db raft_node \<Rightarrow> grpc_status" where
  "not_leader_status r =
     grpc_error FailedPrecondition
       (case get_leader_id r of
          Some i \<Rightarrow>
            ''Not the leader. Try '' @
            (case List.find (\<lambda>p. pc_node_id p = i) (nc_peers (rn_config r)) of
               Some p \<Rightarrow> pc_addr p
             | None \<Rightarrow> ''unknown address'')
        | None \<Rightarrow> ''Not the leader. Leader unknown, retry later'')"

definition leader_or_unavailable :: "'db raft_node \<Rightarrow> grpc_status + node_id" where
  "leader_or_unavailable r =
     ok_or (grpc_error Unavailable ''Leader unknown, please retry later'') (get_leader_id r)"

text \<open>Forwarding a request to the leader; \<open>call\<close> is the remote call on a client.\<close>

definition forward_to_leader ::
  "(string \<Rightarrow> grpc_status + 'c) \<Rightarrow> ('c \<Rightarrow> string + 'r) \<Rightarrow> bool \<Rightarrow> 'db raft_node \<Rightarrow> (node_id, 'c) hmap
    \<Rightarrow> (node_id, 'c) hmap \<times> (grpc_status + 'r)" where
  "forward_to_leader connect call has_tls r pool =
     (case leader_or_unavailable r of
        Inl e \<Rightarrow> (pool, Inl e)
      | Inr l \<Rightarrow>
          (case get_client connect (rn_config r) has_tls l pool of
             (pool', Inl e) \<Rightarrow> (pool', Inl e)
           | (pool', Inr c) \<Rightarrow>
               (pool', (case call c of
                          Inr x \<Rightarrow> Inr x
                        | Inl e \<Rightarrow> Inl (grpc_error Unavailable (''Leader request failed: '' @ e))))))"

section \<open>Submitting and cancelling\<close>

text \<open>
  \<open>submit_job\<close> up to the proposal: the guards in the order of the code, then the new job; its id and
  creation time are arguments.
\<close>

definition new_job :: "uuid \<Rightarrow> datetime \<Rightarrow> string \<Rightarrow> string option \<Rightarrow> job" where
  "new_job i now cmd img = (job_new i now cmd)\<lparr>j_image := nonempty_image img\<rparr>"

definition submit_check :: "uuid \<Rightarrow> datetime \<Rightarrow> string \<Rightarrow> string option \<Rightarrow> 'db node \<Rightarrow> grpc_status + job" where
  "submit_check i now cmd img n =
     (if nd_draining n then Inl (grpc_error Unavailable ''Node is draining and not accepting new jobs'')
      else case validate_command cmd of
             Inl e \<Rightarrow> Inl (grpc_error InvalidArgument (command_error_msg e))
           | Inr _ \<Rightarrow>
               if \<not> is_leader (nd_raft n) then Inl (not_leader_status (nd_raft n))
               else if is_full (nd_queue n) then Inl (grpc_error ResourceExhausted ''Job queue is at capacity'')
               else Inr (new_job i now cmd img))"

definition submit_command :: "job \<Rightarrow> command" where
  "submit_command j = SubmitJob (j_id j) (j_command j) (j_created_at j) (j_image j)"

definition submit_send :: "send_outcome \<Rightarrow> grpc_status + unit" where
  "submit_send o1 =
     (case o1 of
        Sent \<Rightarrow> Inr ()
      | ChannelFull \<Rightarrow> Inl (grpc_error ResourceExhausted ''Server is overloaded; retry with backoff'')
      | ChannelClosed \<Rightarrow> Inl (grpc_error Unavailable ''Raft loop is not running''))"

definition submit_finish ::
  "ext \<Rightarrow> job \<Rightarrow> u64 raft_reply \<Rightarrow> 'db node \<Rightarrow> 'db node \<times> (grpc_status + submit_response)" where
  "submit_finish X j reply n =
     (case reply of
        ReplyTimeout \<Rightarrow> (n, Inl (grpc_error DeadlineExceeded ''Raft did not commit the entry in time''))
      | Replied (Inr idx) \<Rightarrow>
          (let (q, ok) = add_job j (nd_queue n) in
           (n\<lparr>nd_queue := q\<rparr>,
            if ok then Inr \<lparr>sr_job_id = show_uuid X (j_id j), sr_created_at_ms = to_millis X (j_created_at j)\<rparr>
            else Inl (grpc_error ResourceExhausted ''Job queue is at capacity'')))
      | Replied (Inl e) \<Rightarrow> (n, Inl (grpc_error Internal (''Raft error: '' @ e)))
      | ReplyDropped \<Rightarrow> (n, Inl (grpc_error Unavailable ''Raft loop is not running'')))"

definition cancel_check :: "ext \<Rightarrow> string \<Rightarrow> 'db node \<Rightarrow> grpc_status + uuid" where
  "cancel_check X job_id n =
     and_then (ok_or (grpc_error InvalidArgument ''invalid job_id'') (parse_uuid X job_id)) (\<lambda>i.
       if \<not> is_leader (nd_raft n) then Inl (not_leader_status (nd_raft n))
       else case get_job (nd_queue n) i of
              None \<Rightarrow> Inl (grpc_error NotFound ''job not found'')
            | Some j \<Rightarrow>
                if \<not> job_active j
                then Inl (grpc_error FailedPrecondition (''job is already '' @ job_status_display (j_status j)))
                else Inr i)"

definition cancel_send :: "send_outcome \<Rightarrow> grpc_status + unit" where
  "cancel_send o1 = (if o1 = Sent then Inr () else Inl (grpc_error ResourceExhausted ''proposal queue full''))"

definition cancel_finish :: "ext \<Rightarrow> uuid \<Rightarrow> u64 raft_reply \<Rightarrow> grpc_status + string" where
  "cancel_finish X i reply =
     (case reply of
        Replied (Inr idx) \<Rightarrow> Inr (''job '' @ show_uuid X i @ '' cancelled'')
      | Replied (Inl e) \<Rightarrow> Inl (grpc_error Internal e)
      | _ \<Rightarrow> Inl (grpc_error DeadlineExceeded ''timed out waiting for Raft commit''))"

section \<open>Queries\<close>

text \<open>\<open>get_job_status\<close>; \<open>fetch\<close> asks the executing node for the output, and may fail.\<close>

definition base_status :: "ext \<Rightarrow> job \<Rightarrow> job_status_response" where
  "base_status X j =
     \<lparr>js_job_id = show_uuid X (j_id j), js_status = proto_status_number (status_to_proto (j_status j)),
      js_output = [], js_error = [], js_assigned_worker = none_as_zero (j_assigned_worker j),
      js_executed_by = none_as_zero (j_executed_by j), js_exit_code = j_exit_code j,
      js_created_at_ms = to_millis X (j_created_at j),
      js_completed_at_ms = map_option (to_millis X) (j_completed_at j)\<rparr>"

definition or_empty :: "string option \<Rightarrow> string" where
  "or_empty s = (case s of Some x \<Rightarrow> x | None \<Rightarrow> [])"

definition get_job_status ::
  "ext \<Rightarrow> (node_id \<Rightarrow> uuid \<Rightarrow> (string \<times> string) option) \<Rightarrow> string \<Rightarrow> 'db node \<Rightarrow> grpc_status + job_status_response" where
  "get_job_status X fetch job_id n =
     and_then (ok_or (grpc_error InvalidArgument ''Invalid job ID'') (parse_uuid X job_id)) (\<lambda>i.
     and_then (ok_or (grpc_error NotFound ''Job not found'') (get_job (nd_queue n) i)) (\<lambda>j.
       let base = base_status X j in
       Inr (if j_executed_by j = Some (nc_node_id (rn_config (nd_raft n)))
            then base\<lparr>js_output := or_empty (j_output j), js_error := or_empty (j_error j)\<rparr>
            else case j_executed_by j of
                   Some w \<Rightarrow>
                     if j_status j = Completed \<or> j_status j = Failed
                     then (case fetch w i of Some (out, err) \<Rightarrow> base\<lparr>js_output := out, js_error := err\<rparr> | None \<Rightarrow> base)
                     else base
                 | None \<Rightarrow> base)))"

definition job_to_info :: "ext \<Rightarrow> job \<Rightarrow> job_info" where
  "job_to_info X j =
     \<lparr>ji_job_id = show_uuid X (j_id j), ji_command = j_command j,
      ji_status = proto_status_number (status_to_proto (j_status j)),
      ji_assigned_worker = none_as_zero (j_assigned_worker j), ji_created_at_ms = to_millis X (j_created_at j),
      ji_completed_at_ms = map_option (to_millis X) (j_completed_at j)\<rparr>"

text \<open>\<open>list_jobs\<close>: page size, token and filters, then one page of the matching jobs.\<close>

definition page_limit :: "nat \<Rightarrow> nat" where
  "page_limit n = (if n = 0 then 100 else min n 1000)"

definition page_offset :: "string \<Rightarrow> grpc_status + nat" where
  "page_offset token =
     (if token = [] then Inr 0 else ok_or (grpc_error InvalidArgument ''Invalid page token'') (parse_u64 token))"

definition status_filter_of :: "int \<Rightarrow> job_status option" where
  "status_filter_of n = proto_to_status (proto_status_or_default n)"

definition nonzero :: "'a::zero \<Rightarrow> 'a option" where
  "nonzero x = (if x = 0 then None else Some x)"

definition matching_jobs :: "ext \<Rightarrow> (string \<Rightarrow> string) \<Rightarrow> list_jobs_request \<Rightarrow> job_queue \<Rightarrow> job list" where
  "matching_jobs X lower req q =
     filtered_jobs lower (of_millis X) (status_filter_of (lj_status_filter req)) (nonzero (lj_worker_id_filter req))
       (if lj_command_filter req = [] then None else Some (lj_command_filter req))
       (nonzero (lj_created_after_ms req)) (nonzero (lj_created_before_ms req)) q"

definition u32 :: "nat \<Rightarrow> nat" where
  "u32 n = n mod 4294967296"

definition list_jobs ::
  "ext \<Rightarrow> (string \<Rightarrow> string) \<Rightarrow> list_jobs_request \<Rightarrow> job_queue \<Rightarrow> grpc_status + list_jobs_response" where
  "list_jobs X lower req q =
     and_then (page_offset (lj_page_token req)) (\<lambda>offset.
       let matching = matching_jobs X lower req q;
           total = u32 (length matching);
           page = map (job_to_info X) (take (page_limit (lj_page_size req)) (drop offset matching));
           next_offset = offset + length page
       in Inr \<lparr>lr_jobs = page, lr_next_page_token = (if next_offset < total then show_nat next_offset else []),
               lr_total_count = total\<rparr>)"

text \<open>\<open>stream_jobs\<close>: what is sent to a client that stays connected.\<close>

definition stream_jobs :: "ext \<Rightarrow> int \<Rightarrow> job_queue \<Rightarrow> job_info list" where
  "stream_jobs X status_filter q =
     (let wanted = proto_status_try_from status_filter in
      map (job_to_info X) (filter (\<lambda>j. case wanted of
          Some p \<Rightarrow> \<not> (p \<noteq> PUnspecified \<and> status_to_proto (j_status j) \<noteq> p)
        | None \<Rightarrow> True) (all_jobs q)))"

section \<open>Cluster administration\<close>

text \<open>The address in its textual form; the textual form of an IPv6 address is an argument.\<close>

definition show_socket_addr :: "(nat list \<Rightarrow> string) \<Rightarrow> socket_addr \<Rightarrow> string" where
  "show_socket_addr show_v6 a =
     (case sa_ip a of
        V4 p q r s \<Rightarrow> show_nat p @ ''.'' @ show_nat q @ ''.'' @ show_nat r @ ''.'' @ show_nat s
      | V6 segs \<Rightarrow> ''['' @ show_v6 segs @ '']'') @ '':'' @ show_nat (sa_port a)"

definition node_list :: "(nat list \<Rightarrow> string) \<Rightarrow> instant \<Rightarrow> 'db raft_node \<Rightarrow> node_info list" where
  "node_list show_v6 now r =
     (let c = rn_config r; alive = get_peers_status now r in
      sort_key ni_node_id
        (\<lparr>ni_node_id = nc_node_id c, ni_address = show_socket_addr show_v6 (advertise_addr c), ni_is_alive = True\<rparr> #
         map (\<lambda>p. \<lparr>ni_node_id = pc_node_id p, ni_address = pc_addr p,
                    ni_is_alive = (case map_of (rev alive) (pc_node_id p) of Some b \<Rightarrow> b | None \<Rightarrow> False)\<rparr>) (nc_peers c)))"

definition leader_cluster_status :: "(nat list \<Rightarrow> string) \<Rightarrow> instant \<Rightarrow> 'db raft_node \<Rightarrow> cluster_status_response" where
  "leader_cluster_status show_v6 now r =
     \<lparr>cs_current_term = current_term (rn_state r), cs_leader_id = nc_node_id (rn_config r),
      cs_nodes = node_list show_v6 now r\<rparr>"

definition get_cluster_status ::
  "(nat list \<Rightarrow> string) \<Rightarrow> (string \<Rightarrow> grpc_status + 'c) \<Rightarrow> ('c \<Rightarrow> string + cluster_status_response) \<Rightarrow> bool \<Rightarrow> instant
    \<Rightarrow> 'db raft_node \<Rightarrow> (node_id, 'c) hmap \<Rightarrow> (node_id, 'c) hmap \<times> (grpc_status + cluster_status_response)" where
  "get_cluster_status show_v6 connect call has_tls now r pool =
     (if \<not> is_leader r then forward_to_leader connect call has_tls r pool
      else (pool, Inr (leader_cluster_status show_v6 now r)))"

definition leader_log_entries :: "ext \<Rightarrow> u64 \<Rightarrow> nat \<Rightarrow> raft_state \<Rightarrow> log_entries_response" where
  "leader_log_entries X start limit s =
     (let first = (if rlog s = [] then 0 else u64_inc (log_offset s));
          start_index = (if start = 0 then max first 1 else max start first)
      in \<lparr>lg_entries = map (\<lambda>e. \<lparr>lei_index = le_index e, lei_term = le_term e,
                          lei_command = pe_command (log_entry_to_proto X e),
                          lei_is_committed = (le_index e \<le> commit_index s)\<rparr>)
                        (take (page_limit limit) (get_entries_from s start_index)),
          lg_commit_index = commit_index s, lg_last_log_index = last_log_index s, lg_first_available_index = first\<rparr>)"

definition get_raft_log_entries ::
  "ext \<Rightarrow> (string \<Rightarrow> grpc_status + 'c) \<Rightarrow> ('c \<Rightarrow> string + log_entries_response) \<Rightarrow> bool \<Rightarrow> u64 \<Rightarrow> nat
    \<Rightarrow> 'db raft_node \<Rightarrow> (node_id, 'c) hmap \<Rightarrow> (node_id, 'c) hmap \<times> (grpc_status + log_entries_response)" where
  "get_raft_log_entries X connect call has_tls start limit r pool =
     (if \<not> is_leader r then forward_to_leader connect call has_tls r pool
      else (pool, Inr (leader_log_entries X start limit (rn_state r))))"

record transfer_response =
  tr_success :: bool
  tr_message :: string
  tr_new_leader_id :: node_id

definition transfer_target :: "u64 \<Rightarrow> node_id option" where
  "transfer_target i = nonzero i"

definition transfer_send :: "send_outcome \<Rightarrow> grpc_status + unit" where
  "transfer_send o1 =
     (if o1 = Sent then Inr () else Inl (grpc_error Internal ''Failed to send transfer request to Raft''))"

definition transfer_finish :: "node_id raft_reply \<Rightarrow> grpc_status + transfer_response" where
  "transfer_finish reply =
     (case reply of
        Replied (Inr l) \<Rightarrow> Inr \<lparr>tr_success = True, tr_message = ''Leadership transferred to node '' @ show_nat l,
                               tr_new_leader_id = l\<rparr>
      | Replied (Inl e) \<Rightarrow> Inr \<lparr>tr_success = False, tr_message = e, tr_new_leader_id = 0\<rparr>
      | _ \<Rightarrow> Inl (grpc_error Internal ''Failed to receive transfer response''))"

text \<open>
  \<open>drain_node\<close>: set the flag; poll the running jobs of this node until there are none or the deadline
  has passed; hand over leadership. The polls are a list of clock readings and queues; a list that
  ends before either happens is a drain that is still waiting.
\<close>

definition drain_start :: "'db node \<Rightarrow> 'db node" where
  "drain_start n = n\<lparr>nd_draining := True\<rparr>"

datatype drain_wait = Idle | DeadlinePassed | StillWaiting

fun drain_poll :: "node_id \<Rightarrow> instant \<Rightarrow> (instant \<times> job_queue) list \<Rightarrow> drain_wait" where
  "drain_poll me deadline [] = StillWaiting"
| "drain_poll me deadline ((now, q) # polls) =
     (if running_jobs_on_worker me q = 0 then Idle
      else if deadline \<le> now then DeadlinePassed
      else drain_poll me deadline polls)"

definition drain_transfers :: "'db node \<Rightarrow> bool" where
  "drain_transfers n = is_leader (nd_raft n)"

record drain_response =
  dr_success :: bool
  dr_message :: string

definition drain_response_ok :: drain_response where
  "drain_response_ok = \<lparr>dr_success = True, dr_message = ''Node drained successfully''\<rparr>"

text \<open>
  The whole handler. The second component says whether a transfer of leadership is requested; the
  answer does not depend on its outcome, nor on how the wait ended. \<open>None\<close> is a drain still waiting.
\<close>

definition drain_node ::
  "instant \<Rightarrow> (instant \<times> job_queue) list \<Rightarrow> 'db node \<Rightarrow> ('db node \<times> bool \<times> drain_response) option" where
  "drain_node deadline polls n =
     (let n1 = drain_start n in
      case drain_poll (nc_node_id (rn_config (nd_raft n1))) deadline polls of
        StillWaiting \<Rightarrow> None
      | _ \<Rightarrow> Some (n1, drain_transfers n1, drain_response_ok))"

section \<open>Status codes\<close>

definition client_encode_status :: "job_status \<Rightarrow> int" where
  "client_encode_status st = proto_status_number (status_to_proto st)"

interpretation client_status: status_codec client_encode_status status_filter_of
proof
  fix st
  show "status_filter_of (client_encode_status st) = Some st"
    by (cases st) (simp_all add: status_filter_of_def client_encode_status_def proto_status_or_default_def proto_status_try_from_def)
qed

text \<open>The two tables of status codes in the code base agree.\<close>

lemma status_tables_agree: "status_to_proto = internal_status_to_proto"
proof
  fix st show "status_to_proto st = internal_status_to_proto st" by (cases st) simp_all
qed

section \<open>The contract of submission\<close>

definition admissible :: "string \<Rightarrow> 'db node \<Rightarrow> bool" where
  "admissible cmd n \<longleftrightarrow>
     validate_command cmd = Inr () \<and> \<not> nd_draining n \<and> is_leader (nd_raft n) \<and> \<not> is_full (nd_queue n)"

text \<open>
  Both front ends check a submission, propose it and finish when the Raft loop has answered. What they
  promise: exactly the admissible submissions are proposed, an accepted proposal puts the new job into
  the queue, anything else leaves the node alone.
\<close>

locale submit_api =
  fixes check :: "uuid \<Rightarrow> datetime \<Rightarrow> string \<Rightarrow> string option \<Rightarrow> 'db node \<Rightarrow> 'e + job"
    and finish :: "ext \<Rightarrow> job \<Rightarrow> u64 raft_reply \<Rightarrow> 'db node \<Rightarrow> 'db node"
  assumes check_iff: "check i now cmd img n = Inr j \<longleftrightarrow> admissible cmd n \<and> j = new_job i now cmd img"
    and finish_ok: "finish X j (Replied (Inr idx)) n = n\<lparr>nd_queue := fst (add_job j (nd_queue n))\<rparr>"
    and finish_err: "\<forall>idx. reply \<noteq> Replied (Inr idx) \<Longrightarrow> finish X j reply n = n"
begin

lemma accepted_job:
  assumes "check i now cmd img n = Inr j"
  shows "j_id j = i" and "j_status j = Pending" and "j_command j = cmd" and "j_created_at j = now"
    and "j_image j \<noteq> Some []" and "all_ws cmd \<Longrightarrow> False"
  using assms validate_command_ok_iff [of cmd]
  by (auto simp: check_iff new_job_def job_new_def nonempty_image_def admissible_def split: option.splits)

lemma finish_wf: "queue_wf (nd_queue n) \<Longrightarrow> queue_wf (nd_queue (finish X j reply n))"
  using finish_ok [of X j _ n] finish_err [of reply X j n]
  by (cases "\<exists>idx. reply = Replied (Inr idx)") (auto simp: queue_wf_add)

lemma finish_within_limit: "within_limit (nd_queue n) \<Longrightarrow> within_limit (nd_queue (finish X j reply n))"
  using finish_ok [of X j _ n] finish_err [of reply X j n]
  by (cases "\<exists>idx. reply = Replied (Inr idx)") (auto simp: within_limit_add)

text \<open>The entry of the job, applied later, finds it there and leaves it alone.\<close>

lemma apply_after_finish:
  assumes "\<not> is_full (nd_queue n)"
  shows "apply_submit (j_id j) cmd t img (nd_queue (finish X j (Replied (Inr idx)) n)) =
      nd_queue (finish X j (Replied (Inr idx)) n)"
    and "get_job (nd_queue (finish X j (Replied (Inr idx)) n)) (j_id j) = Some j"
  using assms by (simp_all add: finish_ok apply_submit_def get_job_add)

text \<open>
  Applied earlier, the entry has put the job into the queue, and finishing overwrites it: whatever has
  happened to the job in between, an assignment or a cancellation, is undone.
\<close>

lemma finish_overwrites:
  assumes "\<not> is_full (nd_queue n)" and "get_job (nd_queue n) (j_id j) = Some k"
  shows "get_job (nd_queue (finish X j (Replied (Inr idx)) n)) (j_id j) = Some j"
  using assms by (simp add: finish_ok get_job_add)

end

definition grpc_finish :: "ext \<Rightarrow> job \<Rightarrow> u64 raft_reply \<Rightarrow> 'db node \<Rightarrow> 'db node" where
  "grpc_finish X j reply n = fst (submit_finish X j reply n)"

lemma sum_unit: "r = Inr () \<or> (\<exists>e. r = Inl e)" for r :: "'e + unit"
  by (cases r) auto

interpretation grpc_submit: submit_api submit_check grpc_finish
proof
  fix i now cmd img and n :: "'db node" and j
  show "submit_check i now cmd img n = Inr j \<longleftrightarrow> admissible cmd n \<and> j = new_job i now cmd img"
    by (cases "validate_command cmd") (auto simp: submit_check_def admissible_def)
next
  fix X j idx and n :: "'db node"
  show "grpc_finish X j (Replied (Inr idx)) n = n\<lparr>nd_queue := fst (add_job j (nd_queue n))\<rparr>"
    by (simp add: grpc_finish_def submit_finish_def split: prod.split)
next
  fix reply :: "u64 raft_reply" and X j and n :: "'db node"
  assume "\<forall>idx. reply \<noteq> Replied (Inr idx)"
  then show "grpc_finish X j reply n = n"
    by (auto simp: grpc_finish_def submit_finish_def split: raft_reply.split sum.split)
qed

section \<open>Connections are reused\<close>

lemma pool_get_result:
  assumes "hm_wf pool"
  shows "hm_wf (fst (pool_get i mk pool))"
    and "snd (pool_get i mk pool) = Inr c \<Longrightarrow> hm_get (fst (pool_get i mk pool)) i = Some c"
    and "snd (pool_get i mk pool) = Inr c \<Longrightarrow> pool_get i mk' (fst (pool_get i mk pool)) = (fst (pool_get i mk pool), Inr c)"
    and "k \<noteq> i \<Longrightarrow> hm_get (fst (pool_get i mk pool)) k = hm_get pool k"
  using assms hm.wf_insert [of pool i]
  by (auto simp: pool_get_def split: option.splits sum.splits)

lemma get_client_unknown:
  assumes "i \<notin> set (peer_ids c)" and "hm_get pool i = None"
  shows "get_client connect c has_tls i pool = (pool, Inl (grpc_error NotFound (''Unknown node '' @ show_nat i)))"
proof -
  from assms(1) have "List.find (\<lambda>p. pc_node_id p = i) (nc_peers c) = None"
    by (auto simp: find_None_iff peer_ids_def)
  with assms(2) show ?thesis by (simp add: get_client_def pool_get_def peer_addr_def)
qed

section \<open>Pages\<close>

lemma page_limit_bounds: "1 \<le> page_limit n" "page_limit n \<le> 1000"
  by (simp_all add: page_limit_def)

lemma page_offset_token: "n \<le> u64_max \<Longrightarrow> page_offset (if n = 0 then [] else show_nat n) = Inr n"
  by (simp add: page_offset_def parse_u64_show_nat)

lemma page_offset_show: "n \<le> u64_max \<Longrightarrow> page_offset (show_nat n) = Inr n"
  by (simp add: page_offset_def parse_u64_show_nat)

text \<open>A page request whose token has been read.\<close>

lemma list_jobs_page:
  assumes "page_offset (lj_page_token req) = Inr k" and "length (matching_jobs X lower req q) < 4294967296"
  shows "list_jobs X lower req q =
      Inr \<lparr>lr_jobs = map (job_to_info X) (take (page_limit (lj_page_size req)) (drop k (matching_jobs X lower req q))),
           lr_next_page_token =
             (if k + page_limit (lj_page_size req) < length (matching_jobs X lower req q)
              then show_nat (k + page_limit (lj_page_size req)) else []),
           lr_total_count = length (matching_jobs X lower req q)\<rparr>"
  using assms page_limit_bounds [of "lj_page_size req"]
  by (auto simp: list_jobs_def u32_def Let_def min_def)

lemma matching_jobs_token: "matching_jobs X lower (req\<lparr>lj_page_token := t\<rparr>) q = matching_jobs X lower req q"
  by (simp add: matching_jobs_def)

section \<open>Administration\<close>

lemma node_list_ids:
  "mset (map ni_node_id (node_list show_v6 now r)) = mset (nc_node_id (rn_config r) # peer_ids (rn_config r))"
  by (simp add: node_list_def Let_def peer_ids_def image_mset.compositionality comp_def)

lemma node_list_sorted: "sorted (map ni_node_id (node_list show_v6 now r))"
  unfolding node_list_def Let_def by (rule sorted_sort_key)

lemma node_list_self:
  "\<exists>i \<in> set (node_list show_v6 now r). ni_node_id i = nc_node_id (rn_config r) \<and> ni_is_alive i"
  unfolding node_list_def Let_def set_sort by simp

lemma drain_poll_idle:
  "drain_poll me deadline polls = Idle \<Longrightarrow> \<exists>(now, q) \<in> set polls. running_jobs_on_worker me q = 0"
  by (induction me deadline polls rule: drain_poll.induct) (auto split: if_splits)

lemma drain_poll_ends:
  "(now, q) \<in> set polls \<Longrightarrow> deadline \<le> now \<Longrightarrow> drain_poll me deadline polls \<noteq> StillWaiting"
  by (induction me deadline polls rule: drain_poll.induct) auto

lemma drain_node_returns:
  assumes "(now, q) \<in> set polls" and "deadline \<le> now"
  shows "\<exists>transfer. drain_node deadline polls n = Some (n\<lparr>nd_draining := True\<rparr>, transfer, drain_response_ok)"
proof -
  have "drain_poll me deadline polls \<noteq> StillWaiting" for me using drain_poll_ends [OF assms] .
  then show ?thesis by (auto simp: drain_node_def drain_start_def Let_def split: drain_wait.split)
qed

lemma drained_rejects_submissions:
  "drain_node deadline polls n = Some (n', transfer, r) \<Longrightarrow>
   submit_check i now cmd img n' = Inl (grpc_error Unavailable ''Node is draining and not accepting new jobs'')"
  by (auto simp: drain_node_def drain_start_def submit_check_def Let_def split: drain_wait.splits)

end
