(* ===== verification/Cluster_Services.thy ===== *)
theory Cluster_Services
  imports Client_Service Worker_Loop
begin

text \<open>
  The node-to-node services: Raft messages (\<open>src/grpc/cluster_service.rs\<close>), each handled by the Raft node
  with panics caught, and job outputs, heartbeats and forwarded results
  (\<open>src/grpc/internal_service.rs\<close>).
\<close>

section \<open>Raft messages\<close>

text \<open>
  \<open>catch_unwind\<close> around a handler: a panic is an error to the caller. The second component is the node
  after the call; a panic leaves it to the state it happens to be in, which is not modelled.
\<close>

definition guard_rpc :: "string \<Rightarrow> ('n \<times> 'r) option \<Rightarrow> (grpc_status + 'r) \<times> 'n option" where
  "guard_rpc name result =
     (case result of
        Some (n, r) \<Rightarrow> (Inr r, Some n)
      | None \<Rightarrow> (Inl (grpc_error Internal (''Internal error in '' @ name @ '' handler'')), None))"

definition rpc_request_vote ::
  "'db kv \<Rightarrow> serde \<Rightarrow> instant \<Rightarrow> vote_request \<Rightarrow> 'db raft_node \<Rightarrow> (grpc_status + vote_response) \<times> 'db raft_node option" where
  "rpc_request_vote K C now req n = guard_rpc ''RequestVote'' (handle_vote_request K C now req n)"

definition rpc_append_entries ::
  "'db kv \<Rightarrow> serde \<Rightarrow> ext \<Rightarrow> instant \<Rightarrow> append_entries_request \<Rightarrow> 'db raft_node
    \<Rightarrow> (grpc_status + append_entries_response) \<times> 'db raft_node option" where
  "rpc_append_entries K C X now req n = guard_rpc ''AppendEntries'' (handle_append_entries_node K C X now req n)"

definition rpc_timeout_now ::
  "'db kv \<Rightarrow> serde \<Rightarrow> (node_id \<Rightarrow> vote_request \<Rightarrow> vote_response option) \<Rightarrow> instant \<Rightarrow> timeout_now_request \<Rightarrow> 'db raft_node
    \<Rightarrow> (grpc_status + timeout_now_response) \<times> 'db raft_node option" where
  "rpc_timeout_now K C ask now req n = guard_rpc ''TimeoutNow'' (handle_timeout_now K C ask now req n)"

definition rpc_install_snapshot ::
  "'db kv \<Rightarrow> serde \<Rightarrow> ext \<Rightarrow> instant \<Rightarrow> install_snapshot_request \<Rightarrow> 'db raft_node
    \<Rightarrow> (grpc_status + install_snapshot_response) \<times> 'db raft_node option" where
  "rpc_install_snapshot K C X now req n = guard_rpc ''InstallSnapshot'' (handle_install_snapshot_node K C X now req n)"

section \<open>Outputs, heartbeats and results\<close>

record job_output_response =
  jo_job_id :: string
  jo_output :: string
  jo_error :: string
  jo_found :: bool

definition get_job_output :: "ext \<Rightarrow> node_id \<Rightarrow> string \<Rightarrow> job_queue \<Rightarrow> grpc_status + job_output_response" where
  "get_job_output X me job_id q =
     and_then (ok_or (grpc_error InvalidArgument ''Invalid job ID'') (parse_uuid X job_id)) (\<lambda>i.
       case get_job q i of
         Some j \<Rightarrow>
           if j_executed_by j = Some me
           then Inr \<lparr>jo_job_id = show_uuid X (j_id j), jo_output = or_empty (j_output j),
                     jo_error = or_empty (j_error j), jo_found = True\<rparr>
           else Inr \<lparr>jo_job_id = job_id, jo_output = [], jo_error = [], jo_found = False\<rparr>
       | None \<Rightarrow> Inl (grpc_error NotFound ''Job not found''))"

definition internal_heartbeat :: "instant \<Rightarrow> node_id \<Rightarrow> job_assigner \<Rightarrow> job_assigner" where
  "internal_heartbeat now i a = worker_heartbeat now i a"

definition internal_to_update :: "ext \<Rightarrow> proto_update \<Rightarrow> job_status_update option" where
  "internal_to_update X u =
     map_option (\<lambda>i. \<lparr>jsu_job_id = i, jsu_status = proto_status_to_internal (proto_status_or_default (pu_status u)),
        jsu_executed_by = pu_executed_by u, jsu_exit_code = pu_exit_code u,
        jsu_completed_at = map_option (\<lambda>ms. case of_millis X ms of Some d \<Rightarrow> d | None \<Rightarrow> 0) (pu_completed_at_ms u)\<rparr>)
       (parse_uuid X (pu_job_id u))"

text \<open>
  \<open>forward_job_status\<close> up to the message for the Raft loop, if there is one to send; a service built
  without a Raft node refuses. The request succeeds when the message could be sent.
\<close>

definition forward_job_status :: "ext \<Rightarrow> bool \<Rightarrow> proto_update list \<Rightarrow> grpc_status + command option" where
  "forward_job_status X has_raft us =
     (if \<not> has_raft then Inl (grpc_error Unavailable ''Raft not available'')
      else if us = [] then Inr None
      else Inr (Some (updates_command (List.map_filter (internal_to_update X) us))))"

definition forward_reply :: "command option \<Rightarrow> bool \<Rightarrow> grpc_status + unit" where
  "forward_reply c sent =
     (if c = None \<or> sent then Inr () else Inl (grpc_error Internal ''Failed to propose status update''))"

text \<open>\<open>fetch_output_from_node\<close> of the client service, on the node it asks.\<close>

definition fetch_output :: "ext \<Rightarrow> node_id \<Rightarrow> uuid \<Rightarrow> job_queue \<Rightarrow> (string \<times> string) option" where
  "fetch_output X w i q =
     (case get_job_output X w (show_uuid X i) q of
        Inr r \<Rightarrow> if jo_found r then Some (jo_output r, jo_error r) else None
      | Inl e \<Rightarrow> None)"

section \<open>Lemmas\<close>

text \<open>What a follower forwards arrives at the leader as the updates it recorded, up to milliseconds.\<close>

lemma internal_to_update_eq: "internal_to_update X u = proto_to_update X u"
  by (cases u) (simp add: internal_to_update_def proto_to_update_def ms_to_datetime_def [abs_def] split: option.split)

lemma forward_job_status_round_trip:
  assumes "uuid_laws X" and "us \<noteq> []"
  shows "forward_job_status X True (map (forward_update X) us) = Inr (Some (updates_command (map (norm_update X) us)))"
  using assms map_filter_map_Some [of us "\<lambda>u. internal_to_update X (forward_update X u)" "norm_update X"]
  by (simp add: forward_job_status_def map_filter_map internal_to_update_eq forward_update_proto
      proto_to_update_to_proto)

lemma fetch_output_found:
  assumes "uuid_laws X" and "get_job q i = Some j" and "j_executed_by j = Some w"
  shows "fetch_output X w i q = Some (or_empty (j_output j), or_empty (j_error j))"
  using assms by (simp add: fetch_output_def get_job_output_def parse_show_uuid)

lemma guard_rpc_ok: "result = Some (n, r) \<Longrightarrow> guard_rpc name result = (Inr r, Some n)"
  by (simp add: guard_rpc_def)

end
