(* ===== verification/Dashboard.thy ===== *)
theory Dashboard
  imports Client_Service
begin

text \<open>
  The HTTP dashboard (\<open>src/dashboard/mod.rs\<close>): its JSON handlers as functions of the node, split where
  they wait for the Raft loop, as in the gRPC service. An answer is a status code and a body.
  Both services take jobs in; the contract they share is the locale \<open>submit_api\<close>.
\<close>

section \<open>Types\<close>

datatype http_status = OK | BAD_REQUEST | NOT_FOUND | SERVICE_UNAVAILABLE | INTERNAL_SERVER_ERROR

record submit_reply =
  sp_success :: bool
  sp_job_id :: "string option"
  sp_error :: "string option"

record cancel_reply =
  cp_success :: bool
  cp_error :: "string option"

record ready_reply =
  rp_status :: string
  rp_leader_id :: "node_id option"

record job_reply =
  jp_id :: string
  jp_command :: string
  jp_status :: string
  jp_executed_by :: "node_id option"
  jp_output :: "string option"
  jp_error :: "string option"
  jp_created_at :: string
  jp_completed_at :: "string option"

record cluster_reply =
  clp_node_id :: node_id
  clp_role :: string
  clp_current_term :: u64
  clp_leader_id :: "node_id option"
  clp_commit_index :: u64
  clp_last_applied :: u64
  clp_log_length :: u64
  clp_nodes :: "node_info list"

definition submit_failure :: "string \<Rightarrow> submit_reply" where
  "submit_failure e = \<lparr>sp_success = False, sp_job_id = None, sp_error = Some e\<rparr>"

definition cancel_failure :: "string \<Rightarrow> cancel_reply" where
  "cancel_failure e = \<lparr>cp_success = False, cp_error = Some e\<rparr>"

section \<open>Handlers\<close>

definition ready_handler :: "'db raft_node \<Rightarrow> http_status \<times> ready_reply" where
  "ready_handler r =
     (case get_leader_id r of
        Some l \<Rightarrow> (OK, \<lparr>rp_status = ''ok'', rp_leader_id = Some l\<rparr>)
      | None \<Rightarrow> (SERVICE_UNAVAILABLE, \<lparr>rp_status = ''no_leader'', rp_leader_id = None\<rparr>))"

definition dash_submit_check ::
  "uuid \<Rightarrow> datetime \<Rightarrow> string \<Rightarrow> string option \<Rightarrow> 'db node \<Rightarrow> (http_status \<times> submit_reply) + job" where
  "dash_submit_check i now cmd img n =
     (case validate_command cmd of
        Inl e \<Rightarrow> Inl (BAD_REQUEST, submit_failure (command_error_msg e))
      | Inr _ \<Rightarrow>
          if nd_draining n
          then Inl (SERVICE_UNAVAILABLE, submit_failure ''Node is draining and not accepting new jobs'')
          else if \<not> is_leader (nd_raft n) then Inl (BAD_REQUEST, submit_failure ''Not the leader'')
          else if is_full (nd_queue n) then Inl (SERVICE_UNAVAILABLE, submit_failure ''Job queue is at capacity'')
          else Inr (new_job i now cmd img))"

definition dash_submit_finish ::
  "ext \<Rightarrow> job \<Rightarrow> bool \<Rightarrow> u64 raft_reply \<Rightarrow> 'db node \<Rightarrow> 'db node \<times> (http_status \<times> submit_reply)" where
  "dash_submit_finish X j sent reply n =
     (if \<not> sent then (n, INTERNAL_SERVER_ERROR, submit_failure ''Failed to send to Raft'')
      else case reply of
             Replied (Inr idx) \<Rightarrow>
               (let (q, ok) = add_job j (nd_queue n) in
                (n\<lparr>nd_queue := q\<rparr>,
                 if ok then (OK, \<lparr>sp_success = True, sp_job_id = Some (show_uuid X (j_id j)), sp_error = None\<rparr>)
                 else (SERVICE_UNAVAILABLE, submit_failure ''Job queue is at capacity'')))
           | Replied (Inl e) \<Rightarrow> (n, BAD_REQUEST, submit_failure e)
           | _ \<Rightarrow> (n, INTERNAL_SERVER_ERROR, submit_failure ''Raft response failed''))"

definition dash_cancel_check :: "ext \<Rightarrow> string \<Rightarrow> 'db node \<Rightarrow> (http_status \<times> cancel_reply) + uuid" where
  "dash_cancel_check X job_id n =
     and_then (ok_or (BAD_REQUEST, cancel_failure ''invalid job id'') (parse_uuid X job_id)) (\<lambda>i.
       if \<not> is_leader (nd_raft n) then Inl (BAD_REQUEST, cancel_failure ''not the leader'')
       else case get_job (nd_queue n) i of
              None \<Rightarrow> Inl (NOT_FOUND, cancel_failure ''job not found'')
            | Some j \<Rightarrow>
                if \<not> job_active j
                then Inl (BAD_REQUEST, cancel_failure (''job is already '' @ job_status_display (j_status j)))
                else Inr i)"

definition dash_cancel_finish :: "bool \<Rightarrow> u64 raft_reply \<Rightarrow> http_status \<times> cancel_reply" where
  "dash_cancel_finish sent reply =
     (if \<not> sent then (INTERNAL_SERVER_ERROR, cancel_failure ''failed to send to Raft'')
      else case reply of
             Replied (Inr idx) \<Rightarrow> (OK, \<lparr>cp_success = True, cp_error = None\<rparr>)
           | Replied (Inl e) \<Rightarrow> (BAD_REQUEST, cancel_failure e)
           | _ \<Rightarrow> (INTERNAL_SERVER_ERROR, cancel_failure ''Raft response failed''))"

text \<open>\<open>rfc3339\<close> is chrono's rendering of an instant.\<close>

definition list_jobs_handler :: "ext \<Rightarrow> (datetime \<Rightarrow> string) \<Rightarrow> job_queue \<Rightarrow> job_reply list" where
  "list_jobs_handler X rfc3339 q =
     map (\<lambda>j. \<lparr>jp_id = show_uuid X (j_id j), jp_command = j_command j, jp_status = job_status_display (j_status j),
        jp_executed_by = j_executed_by j, jp_output = j_output j, jp_error = j_error j,
        jp_created_at = rfc3339 (j_created_at j), jp_completed_at = map_option rfc3339 (j_completed_at j)\<rparr>)
       (all_jobs q)"

text \<open>
  \<open>get_nodes_from_leader\<close>; \<open>ask_leader\<close> is the request sent to an URI, and \<open>None\<close> where any step of it
  fails.
\<close>

definition get_nodes_from_leader ::
  "(string \<Rightarrow> cluster_status_response option) \<Rightarrow> bool \<Rightarrow> 'db raft_node \<Rightarrow> node_info list option" where
  "get_nodes_from_leader ask_leader has_tls r =
     do {
       l \<leftarrow> get_leader_id r;
       p \<leftarrow> List.find (\<lambda>p. pc_node_id p = l) (nc_peers (rn_config r));
       resp \<leftarrow> ask_leader (client_uri has_tls (pc_addr p));
       Some (cs_nodes resp)
     }"

definition degraded_nodes :: "(nat list \<Rightarrow> string) \<Rightarrow> 'db raft_node \<Rightarrow> node_info list" where
  "degraded_nodes show_v6 r =
     (let c = rn_config r in
      sort_key ni_node_id
        (\<lparr>ni_node_id = nc_node_id c, ni_address = show_socket_addr show_v6 (advertise_addr c), ni_is_alive = True\<rparr> #
         map (\<lambda>p. \<lparr>ni_node_id = pc_node_id p, ni_address = pc_addr p, ni_is_alive = False\<rparr>) (nc_peers c)))"

definition cluster_status_handler ::
  "(nat list \<Rightarrow> string) \<Rightarrow> (string \<Rightarrow> cluster_status_response option) \<Rightarrow> bool \<Rightarrow> instant \<Rightarrow> 'db raft_node \<Rightarrow> cluster_reply" where
  "cluster_status_handler show_v6 ask_leader has_tls now r =
     (let s = rn_state r in
      \<lparr>clp_node_id = nc_node_id (rn_config r), clp_role = raft_role_display (role s),
       clp_current_term = current_term s,
       clp_leader_id = (if role s = Leader then Some (nc_node_id (rn_config r)) else leader_id s),
       clp_commit_index = commit_index s, clp_last_applied = last_applied s, clp_log_length = last_log_index s,
       clp_nodes =
         (if role s = Leader then node_list show_v6 now r
          else case get_nodes_from_leader ask_leader has_tls r of
                 Some ns \<Rightarrow> ns
               | None \<Rightarrow> degraded_nodes show_v6 r)\<rparr>)"

section \<open>The dashboard takes the same jobs as the gRPC service\<close>

definition dash_finish :: "ext \<Rightarrow> job \<Rightarrow> u64 raft_reply \<Rightarrow> 'db node \<Rightarrow> 'db node" where
  "dash_finish X j reply n = fst (dash_submit_finish X j True reply n)"

interpretation dash_submit: submit_api dash_submit_check dash_finish
proof
  fix i now cmd img and n :: "'db node" and j
  show "dash_submit_check i now cmd img n = Inr j \<longleftrightarrow> admissible cmd n \<and> j = new_job i now cmd img"
    by (cases "validate_command cmd") (auto simp: dash_submit_check_def admissible_def)
next
  fix X j idx and n :: "'db node"
  show "dash_finish X j (Replied (Inr idx)) n = n\<lparr>nd_queue := fst (add_job j (nd_queue n))\<rparr>"
    by (simp add: dash_finish_def dash_submit_finish_def split: prod.split)
next
  fix reply :: "u64 raft_reply" and X j and n :: "'db node"
  assume "\<forall>idx. reply \<noteq> Replied (Inr idx)"
  then show "dash_finish X j reply n = n"
    by (auto simp: dash_finish_def dash_submit_finish_def split: raft_reply.split sum.split)
qed

lemma front_ends_agree:
  "dash_submit_check i now cmd img n = Inr j \<longleftrightarrow> submit_check i now cmd img n = Inr j"
  by (simp add: dash_submit.check_iff grpc_submit.check_iff)

lemma cancel_checks_agree:
  "dash_cancel_check X s n = Inr i \<longleftrightarrow> cancel_check X s n = Inr i"
  by (cases "parse_uuid X s") (auto simp: dash_cancel_check_def cancel_check_def split: option.split)

lemma cancel_check_ok_iff:
  "cancel_check X s n = Inr i \<longleftrightarrow>
     parse_uuid X s = Some i \<and> is_leader (nd_raft n) \<and> (\<exists>j. get_job (nd_queue n) i = Some j \<and> job_active j)"
  by (cases "parse_uuid X s") (auto simp: cancel_check_def split: option.split)

lemma ready_iff_leader_known: "fst (ready_handler r) = OK \<longleftrightarrow> get_leader_id r \<noteq> None"
  by (simp add: ready_handler_def split: option.split)

text \<open>Cut off from the leader, a follower still lists the whole cluster, and only itself as alive.\<close>

lemma degraded_nodes_ids: "map ni_node_id (degraded_nodes show_v6 r) = map ni_node_id (node_list show_v6 now r)"
proof -
  have "mset (map ni_node_id (degraded_nodes show_v6 r)) = mset (map ni_node_id (node_list show_v6 now r))"
    unfolding node_list_ids by (simp add: degraded_nodes_def Let_def peer_ids_def image_mset.compositionality comp_def)
  moreover have "sorted (map ni_node_id (degraded_nodes show_v6 r))"
    unfolding degraded_nodes_def Let_def by (rule sorted_sort_key)
  ultimately show ?thesis using node_list_sorted by (metis properties_for_sort sorted_sort_id)
qed

end
