(* ===== verification/Cli.thy ===== *)
theory Cli
  imports Cluster_Services Dashboard
begin

text \<open>
  The command line (\<open>src/main.rs\<close>): the server's arguments and start-up decisions, and the client
  commands. A gRPC call is an argument, a function from the request to a status message or a response;
  so are the file system and the dialling of an address. What a command prints is its result; leaving
  with exit code 1 is \<open>Exit\<close> with the lines on the error stream, and an error returned from \<open>main\<close> is
  \<open>Abort\<close>. JSON rendering and table layout are left out, but for the truncation of long fields.
\<close>

section \<open>Arguments\<close>

record server_args =
  sa_node_id :: node_id
  sa_listen_port :: nat
  sa_dashboard_port :: "nat option"
  sa_peers :: string
  sa_image :: string
  sa_tls :: bool
  sa_ca_cert :: "path option"
  sa_cert :: "path option"
  sa_key :: "path option"
  sa_allow_insecure :: bool
  sa_data_dir :: "path option"
  sa_advertise_addr :: "string option"

record client_args =
  ca_addr :: string
  ca_ca_cert :: "path option"
  ca_cert :: "path option"
  ca_key :: "path option"

datatype 'r outcome = Printed 'r | Exit "string list" | Abort string

fun outcome_of :: "string + 'r \<Rightarrow> 'r outcome" where
  "outcome_of (Inr x) = Printed x"
| "outcome_of (Inl e) = Abort e"

section \<open>Helpers\<close>

definition job_status_to_string :: "int \<Rightarrow> string" where
  "job_status_to_string n =
     (case proto_status_try_from n of
        Some PPending \<Rightarrow> ''PENDING''
      | Some PRunning \<Rightarrow> ''RUNNING''
      | Some PCompleted \<Rightarrow> ''COMPLETED''
      | Some PFailed \<Rightarrow> ''FAILED''
      | Some PCancelled \<Rightarrow> ''CANCELLED''
      | _ \<Rightarrow> ''UNKNOWN'')"

text \<open>\<open>parse_peers\<close>: a peer that is not of the form \<open>id:host:port\<close>, or whose id is no number, is skipped.\<close>

definition parse_peer :: "string \<Rightarrow> peer_config option" where
  "parse_peer s =
     (case split_on (CHR '':'') (trim s) of
        [i, host, port] \<Rightarrow>
          map_option (\<lambda>n. \<lparr>pc_node_id = n, pc_addr = host @ '':'' @ port\<rparr>) (parse_u64 i)
      | _ \<Rightarrow> None)"

definition parse_peers :: "string \<Rightarrow> peer_config list" where
  "parse_peers s = (if s = [] then [] else List.map_filter parse_peer (split_on (CHR '','') s))"

text \<open>
  \<open>create_channel_with_tls\<close>: what is read and what the connection presents. \<open>valid_uri\<close> is the check of
  \<open>Channel::from_shared\<close> and \<open>dial\<close> the connection attempt.
\<close>

record client_tls =
  ct_ca :: "string option"
  ct_identity :: "(string \<times> string) option"

definition read_optional :: "(path \<Rightarrow> string + string) \<Rightarrow> path option \<Rightarrow> string + string option" where
  "read_optional read_file p = (case p of None \<Rightarrow> Inr None | Some f \<Rightarrow> and_then (read_file f) (\<lambda>x. Inr (Some x)))"

definition read_identity ::
  "(path \<Rightarrow> string + string) \<Rightarrow> path option \<Rightarrow> path option \<Rightarrow> string + (string \<times> string) option" where
  "read_identity read_file cert key =
     (case (cert, key) of
        (Some c, Some k) \<Rightarrow>
          and_then (read_file c) (\<lambda>c. and_then (read_file k) (\<lambda>k. Inr (Some (c, k))))
      | _ \<Rightarrow> Inr None)"

definition create_channel_with_tls ::
  "(string \<Rightarrow> string + unit) \<Rightarrow> (path \<Rightarrow> string + string) \<Rightarrow> (string \<Rightarrow> client_tls option \<Rightarrow> string + 'c) \<Rightarrow> string
    \<Rightarrow> path option \<Rightarrow> path option \<Rightarrow> path option \<Rightarrow> string + 'c" where
  "create_channel_with_tls valid_uri read_file dial addr ca cert key =
     and_then (valid_uri addr) (\<lambda>_.
       if ca \<noteq> None \<or> starts_with ''https://'' addr then
         and_then (read_optional read_file ca) (\<lambda>ca_pem.
         and_then (read_identity read_file cert key) (\<lambda>ident.
           dial addr (Some \<lparr>ct_ca = ca_pem, ct_identity = ident\<rparr>)))
       else dial addr None)"

definition leader_addr_from_error :: "string \<Rightarrow> string option" where
  "leader_addr_from_error msg = strip_prefix ''Not the leader. Try '' msg"

definition find_leader_addr :: "string + cluster_status_response \<Rightarrow> string + string option" where
  "find_leader_addr answer =
     and_then answer (\<lambda>r.
       Inr (map_option ni_address (List.find (\<lambda>n. ni_node_id n = cs_leader_id r) (cs_nodes r))))"

text \<open>\<open>status\<close> is the answer to the status request, which is only made when the message has no address.\<close>

definition resolve_leader_url :: "string \<Rightarrow> string + cluster_status_response \<Rightarrow> client_args \<Rightarrow> string option" where
  "resolve_leader_url msg status args =
     (let scheme = (if starts_with ''https://'' (ca_addr args) then ''https://'' else ''http://'') in
      case leader_addr_from_error msg of
        Some addr \<Rightarrow> Some (scheme @ addr)
      | None \<Rightarrow> (case find_leader_addr status of
                  Inr (Some addr) \<Rightarrow> Some (scheme @ addr)
                | _ \<Rightarrow> None))"

section \<open>The server\<close>

text \<open>
  The TLS decision of \<open>run_server\<close>: refuse to start, run with an identity, or run without. The texts
  of the errors of \<open>TlsIdentity::load\<close> are its \<open>Display\<close>.
\<close>

definition server_tls_config :: "server_args \<Rightarrow> tls_config" where
  "server_tls_config a =
     \<lparr>tls_enabled = sa_tls a, ca_cert_path = sa_ca_cert a, cert_path = sa_cert a, key_path = sa_key a,
      allow_insecure = sa_allow_insecure a\<rparr>"

definition server_tls ::
  "(path \<Rightarrow> bool) \<Rightarrow> (path \<Rightarrow> string option) \<Rightarrow> (tls_error \<Rightarrow> string) \<Rightarrow> server_args \<Rightarrow> string + tls_identity option" where
  "server_tls file_exists read_file show_error a =
     (let c = server_tls_config a in
      if is_complete c then
        (case tls_load file_exists read_file c of
           Inr i \<Rightarrow> Inr (Some i)
         | Inl e \<Rightarrow> if allow_insecure c then Inr None
                    else Inl (''TLS certificate loading failed: '' @ show_error e))
      else if tls_enabled c then
        (if allow_insecure c then Inr None
         else Inl ''TLS enabled but missing required paths (--ca-cert, --cert, --key)'')
      else Inr None)"

text \<open>The node's configuration; \<open>parse_addr\<close> is \<open>SocketAddr::from_str\<close> with the error's text.\<close>

definition server_config :: "(string \<Rightarrow> string + socket_addr) \<Rightarrow> server_args \<Rightarrow> string + node_config" where
  "server_config parse_addr a =
     and_then (case sa_advertise_addr a of
                 Some s \<Rightarrow> (case parse_addr s of Inr x \<Rightarrow> Inr x | Inl e \<Rightarrow> Inl (''invalid --advertise-addr: '' @ e))
               | None \<Rightarrow> Inr \<lparr>sa_ip = V4 127 0 0 1, sa_port = sa_listen_port a\<rparr>) (\<lambda>advertise.
       Inr \<lparr>nc_node_id = sa_node_id a, listen_addr = \<lparr>sa_ip = V4 0 0 0 0, sa_port = sa_listen_port a\<rparr>,
            advertise_addr = advertise, nc_peers = parse_peers (sa_peers a), election_timeout_min_ms = 150,
            election_timeout_max_ms = 300, heartbeat_interval_ms = 50,
            sandbox = sandbox_default\<lparr>sb_image := sa_image a\<rparr>, tls = server_tls_config a,
            data_dir = sa_data_dir a\<rparr>)"

text \<open>\<open>run_server\<close> up to the node it starts, with the identity it runs with.\<close>

definition run_server ::
  "'db kv \<Rightarrow> serde \<Rightarrow> (path \<Rightarrow> 'db) \<Rightarrow> (path \<Rightarrow> bool) \<Rightarrow> (path \<Rightarrow> string option) \<Rightarrow> (tls_error \<Rightarrow> string)
    \<Rightarrow> (string \<Rightarrow> string + socket_addr) \<Rightarrow> instant \<Rightarrow> server_args \<Rightarrow> (string + ('db node \<times> tls_identity option)) option" where
  "run_server K C open_db file_exists read_file show_error parse_addr now a =
     (case server_tls file_exists read_file show_error a of
        Inl e \<Rightarrow> Some (Inl e)
      | Inr ident \<Rightarrow>
          (case server_config parse_addr a of
             Inl e \<Rightarrow> Some (Inl e)
           | Inr c \<Rightarrow> map_option (\<lambda>n. Inr (n, ident)) (node_new K C open_db now c)))"

section \<open>Client commands\<close>

text \<open>
  Submission and cancellation have the same shape: one call, and one more to the leader when the
  first node names it. The calls are made on a client; \<open>connect\<close> makes the second one.
\<close>

definition hint_lines :: "string \<Rightarrow> string \<Rightarrow> string list" where
  "hint_lines what msg =
     [''Error: '' @ msg, ''Hint: Use -a to specify the leader's address, e.g.:'',
      ''  nomad-lite -a http://<leader-ip>:<port> job '' @ what @ '' ...'']"

definition with_redirect ::
  "string \<Rightarrow> string \<Rightarrow> (string \<Rightarrow> string + 'c) \<Rightarrow> ('c \<Rightarrow> string + 'r) \<Rightarrow> string + cluster_status_response
    \<Rightarrow> client_args \<Rightarrow> 'c \<Rightarrow> 'r outcome" where
  "with_redirect what failed connect call status args client =
     (case call client of
        Inr r \<Rightarrow> Printed r
      | Inl msg \<Rightarrow>
          if str_contains msg ''Not the leader'' then
            (case resolve_leader_url msg status args of
               Some url \<Rightarrow>
                 (case connect url of
                    Inl e \<Rightarrow> Abort e
                  | Inr leader \<Rightarrow>
                      (case call leader of
                         Inr r \<Rightarrow> Printed r
                       | Inl e \<Rightarrow> Exit [''Error: '' @ failed @ '' after redirect: '' @ e]))
             | None \<Rightarrow> Exit (hint_lines what msg))
          else Exit [''Error: '' @ failed @ '': '' @ msg])"

definition handle_job_submit ::
  "(string \<Rightarrow> string + 'c) \<Rightarrow> ('c \<Rightarrow> string \<Rightarrow> string option \<Rightarrow> string + submit_response) \<Rightarrow> string + cluster_status_response
    \<Rightarrow> client_args \<Rightarrow> 'c \<Rightarrow> string \<Rightarrow> string option \<Rightarrow> submit_response outcome" where
  "handle_job_submit connect submit status args client cmd img =
     with_redirect ''submit'' ''Job submission failed'' connect (\<lambda>c. submit c cmd img) status args client"

text \<open>
  An answer that reports a failure ends the command with exit code 1 in the table format; in the JSON
  format it is printed like any other answer.
\<close>

definition report :: "bool \<Rightarrow> string \<Rightarrow> bool \<Rightarrow> string \<Rightarrow> 'r \<Rightarrow> 'r outcome" where
  "report json what success msg r = (if json \<or> success then Printed r else Exit [what @ '': '' @ msg])"

record cancel_response =
  cn_success :: bool
  cn_message :: string

definition handle_job_cancel ::
  "(string \<Rightarrow> string + 'c) \<Rightarrow> ('c \<Rightarrow> string \<Rightarrow> string + cancel_response) \<Rightarrow> string + cluster_status_response
    \<Rightarrow> client_args \<Rightarrow> bool \<Rightarrow> 'c \<Rightarrow> string \<Rightarrow> cancel_response outcome" where
  "handle_job_cancel connect cancel status args json client job_id =
     (case with_redirect ''cancel'' ''Cancel failed'' connect (\<lambda>c. cancel c job_id) status args client of
        Printed r \<Rightarrow> report json ''Cancel failed'' (cn_success r) (cn_message r) r
      | Exit ls \<Rightarrow> Exit ls
      | Abort e \<Rightarrow> Abort e)"

text \<open>The \<open>--status\<close> option.\<close>

definition ascii_lower :: "char \<Rightarrow> char" where
  "ascii_lower c = (if 65 \<le> byte c \<and> byte c \<le> 90 then char_of (byte c + 32) else c)"

definition to_ascii_lowercase :: "string \<Rightarrow> string" where
  "to_ascii_lowercase s = map ascii_lower s"

definition status_option :: "string option \<Rightarrow> string + int" where
  "status_option st =
     (case map_option to_ascii_lowercase st of
        None \<Rightarrow> Inr 0
      | Some s \<Rightarrow>
          if s = ''pending'' then Inr (proto_status_number PPending)
          else if s = ''running'' then Inr (proto_status_number PRunning)
          else if s = ''completed'' then Inr (proto_status_number PCompleted)
          else if s = ''failed'' then Inr (proto_status_number PFailed)
          else if s = ''cancelled'' then Inr (proto_status_number PCancelled)
          else Inl (''Error: Unknown status '' @ [CHR 0x27] @ s @ [CHR 0x27] @
                    ''. Valid values: pending, running, completed, failed, cancelled''))"

record list_filters =
  lf_status :: "string option"
  lf_worker_id :: "u64 option"
  lf_command_substr :: "string option"
  lf_created_after_ms :: "int option"
  lf_created_before_ms :: "int option"

record job_list_item =
  jl_job_id :: string
  jl_status :: string
  jl_command :: string
  jl_assigned_worker :: u64
  jl_created_at_ms :: int

record job_list_output =
  jlo_jobs :: "job_list_item list"
  jlo_total_count :: nat
  jlo_has_more :: bool

definition list_item :: "job_info \<Rightarrow> job_list_item" where
  "list_item j =
     \<lparr>jl_job_id = ji_job_id j, jl_status = job_status_to_string (ji_status j), jl_command = ji_command j,
      jl_assigned_worker = ji_assigned_worker j, jl_created_at_ms = ji_created_at_ms j\<rparr>"

definition page_request :: "nat \<Rightarrow> int \<Rightarrow> list_filters \<Rightarrow> string \<Rightarrow> list_jobs_request" where
  "page_request page_size st f token =
     \<lparr>lj_page_size = page_size, lj_page_token = token, lj_status_filter = st,
      lj_worker_id_filter = (case lf_worker_id f of Some w \<Rightarrow> w | None \<Rightarrow> 0),
      lj_command_filter = or_empty (lf_command_substr f),
      lj_created_after_ms = (case lf_created_after_ms f of Some t \<Rightarrow> t | None \<Rightarrow> 0),
      lj_created_before_ms = (case lf_created_before_ms f of Some t \<Rightarrow> t | None \<Rightarrow> 0)\<rparr>"

text \<open>
  The page loop; with \<open>--all\<close> it goes on while there is a next page. The server may answer every page
  from a different state, so the loop need not end: it is given fuel, and \<open>None\<close> is out of fuel.
\<close>

fun page_loop ::
  "nat \<Rightarrow> (nat \<Rightarrow> list_jobs_request \<Rightarrow> string + list_jobs_response) \<Rightarrow> nat \<Rightarrow> nat \<Rightarrow> int \<Rightarrow> list_filters \<Rightarrow> bool \<Rightarrow> string
    \<Rightarrow> job_list_item list \<Rightarrow> (string + job_list_output) option" where
  "page_loop 0 call k page_size st f all token acc = None"
| "page_loop (Suc fuel) call k page_size st f all token acc =
     (case call k (page_request page_size st f token) of
        Inl e \<Rightarrow> Some (Inl e)
      | Inr r \<Rightarrow>
          let acc' = acc @ map list_item (lr_jobs r) in
          if lr_next_page_token r = [] \<or> \<not> all
          then Some (Inr \<lparr>jlo_jobs = acc', jlo_total_count = lr_total_count r,
                          jlo_has_more = (lr_next_page_token r \<noteq> [])\<rparr>)
          else page_loop fuel call (Suc k) page_size st f all (lr_next_page_token r) acc')"

text \<open>Streaming: the items up to the first error, if any.\<close>

fun stream_items :: "(string + job_info) list \<Rightarrow> job_list_item list" where
  "stream_items [] = []"
| "stream_items (Inr j # xs) = list_item j # stream_items xs"
| "stream_items (Inl e # xs) = []"

definition handle_job_list ::
  "nat \<Rightarrow> (nat \<Rightarrow> list_jobs_request \<Rightarrow> string + list_jobs_response) \<Rightarrow> (int \<Rightarrow> string + (string + job_info) list) \<Rightarrow> bool
    \<Rightarrow> nat \<Rightarrow> bool \<Rightarrow> list_filters \<Rightarrow> job_list_output outcome option" where
  "handle_job_list fuel call open_stream stream page_size all f =
     (case status_option (lf_status f) of
        Inl e \<Rightarrow> Some (Exit [e])
      | Inr st \<Rightarrow>
          if stream then
            Some (outcome_of (and_then (open_stream st) (\<lambda>xs.
              let items = stream_items xs in
              Inr \<lparr>jlo_jobs = items, jlo_total_count = u32 (length items), jlo_has_more = False\<rparr>)))
          else map_option outcome_of (page_loop fuel call 0 page_size st f all [] []))"

text \<open>
  The fields of the tables that are cut: more than \<open>limit\<close> bytes are shown as the first \<open>keep\<close> with
  three dots. Slicing inside a character panics.
\<close>

definition shorten :: "nat \<Rightarrow> nat \<Rightarrow> string \<Rightarrow> string option" where
  "shorten limit keep s =
     (if limit < length s then map_option (\<lambda>p. p @ ''...'') (str_prefix keep s) else Some s)"

definition cmd_display :: "string \<Rightarrow> string option" where
  "cmd_display s = shorten 20 17 s"

definition details_display :: "string \<Rightarrow> string option" where
  "details_display s = shorten 30 27 s"

fun proto_status_debug :: "proto_job_status \<Rightarrow> string" where
  "proto_status_debug PUnspecified = ''Unspecified''"
| "proto_status_debug PPending = ''Pending''"
| "proto_status_debug PRunning = ''Running''"
| "proto_status_debug PCompleted = ''Completed''"
| "proto_status_debug PFailed = ''Failed''"
| "proto_status_debug PCancelled = ''Cancelled''"

fun format_command :: "proto_command option option \<Rightarrow> string \<times> string" where
  "format_command (Some (Some (P_SubmitJob i cmd t img))) = (''SubmitJob'', ''job_id='' @ i @ '', cmd='' @ cmd)"
| "format_command (Some (Some (P_UpdateJobStatus u))) =
     (''UpdateJobStatus'', ''job_id='' @ pu_job_id u @ '', status='' @
        (case proto_status_try_from (pu_status u) of Some st \<Rightarrow> proto_status_debug st | None \<Rightarrow> ''Unknown''))"
| "format_command (Some (Some (P_RegisterWorker w))) = (''RegisterWorker'', ''worker_id='' @ show_nat w)"
| "format_command (Some (Some (P_BatchUpdateJobStatus us))) =
     (''BatchUpdateJobStatus'', show_nat (length us) @ '' updates'')"
| "format_command (Some (Some (P_AssignJob i w))) =
     (''AssignJob'', ''job_id='' @ i @ '', worker_id='' @ show_nat w)"
| "format_command (Some (Some (P_CancelJob i))) = (''CancelJob'', i)"
| "format_command (Some None) = (''Noop'', [])"
| "format_command None = (''Noop'', [])"

record job_status_output =
  jso_status :: string
  jso_response :: job_status_response

definition handle_job_status :: "string + job_status_response \<Rightarrow> job_status_output outcome" where
  "handle_job_status answer =
     outcome_of (and_then answer (\<lambda>r.
       Inr \<lparr>jso_status = job_status_to_string (js_status r), jso_response = r\<rparr>))"

definition handle_cluster_status :: "string + cluster_status_response \<Rightarrow> cluster_status_response outcome" where
  "handle_cluster_status answer = outcome_of answer"

record log_entry_output =
  leo_index :: u64
  leo_term :: u64
  leo_command_type :: string
  leo_command_details :: string
  leo_is_committed :: bool

record raft_log_output =
  rlo_entries :: "log_entry_output list"
  rlo_commit_index :: u64
  rlo_last_log_index :: u64
  rlo_first_available_index :: u64

definition handle_log_list :: "string + log_entries_response \<Rightarrow> raft_log_output outcome" where
  "handle_log_list answer =
     outcome_of (and_then answer (\<lambda>r.
       Inr \<lparr>rlo_entries = map (\<lambda>e. let (ty, d) = format_command (lei_command e) in
              \<lparr>leo_index = lei_index e, leo_term = lei_term e, leo_command_type = ty, leo_command_details = d,
               leo_is_committed = lei_is_committed e\<rparr>) (lg_entries r),
            rlo_commit_index = lg_commit_index r, rlo_last_log_index = lg_last_log_index r,
            rlo_first_available_index = lg_first_available_index r\<rparr>))"

definition handle_transfer_leader :: "(node_id \<Rightarrow> string + transfer_response) \<Rightarrow> bool \<Rightarrow> node_id option \<Rightarrow> transfer_response outcome" where
  "handle_transfer_leader call json target =
     (case call (case target of Some i \<Rightarrow> i | None \<Rightarrow> 0) of
        Inl e \<Rightarrow> Abort e
      | Inr r \<Rightarrow> report json ''Transfer failed'' (tr_success r) (tr_message r) r)"

definition handle_drain :: "bool \<Rightarrow> string + drain_response \<Rightarrow> drain_response outcome" where
  "handle_drain json answer =
     (case answer of
        Inl e \<Rightarrow> Abort e
      | Inr r \<Rightarrow> report json ''Drain failed'' (dr_success r) (dr_message r) r)"

section \<open>Peers\<close>

text \<open>A textual peer list, as it is given to \<open>--peers\<close>.\<close>

definition peer_text :: "node_id \<times> string \<times> string \<Rightarrow> string" where
  "peer_text p = show_nat (fst p) @ '':'' @ fst (snd p) @ '':'' @ snd (snd p)"

definition graphic :: "char \<Rightarrow> bool" where
  "graphic c \<longleftrightarrow> 0x21 \<le> byte c \<and> byte c < 0x7F"

definition plain :: "string \<Rightarrow> bool" where
  "plain s \<longleftrightarrow> list_all graphic s \<and> CHR '','' \<notin> set s \<and> CHR '':'' \<notin> set s"

lemma ws_chars_not_graphic: "list_all (\<lambda>w. w \<noteq> [] \<and> \<not> graphic (hd w) \<and> \<not> graphic (last w)) ws_chars"
  by (simp add: ws_chars_def graphic_def byte_def)

lemma ws_char_not_graphic: "w \<in> set ws_chars \<Longrightarrow> w \<noteq> [] \<and> \<not> graphic (hd w) \<and> \<not> graphic (last w)"
  using ws_chars_not_graphic by (simp add: list_all_iff)

lemma trim_graphic:
  assumes "list_all graphic s"
  shows "trim s = s"
proof -
  have "\<not> prefix w s" "\<not> suffix w s" if "w \<in> set ws_chars" for w
    using ws_char_not_graphic [OF that] assms
    by (cases w rule: rev_cases; auto simp: prefix_def suffix_def list_all_iff hd_append)+
  then have "find (\<lambda>w. prefix w s) ws_chars = None" and "find (\<lambda>w. suffix w s) ws_chars = None"
    by (auto simp: find_None_iff)
  then show ?thesis by (simp add: trim_def trim_start.simps [of s] trim_end.simps [of s])
qed

lemma digit_char_plain: "d < 10 \<Longrightarrow> graphic (digit_char d) \<and> digit_char d \<noteq> CHR '','' \<and> digit_char d \<noteq> CHR '':''"
proof -
  assume d: "d < 10"
  then have b: "byte (digit_char d) = 48 + d" by (simp add: byte_def digit_char_def of_char_of)
  moreover have "byte (CHR '','') = 44" and "byte (CHR '':'') = 58" by (simp_all add: byte_def)
  ultimately show ?thesis using d by (auto simp: graphic_def)
qed

lemma plain_show_nat: "plain (show_nat n)"
  using show_nat_chars [of _ n] digit_char_plain by (fastforce simp: plain_def list_all_iff)

lemma parse_peer_text:
  assumes "i \<le> u64_max" and "plain h" and "plain p"
  shows "parse_peer (peer_text (i, h, p)) = Some \<lparr>pc_node_id = i, pc_addr = h @ '':'' @ p\<rparr>"
proof -
  have "list_all graphic (peer_text (i, h, p))"
    using assms plain_show_nat [of i] by (simp add: peer_text_def plain_def graphic_def byte_def)
  then have "trim (peer_text (i, h, p)) = peer_text (i, h, p)" by (rule trim_graphic)
  moreover have "split_on (CHR '':'') (peer_text (i, h, p)) = [show_nat i, h, p]"
    using assms plain_show_nat [of i] by (simp add: peer_text_def plain_def split_on_app split_on_no_sep)
  ultimately show ?thesis using assms(1) by (simp add: parse_peer_def parse_u64_show_nat)
qed

lemma peer_text_no_comma: "plain h \<Longrightarrow> plain p \<Longrightarrow> CHR '','' \<notin> set (peer_text (i, h, p))"
  using plain_show_nat [of i] by (simp add: peer_text_def plain_def)

lemma parse_peers_texts:
  assumes "\<forall>(i, h, p) \<in> set ps. i \<le> u64_max \<and> plain h \<and> plain p"
  shows "parse_peers (join_with (CHR '','') (map peer_text ps)) =
      map (\<lambda>(i, h, p). \<lparr>pc_node_id = i, pc_addr = h @ '':'' @ p\<rparr>) ps"
proof (cases "ps = []")
  case False
  have "\<forall>s \<in> set (map peer_text ps). CHR '','' \<notin> set s" using assms peer_text_no_comma by fastforce
  with False have split: "split_on (CHR '','') (join_with (CHR '','') (map peer_text ps)) = map peer_text ps"
    by (intro split_join) auto
  have ne: "join_with (CHR '','') (map peer_text ps) \<noteq> []"
    using False by (cases ps; cases "tl ps") (auto simp: peer_text_def)
  have "parse_peer (peer_text q) = Some ((\<lambda>(i, h, p). \<lparr>pc_node_id = i, pc_addr = h @ '':'' @ p\<rparr>) q)"
    if "q \<in> set ps" for q using assms that parse_peer_text by (cases q) fastforce
  then have "List.map_filter parse_peer (map peer_text ps) =
      map (\<lambda>(i, h, p). \<lparr>pc_node_id = i, pc_addr = h @ '':'' @ p\<rparr>) ps"
    by (induction ps) (auto simp: map_filter_simps)
  with ne split show ?thesis by (simp add: parse_peers_def)
qed (simp add: parse_peers_def)

section \<open>Redirection\<close>

text \<open>What \<open>not_leader_status\<close> writes, \<open>leader_addr_from_error\<close> reads.\<close>

lemma leader_addr_round_trip:
  assumes "get_leader_id r = Some l" and "List.find (\<lambda>p. pc_node_id p = l) (nc_peers (rn_config r)) = Some p"
  shows "leader_addr_from_error (st_message (not_leader_status r)) = Some (pc_addr p)"
  using assms by (simp add: leader_addr_from_error_def not_leader_status_def grpc_error_def strip_prefix_def)

lemma not_leader_message: "str_contains (st_message (not_leader_status r)) ''Not the leader''"
proof -
  have "\<exists>t. st_message (not_leader_status r) = ''Not the leader'' @ t"
    by (auto simp: not_leader_status_def grpc_error_def split: option.split)
  then obtain t where "st_message (not_leader_status r) = ''Not the leader'' @ t" ..
  then have "sublist ''Not the leader'' (st_message (not_leader_status r))" by (simp add: sublist_appendI)
  then show ?thesis by (simp add: str_contains_sublist)
qed

text \<open>Sent to a follower that knows the leader, a command is repeated at the leader's address.\<close>

lemma redirect_reaches_leader:
  assumes "get_leader_id r = Some l" and "List.find (\<lambda>p. pc_node_id p = l) (nc_peers (rn_config r)) = Some p"
    and "call client = Inl (st_message (not_leader_status r))"
    and "connect ((if starts_with ''https://'' (ca_addr args) then ''https://'' else ''http://'') @ pc_addr p) = Inr leader"
    and "call leader = Inr x"
  shows "with_redirect what failed connect call status args client = Printed x"
  using assms leader_addr_round_trip [OF assms(1,2)]
  by (simp add: with_redirect_def not_leader_message resolve_leader_url_def Let_def)

text \<open>A leader that is not among the peers is announced as an address that is none.\<close>

lemma unknown_leader_redirect:
  assumes "get_leader_id r = Some l" and "l \<notin> set (peer_ids (rn_config r))" and "ca_addr args = ''http://h''"
  shows "resolve_leader_url (st_message (not_leader_status r)) status args = Some ''http://unknown address''"
proof -
  from assms(2) have "List.find (\<lambda>p. pc_node_id p = l) (nc_peers (rn_config r)) = None"
    by (auto simp: find_None_iff peer_ids_def)
  with assms(1,3) show ?thesis
    by (simp add: resolve_leader_url_def leader_addr_from_error_def not_leader_status_def grpc_error_def strip_prefix_def
        starts_with_def)
qed

section \<open>Listing all pages\<close>

lemma matching_page_request:
  "matching_jobs X lower (page_request n st f t) q = matching_jobs X lower (page_request n st f []) q"
  by (simp add: matching_jobs_def page_request_def)

text \<open>The loop of \<open>--all\<close> against a server whose queue does not change.\<close>

lemma page_loop_all:
  assumes call: "\<And>k req. call k req = map_sum st_message id (list_jobs X lower req q)"
    and ms: "ms = matching_jobs X lower (page_request n st f []) q" and small: "length ms < 4294967296"
    and token: "page_offset token = Inr k" and fuel: "length ms - k < fuel" and k: "k \<le> length ms"
    and acc: "acc = map (\<lambda>j. list_item (job_to_info X j)) (take k ms)"
  shows "page_loop fuel call i n st f True token acc =
      Some (Inr \<lparr>jlo_jobs = map (\<lambda>j. list_item (job_to_info X j)) ms, jlo_total_count = length ms,
                 jlo_has_more = False\<rparr>)"
  using token fuel k acc
proof (induction fuel arbitrary: token k acc i)
  case (Suc fuel)
  let ?l = "page_limit n"
  let ?all = "Some (Inr \<lparr>jlo_jobs = map (\<lambda>j. list_item (job_to_info X j)) ms, jlo_total_count = length ms,
      jlo_has_more = False\<rparr>)"
  have m: "matching_jobs X lower (page_request n st f token) q = ms" unfolding ms by (rule matching_page_request)
  have l: "lj_page_size (page_request n st f token) = n" "lj_page_token (page_request n st f token) = token"
    by (simp_all add: page_request_def)
  have page: "call i (page_request n st f token) =
      Inr \<lparr>lr_jobs = map (job_to_info X) (take ?l (drop k ms)),
           lr_next_page_token = (if k + ?l < length ms then show_nat (k + ?l) else []),
           lr_total_count = length ms\<rparr>"
    using list_jobs_page [of "page_request n st f token" k X lower q] Suc.prems(1) small
    by (simp add: call m l)
  show ?case
  proof (cases "k + ?l < length ms")
    case True
    have "page_offset (show_nat (k + ?l)) = Inr (k + ?l)"
      using True small by (intro page_offset_show) (simp add: u64_max_def)
    moreover have "length ms - (k + ?l) < fuel" using Suc.prems(2) True page_limit_bounds(1) [of n] by linarith
    moreover have "take (k + ?l) ms = take k ms @ take ?l (drop k ms)" by (simp add: take_add)
    ultimately have "page_loop fuel call (Suc i) n st f True (show_nat (k + ?l))
        (map (\<lambda>j. list_item (job_to_info X j)) (take k ms @ take ?l (drop k ms))) = ?all"
      using True by (intro Suc.IH [of _ "k + ?l"]) simp_all
    with page True Suc.prems(4) show ?thesis by (simp add: comp_def)
  next
    case False
    then have "take ?l (drop k ms) = drop k ms" by simp
    with page False Suc.prems(3,4) show ?thesis
      by (simp add: comp_def) (simp flip: map_append)
  qed
qed simp

section \<open>Security of the server\<close>

text \<open>With \<open>--tls\<close> and without \<open>--allow-insecure\<close> a server that starts has an identity loaded from its files.\<close>

lemma server_tls_secure:
  assumes "sa_tls a" and "\<not> sa_allow_insecure a" and "server_tls ex rd sh a = Inr ident"
  shows "\<exists>i. ident = Some i \<and> tls_load ex rd (server_tls_config a) = Inr i"
  using assms
  by (auto simp: server_tls_def server_tls_config_def Let_def split: if_splits sum.splits)

lemma server_tls_off: "\<not> sa_tls a \<Longrightarrow> server_tls ex rd sh a = Inr None"
  by (simp add: server_tls_def server_tls_config_def is_complete_def)

section \<open>Display\<close>

lemma status_option_display: "status_option (Some (job_status_display st)) = Inr (client_encode_status st)"
  by (cases st)
    (simp_all add: status_option_def to_ascii_lowercase_def ascii_lower_def byte_def client_encode_status_def)

text \<open>Cutting is safe in ASCII; in general it is not.\<close>

lemma shorten_ascii: "list_all (\<lambda>c. byte c < 0x80) s \<Longrightarrow> keep \<le> limit \<Longrightarrow> shorten limit keep s \<noteq> None"
  by (simp add: shorten_def str_prefix_def is_char_boundary_def continuation_def list_all_length)
    (metis le_less_trans not_less)

lemma shorten_bound: "shorten limit keep s = Some t \<Longrightarrow> length t \<le> max limit (keep + 3)"
  by (auto simp: shorten_def str_prefix_def split: if_splits)

definition accented :: string where
  "accented = replicate 16 (CHR ''a'') @ [CHR 0xC3, CHR 0xA9] @ ''bcd''"

lemma shorten_panics: "valid_utf8 accented \<and> cmd_display accented = None"
proof
  have ascii: "valid_utf8 (CHR ''a'' # t) = valid_utf8 t" for t
    by (simp add: valid_utf8.simps [of "CHR ''a'' # t"] utf8_chunk.simps byte_def)
  have "valid_utf8 ([CHR 0xC3, CHR 0xA9] @ ''bcd'')"
    by (simp add: valid_utf8.simps utf8_chunk.simps byte_def second_range_def)
  then show "valid_utf8 accented" by (simp add: accented_def ascii eval_nat_numeral)
  show "cmd_display accented = None"
    by (simp add: cmd_display_def shorten_def str_prefix_def is_char_boundary_def continuation_def accented_def
        nth_append byte_def)
qed

end
