(* ===== verification/Scheduling.thy ===== *)
theory Scheduling
  imports State_Machine Cluster_Services Dashboard
begin

text \<open>
  The properties of the scheduler (\<open>src/node.rs\<close>, \<open>src/scheduler\<close>, \<open>src/worker\<close>): what applying entries does
  on every replica, snapshots, assignment, execution, and the submission and cancellation of jobs.
\<close>

section \<open>The replicated state machine\<close>

text \<open>C4: Replicas agree. Nodes with the same limit that start from the same jobs and apply the same entries end
  with the same jobs, whatever their clocks read, up to the outputs of a job, which stay on the node that ran
  it, and the time of a cancellation; and those jobs are the ones the specification of an entry, in which
  neither node nor clock occurs, gives.\<close>

theorem replicas_agree:
  assumes "app_wf a" and "app_wf b" and "max_jobs (app_queue a) = max_jobs (app_queue b)"
    and "replica_view (app_queue a) = replica_view (app_queue b)"
  shows "replica_view (app_queue (apply_entries me simple utc now es a)) =
      foldl (spec_apply (max_jobs (app_queue a))) (replica_view (app_queue a)) (map le_command es) \<and>
    replica_view (app_queue (apply_entries me' simple' utc' now' es b)) =
      replica_view (app_queue (apply_entries me simple utc now es a))"
  using apply_entries_refines(1) [OF assms(1)] apply_entries_refines(1) [OF assms(2)] assms(3,4) by simp

definition blank_app :: "nat \<Rightarrow> app" where
  "blank_app limit = \<lparr>app_queue = with_capacity limit, app_assigner = assigner_new 5000, wake_assigner = False,
     wake_worker = False, kills = []\<rparr>"

lemma blank_not_full: "0 < n \<Longrightarrow> \<not> is_full (with_capacity n)"
  by (simp add: is_full_def active_job_count_def with_capacity_def hm_count_def hm_values_def hm_empty_def)

lemma blank_app_wf: "app_wf (blank_app limit)"
  by (simp add: blank_app_def app_wf_def queue_wf_new assigner_wf_new)

theorem replicas_agree_witness:
  "replica_view (app_queue (apply_entries 2 (\<lambda>i. []) 9 0 [noop_entry 1 1, \<lparr>le_term = 1, le_index = 2, le_command = SubmitJob 7 ''ls'' 5 None\<rparr>] (blank_app 10))) =
   replica_view (app_queue (apply_entries 1 (\<lambda>i. []) 3 0 [noop_entry 1 1, \<lparr>le_term = 1, le_index = 2, le_command = SubmitJob 7 ''ls'' 5 None\<rparr>] (blank_app 10)))"
  using replicas_agree [OF blank_app_wf blank_app_wf, of 10 10] by blast

text \<open>C23: A turn of the scheduler loop on a commit notification applies exactly the entries between what was
  applied before and the commit index, in order and each once.\<close>

theorem commit_turn_applies:
  assumes "log_wf (rn_state (nd_raft n))" and "applied_wf (rn_state (nd_raft n))"
    and "commit_index (rn_state (nd_raft n)) \<le> last_log_index (rn_state (nd_raft n))"
    and "pending_snapshot (nd_raft n) = None" and "queue_wf (nd_queue n)" and "assigner_wf (nd_assigner n)"
    and "on_commit K C simple utc now n = Some (n', ks)"
  shows "last_applied (rn_state (nd_raft n')) = commit_index (rn_state (nd_raft n)) \<and>
    replica_view (nd_queue n') = foldl (spec_apply (max_jobs (nd_queue n))) (replica_view (nd_queue n))
      (map (\<lambda>i. le_command (the (get_entry (rn_state (nd_raft n)) i)))
        [Suc (last_applied (rn_state (nd_raft n)))..<Suc (commit_index (rn_state (nd_raft n)))])"
proof -
  from on_commit_applies [OF assms(1-4,7)] obtain es where
    es: "map Some es = map (get_entry (rn_state (nd_raft n)))
        [Suc (last_applied (rn_state (nd_raft n)))..<Suc (commit_index (rn_state (nd_raft n)))]"
    and q: "nd_queue n' = app_queue (apply_entries (nc_node_id (rn_config (nd_raft n))) simple utc now es (node_app n))"
    and l: "last_applied (rn_state (nd_raft n')) = commit_index (rn_state (nd_raft n))" by blast
  have "map le_command es = map (\<lambda>o1. le_command (the o1)) (map Some es)" by simp
  then have m: "map le_command es = map (\<lambda>i. le_command (the (get_entry (rn_state (nd_raft n)) i)))
      [Suc (last_applied (rn_state (nd_raft n)))..<Suc (commit_index (rn_state (nd_raft n)))]"
    unfolding es by (simp add: comp_def)
  have "app_wf (node_app n)" using assms(5,6) by (simp add: app_wf_def node_app_def)
  from apply_entries_refines(1) [OF this] show ?thesis unfolding q m [symmetric] l by (simp add: node_app_def)
qed

definition sample_node :: "raft_state \<Rightarrow> job_queue \<Rightarrow> unit node" where
  "sample_node s q = \<lparr>nd_raft = bare_node 1 [2, 3] s, nd_queue = q, nd_assigner = assigner_new 5000, nd_job_notify = False,
     nd_worker_notify = False, nd_draining = False\<rparr>"

lemma sample_node_sel [simp]:
  "rn_state (nd_raft (sample_node s q)) = s" "nd_queue (sample_node s q) = q" "nd_assigner (sample_node s q) = assigner_new 5000"
  "pending_snapshot (nd_raft (sample_node s q)) = None" "rn_storage (nd_raft (sample_node s q)) = None"
  "nc_node_id (rn_config (nd_raft (sample_node s q))) = 1" "nd_draining (sample_node s q) = False"
  by (simp_all add: sample_node_def bare_defs)

definition submitted :: log_entry where
  "submitted = \<lparr>le_term = 1, le_index = 1, le_command = SubmitJob 7 ''ls'' 5 None\<rparr>"

theorem commit_turn_applies_witness:
  "\<exists>n' ks. on_commit no_kv serde_unary (\<lambda>i. []) 0 0 (sample_node (noop_state 1 1 [submitted]) (with_capacity 10)) = Some (n', ks) \<and>
     last_applied (rn_state (nd_raft n')) = 1 \<and> replica_view (nd_queue n') 7 = Some (with_id 7 ''ls'' 5)"
proof -
  let ?s = "noop_state 1 1 [submitted]"
  let ?n = "sample_node ?s (with_capacity 10)"
  have s: "log_wf ?s" "applied_wf ?s" "last_log_index ?s = 1" "commit_index ?s = 1" "last_applied ?s = 0"
    "rlog ?s = [submitted]" "log_offset ?s = 0"
    by (simp_all add: noop_state_def raft_new_def log_wf_def applied_wf_def submitted_def u64_max_def last_log_index_def)
  obtain n' ks where h: "on_commit no_kv serde_unary (\<lambda>i. []) 0 0 ?n = Some (n', ks)"
    using s by (simp add: on_commit_def take_pending_snapshot_def get_committed_entries_def committed_loop_result
        maybe_compact_log_def compaction_point_def LOG_COMPACTION_THRESHOLD_def Let_def)
  have e: "get_entry ?s 1 = Some submitted" using s by (simp add: get_entry_def)
  have v: "replica_view (with_capacity 10) i = None" for i by (simp add: replica_view_def)
  have "view_active (replica_view (with_capacity 10)) = 0" by (simp add: view_active_def v)
  then have sp: "spec_apply 10 (replica_view (with_capacity 10)) (SubmitJob 7 ''ls'' 5 None) 7 = Some (with_id 7 ''ls'' 5)"
    by (simp add: v with_id_def)
  have c: "le_command submitted = SubmitJob 7 ''ls'' 5 None" "max_jobs (with_capacity 10) = 10"
    by (simp_all add: submitted_def with_capacity_def)
  have "last_applied (rn_state (nd_raft n')) = 1 \<and>
      replica_view (nd_queue n') = foldl (spec_apply 10) (replica_view (with_capacity 10)) [SubmitJob 7 ''ls'' 5 None]"
    using commit_turn_applies [OF _ _ _ _ _ _ h] s e c by (simp add: queue_wf_new assigner_wf_new)
  then show ?thesis using h sp by simp
qed

text \<open>A cancelled job stays cancelled, whatever is applied after.\<close>

theorem cancelled_stays_cancelled:
  assumes "map_option j_status (get_job (app_queue a) i) = Some Cancelled"
  shows "map_option j_status (get_job (app_queue (apply_entries me simple utc now es a)) i) = Some Cancelled"
  using cancelling.inv_foldl [of i a] assms unfolding apply_entries_run by (simp add: is_cancelled_def)

theorem cancelled_stays_cancelled_witness:
  "let q = \<lparr>jobs = [(7, (with_id 7 ''ls'' 5)\<lparr>j_status := Cancelled\<rparr>)], max_jobs = 10\<rparr>
   in map_option j_status (get_job (app_queue (apply_entries 1 (\<lambda>i. []) 0 0
        [\<lparr>le_term = 1, le_index = 1, le_command = UpdateJobStatus 7 Completed 2 (Some 0) (Some 3)\<rparr>]
        ((blank_app 10)\<lparr>app_queue := q\<rparr>))) 7) = Some Cancelled"
  unfolding Let_def by (rule cancelled_stays_cancelled) (simp add: get_job_def hm_get_def)



section \<open>Snapshots\<close>

text \<open>C26: A snapshot that a leader builds, sends and a follower installs restores the leader's jobs and workers on
  the follower, without outputs and with times as precise as the wire format, provided the limit of the
  follower leaves room.\<close>

theorem snapshot_transfer:
  assumes "uuid_laws X" and "queue_wf q" and "assigner_wf a" and "\<And>i j. get_job q i = Some j \<Longrightarrow> real_workers j"
    and "active_job_count q < max_jobs (fst qa)"
    and "rebuild_from_snapshot now (request_snapshot X (snapshot_request X me t (build_snapshot idx trm q a))) qa = (q', a')"
  shows "queue_wf q' \<and> get_job q' i = map_option (\<lambda>j. norm_job X (drop_output j)) (get_job q i) \<and>
    (hm_get (workers a') w = None \<longleftrightarrow> hm_get (workers a) w = None)"
proof -
  let ?sn = "request_snapshot X (snapshot_request X me t (build_snapshot idx trm q a))"
  have r: "get_job (fst (rebuild_from_snapshot now ?sn qa)) i = map_option (\<lambda>j. norm_job X (drop_output j)) (get_job q i)"
    "queue_wf (fst (rebuild_from_snapshot now ?sn qa))"
    by (rule rebuild_sent [OF assms(1,2) _ assms(5) refl], erule assms(4))+
  have "snd (rebuild_from_snapshot now ?sn qa) = snd (rebuild_from_snapshot now (build_snapshot idx trm q a) qa)"
    by (simp add: rebuild_from_snapshot_def request_snapshot_sent [OF assms(1)])
  with rebuild_workers [OF assms(3), of now idx trm q qa w] r assms(6) show ?thesis by simp
qed

definition two_jobs :: job_queue where
  "two_jobs = \<lparr>jobs = [(1, with_id 1 ''a'' 0), (2, (with_id 2 ''b'' 1)\<lparr>j_status := Completed, j_executed_by := Some 3\<rparr>)], max_jobs = 10\<rparr>"

lemma two_jobs_wf: "queue_wf two_jobs" "get_job two_jobs i = Some j \<Longrightarrow> real_workers j" "active_job_count two_jobs = 1"
  by (auto simp: queue_wf_def two_jobs_def hm_wf_def hm.keyed_def get_job_def hm_get_def with_id_def real_workers_def
      active_job_count_def hm_count_def hm_values_def split: if_splits)

theorem snapshot_transfer_witness:
  "get_job (fst (rebuild_from_snapshot 0 (request_snapshot ext_unary (snapshot_request ext_unary 1 1
      (build_snapshot 4 1 two_jobs (assigner_new 5000)))) (with_capacity 10, assigner_new 5000))) 2 =
    map_option (\<lambda>j. norm_job ext_unary (drop_output j)) (get_job two_jobs 2)"
proof -
  obtain q' a' where r: "rebuild_from_snapshot 0 (request_snapshot ext_unary (snapshot_request ext_unary 1 1
      (build_snapshot 4 1 two_jobs (assigner_new 5000)))) (with_capacity 10, assigner_new 5000) = (q', a')" by fastforce
  have "queue_wf q' \<and> get_job q' 2 = map_option (\<lambda>j. norm_job ext_unary (drop_output j)) (get_job two_jobs 2) \<and>
      (hm_get (workers a') 1 = None \<longleftrightarrow> hm_get (workers (assigner_new 5000)) 1 = None)"
    by (rule snapshot_transfer [OF ext_unary_laws(1) two_jobs_wf(1) assigner_wf_new _ _ r])
      (auto simp: two_jobs_wf(3) with_capacity_def dest: two_jobs_wf(2))
  with r show ?thesis by simp
qed

text \<open>C31: Where that ends. A snapshot request that a node has already covered, such as a delayed copy, makes its
  scheduler loop rebuild from the old snapshot although the log was applied further: a job that came later is
  gone, and since the applied index stays, no entry brings it back.\<close>

theorem covered_snapshot_rolls_back:
  assumes "snapshot (rn_state (nd_raft n)) = Some sn"
    and "is_last_included_index req \<le> log_offset (rn_state (nd_raft n))"
    and "handle_install_snapshot_node K C X now req (nd_raft n) = Some (raft, r)"
    and "on_commit K C simple utc later (n\<lparr>nd_raft := raft\<rparr>) = Some (n', ks)"
    and "i \<notin> sj_id ` set (sn_jobs sn)"
  shows "get_job (nd_queue n') i = None \<and>
    last_applied (rn_state (nd_raft n')) = last_applied (rn_state (nd_raft n))"
proof -
  note c = covered_snapshot_offered [OF assms(1-3)]
  from assms(4) c(1) have q: "nd_queue n' = fst (rebuild_from_snapshot later sn (nd_queue n, nd_assigner n))"
    and s: "rn_state (nd_raft n') = rn_state raft"
    by (auto simp: on_commit_def take_pending_snapshot_def split_beta Let_def)
  from rebuild_absent [OF assms(5), of later] c(2) show ?thesis by (simp add: q s)
qed

definition caught_up_state :: raft_state where
  "caught_up_state = (noop_state 1 3 [noop_entry 1 3])\<lparr>last_applied := 3, log_offset := 2,
     snapshot := Some \<lparr>last_included_index = 2, last_included_term = 1, sn_jobs = [], sn_workers = []\<rparr>\<rparr>"

definition old_snapshot :: install_snapshot_request where
  "old_snapshot = \<lparr>is_term = 1, is_leader_id = 2, is_last_included_index = 2, is_last_included_term = 1, is_jobs = [], is_workers = []\<rparr>"

lemma install_in_memory:
  "rn_storage n = None \<Longrightarrow> \<exists>n' r. handle_install_snapshot_node K C X now req n = Some (n', r)"
  by (auto simp: handle_install_snapshot_node_def persist_hard_state_def with_storage_def offer_snapshot_def split_beta Let_def
      split: option.split)

theorem covered_snapshot_rolls_back_witness:
  "get_job (nd_queue (sample_node caught_up_state two_jobs)) 1 \<noteq> None \<and>
   (\<exists>raft r n' ks. handle_install_snapshot_node no_kv serde_unary ext_unary 0 old_snapshot (nd_raft (sample_node caught_up_state two_jobs)) = Some (raft, r) \<and>
      on_commit no_kv serde_unary (\<lambda>i. []) 0 0 ((sample_node caught_up_state two_jobs)\<lparr>nd_raft := raft\<rparr>) = Some (n', ks) \<and>
      get_job (nd_queue n') 1 = None \<and> last_applied (rn_state (nd_raft n')) = 3)"
proof -
  let ?n = "sample_node caught_up_state two_jobs"
  let ?sn = "\<lparr>last_included_index = 2, last_included_term = 1, sn_jobs = [], sn_workers = []\<rparr>"
  have s: "snapshot (rn_state (nd_raft ?n)) = Some ?sn" "log_offset (rn_state (nd_raft ?n)) = 2" "last_applied (rn_state (nd_raft ?n)) = 3"
    "is_last_included_index old_snapshot = 2"
    by (simp_all add: caught_up_state_def old_snapshot_def)
  obtain raft r where h: "handle_install_snapshot_node no_kv serde_unary ext_unary 0 old_snapshot (nd_raft ?n) = Some (raft, r)"
    using install_in_memory [of "nd_raft ?n"] by (metis sample_node_sel(5))
  have "pending_snapshot raft = Some ?sn" by (rule covered_snapshot_offered [OF s(1) _ h]) (use s in simp)
  then obtain n' ks where o: "on_commit no_kv serde_unary (\<lambda>i. []) 0 0 (?n\<lparr>nd_raft := raft\<rparr>) = Some (n', ks)"
    by (auto simp: on_commit_def take_pending_snapshot_def split_beta Let_def)
  from covered_snapshot_rolls_back [OF s(1) _ h o, of 1] s have "get_job (nd_queue n') 1 = None \<and> last_applied (rn_state (nd_raft n')) = 3"
    by simp
  with h o show ?thesis by (auto simp: two_jobs_def get_job_def hm_get_def)
qed

section \<open>Assignment and workers\<close>

text \<open>C24: The assignment loop of a leader ends, and when it does no job is pending or no worker is available;
  every command it sent turned a pending job into a running one of the named worker, and no other job was
  touched.\<close>

theorem assignment_ends:
  assumes "queue_wf (nd_queue n)" and "is_leader (nd_raft n)"
  shows "\<exists>n' sent. on_job_notify clock n = Some (n', sent) \<and> queue_wf (nd_queue n') \<and>
    list_all (\<lambda>c. \<exists>i w j. c = AssignJob i w \<and> get_job (nd_queue n) i = Some j \<and> j_status j = Pending \<and>
      get_job (nd_queue n') i = Some (j\<lparr>j_assigned_worker := Some w, j_status := Running\<rparr>)) sent \<and>
    (\<forall>i. (\<exists>w. AssignJob i w \<in> set sent) \<or> get_job (nd_queue n') i = get_job (nd_queue n) i) \<and>
    (pending_jobs (nd_queue n') = [] \<or> available_workers (clock (length sent)) (nd_assigner n') = [])"
proof -
  from assign_loop_returns [OF assms(1), of "Suc (length (pending_jobs (nd_queue n)))" clock 0 "nd_assigner n" "[]"]
  obtain q' a' sent where "assign_loop (Suc (length (pending_jobs (nd_queue n)))) clock 0 (nd_queue n) (nd_assigner n) [] = Some (q', a', sent)"
    "queue_wf q'" "list_all (assigned (nd_queue n) q') sent" "\<forall>i. i \<notin> targets sent \<longrightarrow> get_job q' i = get_job (nd_queue n) i"
    "pending_jobs q' = [] \<or> available_workers (clock (length sent)) a' = []" by auto
  with assms(2) show ?thesis
    by (auto simp: on_job_notify_def Let_def assigned_def [abs_def] targets_def)
qed

theorem assignment_ends_witness:
  "\<exists>n' sent. on_job_notify (\<lambda>k. 0) ((sample_node (raft_new\<lparr>role := Leader\<rparr>) two_jobs)\<lparr>nd_assigner := register_worker 0 2 (assigner_new 5000)\<rparr>) = Some (n', sent) \<and>
     (pending_jobs (nd_queue n') = [] \<or> available_workers 0 (nd_assigner n') = [])"
  using assignment_ends [of "(sample_node (raft_new\<lparr>role := Leader\<rparr>) two_jobs)\<lparr>nd_assigner := register_worker 0 2 (assigner_new 5000)\<rparr>" "\<lambda>k. 0"]
  by (auto simp: two_jobs_wf is_leader_def)




definition one_running :: job_queue where
  "one_running = \<lparr>jobs = [(7, (with_id 7 ''ls'' 5)\<lparr>j_status := Running, j_assigned_worker := Some 1\<rparr>)], max_jobs = 10\<rparr>"


text \<open>Results reach the leader. What a worker that is not the leader forwards becomes, on the leader, a command
  whose application has the effect of applying each of the worker's updates in turn, with times as precise as
  the wire format.\<close>

theorem forwarded_results_apply:
  assumes "uuid_laws X" and "us \<noteq> []" and "\<not> is_leader (nd_raft n)"
    and "flush_updates X (Some l) us n = Some (Forward l ps)"
  shows "\<exists>c. forward_job_status X True ps = Inr (Some c) \<and>
    app_queue (apply_command me simple utc now c a) = foldl (\<lambda>q u. apply_update (norm_update X u) q) (app_queue a) us"
proof -
  have "ps = map (forward_update X) us" using assms(2-4) by (simp add: flush_updates_def)
  with forward_job_status_round_trip [OF assms(1,2)] show ?thesis
    by (simp add: apply_updates_command foldl_map)
qed

theorem forwarded_results_apply_witness:
  "\<exists>ps c. flush_updates ext_unary (Some 2) [\<lparr>jsu_job_id = 7, jsu_status = Completed, jsu_executed_by = 1, jsu_exit_code = Some 0, jsu_completed_at = None\<rparr>]
       (sample_node raft_new one_running) = Some (Forward 2 ps) \<and>
     forward_job_status ext_unary True ps = Inr (Some c)"
proof -
  let ?us = "[\<lparr>jsu_job_id = 7, jsu_status = Completed, jsu_executed_by = 1, jsu_exit_code = Some 0, jsu_completed_at = None\<rparr>]"
  have nl: "\<not> is_leader (nd_raft (sample_node raft_new one_running))" by (simp add: is_leader_def raft_new_def)
  then have f: "flush_updates ext_unary (Some 2) ?us (sample_node raft_new one_running) = Some (Forward 2 (map (forward_update ext_unary) ?us))"
    by (simp add: flush_updates_def)
  from forwarded_results_apply [OF ext_unary_laws(1) _ nl f] f show ?thesis by blast
qed

text \<open>A job is completed exactly if docker ran it to the end with exit code zero, and failed with a reason
  otherwise; in either case the result is that of the job.\<close>

theorem execution_outcome:
  "(er_status (fst (execute docker simple c i cmd img)) = Completed \<longleftrightarrow>
      (\<exists>p. docker (docker_args simple c i cmd img) = Finished p \<and> pr_code p = Some 0)) \<and>
   (er_status (fst (execute docker simple c i cmd img)) = Failed \<longleftrightarrow>
      er_status (fst (execute docker simple c i cmd img)) \<noteq> Completed) \<and>
   (er_error (fst (execute docker simple c i cmd img)) = None \<longleftrightarrow>
      er_status (fst (execute docker simple c i cmd img)) = Completed) \<and>
   er_job_id (fst (execute docker simple c i cmd img)) = i"
  using execute_completed_iff [of docker simple c i cmd img] execute_terminal [of docker simple c i cmd img]
    execute_error_iff [of docker simple c i cmd img] execute_id [of docker simple c i cmd img]
  by auto


section \<open>Submission and cancellation\<close>

text \<open>The gRPC service and the dashboard accept the same submissions, and make the same job of them: exactly
  those of a valid command, on a leader that is not draining and whose queue is not full.\<close>

theorem front_ends_accept_the_same:
  "(submit_check i now cmd img n = Inr j \<longleftrightarrow> dash_submit_check i now cmd img n = Inr j) \<and>
   (submit_check i now cmd img n = Inr j \<longleftrightarrow>
      \<not> all_ws cmd \<and> length cmd \<le> MAX_COMMAND_LEN \<and> \<not> nd_draining n \<and> role (rn_state (nd_raft n)) = Leader \<and>
      active_job_count (nd_queue n) < max_jobs (nd_queue n) \<and> j = new_job i now cmd img)"
  unfolding grpc_submit.check_iff dash_submit.check_iff admissible_def validate_command_ok_iff is_leader_def is_full_def
  by auto

text \<open>C34: However the Raft loop answers, a submission through either front end keeps the queue well formed and
  within its limit.\<close>

theorem submissions_respect_limit:
  assumes "queue_wf (nd_queue n)" and "active_job_count (nd_queue n) \<le> max_jobs (nd_queue n)"
  shows "queue_wf (nd_queue (grpc_finish X j reply n)) \<and> queue_wf (nd_queue (dash_finish X j reply n)) \<and>
    active_job_count (nd_queue (grpc_finish X j reply n)) \<le> max_jobs (nd_queue (grpc_finish X j reply n)) \<and>
    active_job_count (nd_queue (dash_finish X j reply n)) \<le> max_jobs (nd_queue (dash_finish X j reply n))"
  using grpc_submit.finish_wf [OF assms(1), of X j reply] dash_submit.finish_wf [OF assms(1), of X j reply]
    grpc_submit.finish_within_limit [of n X j reply] dash_submit.finish_within_limit [of n X j reply] assms(2)
  by (simp add: within_limit_def)

theorem submissions_respect_limit_witness:
  "active_job_count (nd_queue (grpc_finish ext_unary (with_id 9 ''ls'' 5) (Replied (Inr 3)) (sample_node raft_new two_jobs)))
     \<le> max_jobs (nd_queue (grpc_finish ext_unary (with_id 9 ''ls'' 5) (Replied (Inr 3)) (sample_node raft_new two_jobs)))"
  using submissions_respect_limit [of "sample_node raft_new two_jobs" ext_unary "with_id 9 ''ls'' 5" "Replied (Inr 3)"]
    two_jobs_wf(1,3) by (simp add: two_jobs_def)



text \<open>The output of a finished job can be had from any node: a node that did not run it asks the one that did,
  and answers with what that node recorded.\<close>

theorem output_from_any_node:
  assumes "uuid_laws X" and "get_job (nd_queue n) i = Some j" and "j_status j \<in> {Completed, Failed}" and "j_id j = i"
    and "j_executed_by j = Some w" and "get_job (nd_queue runner) i = Some k" and "j_executed_by k = Some w"
    and "nc_node_id (rn_config (nd_raft n)) = w \<Longrightarrow> k = j"
  shows "\<exists>r. get_job_status X (\<lambda>w i. fetch_output X w i (nd_queue runner)) (show_uuid X i) n = Inr r \<and>
    js_output r = or_empty (j_output k) \<and> js_error r = or_empty (j_error k) \<and> js_job_id r = show_uuid X i \<and>
    status_filter_of (js_status r) = Some (j_status j)"
proof -
  have st: "status_filter_of (proto_status_number (status_to_proto (j_status j))) = Some (j_status j)"
    using client_status.decode_encode [of "j_status j"] by (simp add: client_encode_status_def)
  show ?thesis
    using assms fetch_output_found [OF assms(1,6,7)] parse_show_uuid [OF assms(1), of i]
    by (auto simp: get_job_status_def base_status_def Let_def st)
qed

definition ran_elsewhere :: job_queue where
  "ran_elsewhere = \<lparr>jobs = [(7, (with_id 7 ''ls'' 5)\<lparr>j_status := Completed, j_executed_by := Some 3\<rparr>)], max_jobs = 10\<rparr>"

definition ran_here :: job_queue where
  "ran_here = \<lparr>jobs = [(7, (with_id 7 ''ls'' 5)\<lparr>j_status := Completed, j_executed_by := Some 3, j_output := Some ''ok''\<rparr>)], max_jobs = 10\<rparr>"

theorem output_from_any_node_witness:
  "\<exists>r. get_job_status ext_unary (\<lambda>w i. fetch_output ext_unary w i (nd_queue (sample_node raft_new ran_here))) (show_uuid ext_unary 7)
     (sample_node raft_new ran_elsewhere) = Inr r \<and> js_output r = ''ok''"
  using output_from_any_node [OF ext_unary_laws(1), of "sample_node raft_new ran_elsewhere" 7 _ 3 "sample_node raft_new ran_here"]
  by (force simp: ran_here_def ran_elsewhere_def get_job_def hm_get_def with_id_def or_empty_def)

text \<open>The clean-up of old jobs removes exactly the finished ones whose completion lies further back than the
  retention period, and none that counts against the limit.\<close>

theorem cleanup_removes_old_finished:
  assumes "queue_wf (nd_queue n)"
  shows "get_job (nd_queue (on_cleanup utc n)) i =
      (case get_job (nd_queue n) i of
         None \<Rightarrow> None
       | Some j \<Rightarrow>
           if j_status j \<in> {Completed, Failed, Cancelled} \<and>
              (case j_completed_at j of Some t \<Rightarrow> t \<le> utc - int JOB_HISTORY_RETENTION_SECS * 1000000000 | None \<Rightarrow> False)
           then None else Some j) \<and>
    active_job_count (nd_queue (on_cleanup utc n)) = active_job_count (nd_queue n)"
proof -
  have k: "keep_finished c j \<longleftrightarrow> \<not> (j_status j \<in> {Completed, Failed, Cancelled} \<and>
      (case j_completed_at j of Some t \<Rightarrow> t \<le> c | None \<Rightarrow> False))" for c j
    by (cases "j_status j") (auto simp: keep_finished_def split: option.split)
  show ?thesis
    using get_job_cleanup [OF assms, of JOB_HISTORY_RETENTION_SECS utc i] active_count_cleanup [of JOB_HISTORY_RETENTION_SECS utc "nd_queue n"]
    by (simp add: on_cleanup_def k split: option.split)
qed

theorem cleanup_removes_old_finished_witness:
  "get_job (nd_queue (on_cleanup 4000000000000 (sample_node raft_new two_jobs))) 1 = get_job two_jobs 1"
  using cleanup_removes_old_finished [of "sample_node raft_new two_jobs" 4000000000000 1] two_jobs_wf(1)
  by (simp add: two_jobs_def get_job_def hm_get_def with_id_def)

end
