(* ===== verification/Interfaces.thy ===== *)
theory Interfaces
  imports Cli Scheduling
begin

text \<open>
  The properties of what surrounds the scheduler: the wire format (\<open>src/raft/rpc.rs\<close>), the client service
  and its clients (\<open>src/grpc\<close>, \<open>src/main.rs\<close>), start-up, and the draining of a node.
\<close>

section \<open>The wire\<close>



text \<open>The output of a process is always shown as valid UTF-8, and unchanged if it was valid.\<close>

theorem output_is_utf8:
  "valid_utf8 (from_utf8_lossy s) \<and> (valid_utf8 s \<longleftrightarrow> from_utf8_lossy s = s)"
  using from_utf8_lossy_valid [of s] from_utf8_lossy_id [of s] by auto

section \<open>Listing\<close>

text \<open>C33: A listing of all jobs of a status ends and lists all of them, each once and oldest first, however
  large the pages are: with one turn more than there are such jobs the page loop is done.\<close>

theorem list_all_lists_all:
  assumes "queue_wf q" and "length (filter (\<lambda>j. j_status j = st) (all_jobs q)) < 4294967296"
    and "f = \<lparr>lf_status = Some (job_status_display st), lf_worker_id = None, lf_command_substr = None,
      lf_created_after_ms = None, lf_created_before_ms = None\<rparr>"
    and "length (filter (\<lambda>j. j_status j = st) (all_jobs q)) < fuel"
  shows "\<exists>js. handle_job_list fuel (\<lambda>k req. map_sum st_message id (list_jobs X lower req q)) open_stream False page_size True f =
      Some (Printed \<lparr>jlo_jobs = map (\<lambda>j. list_item (job_to_info X j)) js, jlo_total_count = length js, jlo_has_more = False\<rparr>) \<and>
    (\<forall>j. j \<in> set js \<longleftrightarrow> get_job q (j_id j) = Some j \<and> j_status j = st) \<and>
    distinct (map j_id js) \<and> sorted (map j_created_at js)"
proof -
  let ?n = "client_encode_status st"
  let ?js = "filtered_jobs lower (of_millis X) (Some st) None None None None q"
  have dec: "status_filter_of ?n = Some st" by (rule client_status.decode_encode)
  have ms: "matching_jobs X lower (page_request page_size ?n f []) q = ?js"
    by (simp add: matching_jobs_def page_request_def dec assms(3) nonzero_def or_empty_def)
  have mt: "job_matches lower (of_millis X) (Some st) None None None None = (\<lambda>j. j_status j = st)"
    by (simp add: job_matches_def fun_eq_iff)
  have len: "length ?js = length (filter (\<lambda>j. j_status j = st) (all_jobs q))"
    using length_filter_mset_cong [OF all_jobs_mset, of "\<lambda>j. j_status j = st" q]
    by (simp add: filtered_jobs_def mt)
  have "page_loop fuel (\<lambda>k req. map_sum st_message id (list_jobs X lower req q)) 0 page_size ?n f True [] [] =
      Some (Inr \<lparr>jlo_jobs = map (\<lambda>j. list_item (job_to_info X j)) ?js, jlo_total_count = length ?js, jlo_has_more = False\<rparr>)"
    by (rule page_loop_all [where X = X and lower = lower and q = q and k = 0, OF _ ms [symmetric]])
      (use assms(2,4) in \<open>simp_all add: len page_offset_def\<close>)
  then have "handle_job_list fuel (\<lambda>k req. map_sum st_message id (list_jobs X lower req q)) open_stream False page_size True f =
      Some (Printed \<lparr>jlo_jobs = map (\<lambda>j. list_item (job_to_info X j)) ?js, jlo_total_count = length ?js, jlo_has_more = False\<rparr>)"
    using status_option_display [of st] by (simp add: handle_job_list_def assms(3))
  moreover have "j \<in> set ?js \<longleftrightarrow> get_job q (j_id j) = Some j \<and> j_status j = st" for j
    using filtered_jobs_set [OF assms(1)] mt by simp
  moreover have "distinct (map j_id ?js)"
  proof -
    have "distinct (map j_id (filter (\<lambda>j. j_status j = st) (hm_values (jobs q))))"
      using hm_values_ids_distinct [OF assms(1)] by (rule distinct_map_filter)
    moreover have "mset (map j_id ?js) = mset (map j_id (filter (\<lambda>j. j_status j = st) (hm_values (jobs q))))"
      by (simp add: filtered_jobs_def mt)
    ultimately show ?thesis by (metis mset_eq_imp_distinct_iff)
  qed
  ultimately show ?thesis using filtered_jobs_sorted by blast
qed

theorem list_all_lists_all_witness:
  "\<exists>js. handle_job_list 5 (\<lambda>k req. map_sum st_message id (list_jobs ext_unary id req two_jobs)) (\<lambda>n. Inl []) False 1 True
      \<lparr>lf_status = Some (job_status_display Completed), lf_worker_id = None, lf_command_substr = None,
       lf_created_after_ms = None, lf_created_before_ms = None\<rparr> =
      Some (Printed \<lparr>jlo_jobs = map (\<lambda>j. list_item (job_to_info ext_unary j)) js, jlo_total_count = length js, jlo_has_more = False\<rparr>) \<and>
    (\<forall>j. j \<in> set js \<longleftrightarrow> get_job two_jobs (j_id j) = Some j \<and> j_status j = Completed)"
proof -
  have a: "all_jobs two_jobs = [with_id 1 ''a'' 0, (with_id 2 ''b'' 1)\<lparr>j_status := Completed, j_executed_by := Some 3\<rparr>]"
    by (simp add: all_jobs_def two_jobs_def hm_values_def with_id_def)
  show ?thesis
    using list_all_lists_all [OF two_jobs_wf(1) _ refl, of Completed 5 ext_unary id "\<lambda>n. Inl []" 1]
    by (auto simp: a with_id_def)
qed

text \<open>However large a page is asked for, the server returns at most a thousand jobs at a time, but at least
  one if there is one left, those after the token's position; and a token that continues where the page ends,
  exactly if there is more.\<close>

theorem page_is_bounded:
  assumes "page_offset (lj_page_token req) = Inr k" and "length (matching_jobs X lower req q) < 4294967296"
  shows "\<exists>r l. list_jobs X lower req q = Inr r \<and> 1 \<le> l \<and> l \<le> 1000 \<and>
    lr_jobs r = map (job_to_info X) (take l (drop k (matching_jobs X lower req q))) \<and>
    lr_total_count r = length (matching_jobs X lower req q) \<and>
    (lr_next_page_token r = [] \<longleftrightarrow> length (matching_jobs X lower req q) \<le> k + l) \<and>
    (if lr_next_page_token r = [] then True else page_offset (lr_next_page_token r) = Inr (k + length (lr_jobs r)))"
proof -
  let ?ms = "matching_jobs X lower req q" and ?l = "page_limit (lj_page_size req)"
  have l: "1 \<le> ?l" "?l \<le> 1000" by (rule page_limit_bounds)+
  have tok: "show_nat n \<noteq> []" for n by (simp add: show_nat_nonempty)
  have len: "length (take ?l (drop k ?ms)) = ?l" if "k + ?l < length ?ms" using that by simp
  have off: "page_offset (show_nat (k + ?l)) = Inr (k + ?l)" if "k + ?l < length ?ms"
    using that assms(2) by (intro page_offset_show) (simp add: u64_max_def)
  show ?thesis
    by (intro exI [of _ ?l] exI conjI, rule list_jobs_page [OF assms]) (use l len off in \<open>auto simp: tok\<close>)
qed

theorem page_is_bounded_witness:
  "\<exists>r. list_jobs ext_unary id (page_request 1 (client_encode_status Completed)
       \<lparr>lf_status = None, lf_worker_id = None, lf_command_substr = None, lf_created_after_ms = None, lf_created_before_ms = None\<rparr> []) two_jobs = Inr r \<and>
     length (lr_jobs r) \<le> 1000"
proof -
  let ?req = "page_request 1 (client_encode_status Completed)
    \<lparr>lf_status = None, lf_worker_id = None, lf_command_substr = None, lf_created_after_ms = None, lf_created_before_ms = None\<rparr> []"
  have "page_offset (lj_page_token ?req) = Inr 0" by (simp add: page_request_def page_offset_def)
  moreover have "length (matching_jobs ext_unary id ?req two_jobs) \<le> 2"
    unfolding matching_jobs_def filtered_jobs_def
    by (simp add: two_jobs_def hm_values_def)
  ultimately show ?thesis using page_is_bounded [of ?req 0 ext_unary id two_jobs] by fastforce
qed

section \<open>Clients\<close>


text \<open>A submission reaches the leader. A follower that knows the leader's address refuses a valid command with
  a message from which the command line tool reads that address; it asks there and prints that answer.\<close>

theorem submission_follows_leader:
  assumes "validate_command cmd = Inr ()" and "\<not> nd_draining n" and "\<not> is_leader (nd_raft n)"
    and "get_leader_id (nd_raft n) = Some l"
    and "List.find (\<lambda>p. pc_node_id p = l) (nc_peers (rn_config (nd_raft n))) = Some p"
    and "submit client cmd img = (case submit_check i now cmd img n of Inl e \<Rightarrow> Inl (st_message e) | Inr j \<Rightarrow> Inr r)"
    and "connect ((if starts_with ''https://'' (ca_addr args) then ''https://'' else ''http://'') @ pc_addr p) = Inr leader"
    and "submit leader cmd img = Inr resp"
  shows "handle_job_submit connect submit status args client cmd img = Printed resp"
proof -
  have "submit client cmd img = Inl (st_message (not_leader_status (nd_raft n)))"
    using assms(1-3,6) by (simp add: submit_check_def)
  then show ?thesis unfolding handle_job_submit_def
    by (intro redirect_reaches_leader [OF assms(4,5)]) (use assms(7,8) in simp_all)
qed

definition follower_of_2 :: "unit node" where
  "follower_of_2 = (sample_node (raft_new\<lparr>leader_id := Some 2\<rparr>) two_jobs)\<lparr>nd_raft :=
     (nd_raft (sample_node (raft_new\<lparr>leader_id := Some 2\<rparr>) two_jobs))\<lparr>rn_config :=
       config_default\<lparr>nc_node_id := 1, nc_peers := [\<lparr>pc_node_id = 2, pc_addr = ''h:1''\<rparr>]\<rparr>\<rparr>\<rparr>"

theorem submission_follows_leader_witness:
  "handle_job_submit (\<lambda>url. if url = ''http://h:1'' then Inr True else Inl [])
     (\<lambda>c cmd img. if c then Inr \<lparr>sr_job_id = ''7'', sr_created_at_ms = 0\<rparr>
       else (case submit_check 7 0 cmd img follower_of_2 of Inl e \<Rightarrow> Inl (st_message e) | Inr j \<Rightarrow> Inr \<lparr>sr_job_id = [], sr_created_at_ms = 0\<rparr>))
     (Inl []) \<lparr>ca_addr = ''http://x'', ca_ca_cert = None, ca_cert = None, ca_key = None\<rparr> False ''ls'' None
   = Printed \<lparr>sr_job_id = ''7'', sr_created_at_ms = 0\<rparr>"
proof -
  have n: "\<not> nd_draining follower_of_2" "\<not> is_leader (nd_raft follower_of_2)" "get_leader_id (nd_raft follower_of_2) = Some 2"
    "List.find (\<lambda>p. pc_node_id p = 2) (nc_peers (rn_config (nd_raft follower_of_2))) = Some \<lparr>pc_node_id = 2, pc_addr = ''h:1''\<rparr>"
    by (simp_all add: follower_of_2_def is_leader_def get_leader_id_def raft_new_def)
  have v: "validate_command ''ls'' = Inr ()"
    by (simp add: validate_command_def trim_graphic graphic_def byte_def MAX_COMMAND_LEN_def)
  show ?thesis
    by (rule submission_follows_leader [OF v n, where i = 7 and now = 0 and r = "\<lparr>sr_job_id = [], sr_created_at_ms = 0\<rparr>" and leader = True])
      (simp_all add: starts_with_def)
qed

text \<open>A connection to a node is made once: after a successful request for a client, a further one returns the
  same client, whatever dialling would give, and the clients of the other nodes are untouched.\<close>

theorem connection_is_reused:
  assumes "hm_wf pool" and "get_client connect c has_tls i pool = (pool', Inr cl)"
  shows "hm_wf pool' \<and> get_client connect' c has_tls i pool' = (pool', Inr cl) \<and>
    (if k = i then True else hm_get pool' k = hm_get pool k)"
proof -
  let ?mk = "and_then (peer_addr c i) (\<lambda>addr. connect (client_uri has_tls addr))"
  have p: "fst (pool_get i ?mk pool) = pool'" "snd (pool_get i ?mk pool) = Inr cl"
    using assms(2) by (simp_all add: get_client_def)
  show ?thesis
    using pool_get_result(1) [OF assms(1), of i ?mk] pool_get_result(3) [OF assms(1) p(2)]
      pool_get_result(4) [OF assms(1), of k i ?mk]
    by (auto simp: p(1) get_client_def)
qed

definition trio_like :: node_config where
  "trio_like = config_default\<lparr>nc_node_id := 1, nc_peers := [\<lparr>pc_node_id = 2, pc_addr = ''h:1''\<rparr>]\<rparr>"

theorem connection_is_reused_witness:
  "\<exists>pool'. get_client (\<lambda>url. Inr (1 :: nat)) (trio_like) False 2 hm_empty = (pool', Inr 1) \<and>
     get_client (\<lambda>url. Inl (grpc_error Unavailable [])) trio_like False 2 pool' = (pool', Inr 1)"
proof -
  obtain pool' where h: "get_client (\<lambda>url. Inr (1 :: nat)) trio_like False 2 hm_empty = (pool', Inr 1)"
    by (simp add: get_client_def pool_get_def peer_addr_def trio_like_def)
  from connection_is_reused [OF hm.wf_empty h, of "\<lambda>url. Inl (grpc_error Unavailable [])" 2] h show ?thesis by blast
qed

section \<open>Starting and stopping a server\<close>

text \<open>A server starts as it is told. Its peers are those of the command line, in that order; with distinct ids
  the configuration is well formed; and with TLS and no permission to do without, it either has the identity
  loaded from the given files or does not start.\<close>

theorem server_starts_as_told:
  assumes "\<forall>(i, h, p) \<in> set ps. i \<le> u64_max \<and> plain h \<and> plain p"
    and "sa_peers a = join_with (CHR '','') (map peer_text ps)" and "distinct (sa_node_id a # map fst ps)"
    and "run_server K C open_db file_exists read_file show_error parse_addr now a = Some (Inr (n, ident))"
  shows "nc_node_id (rn_config (nd_raft n)) = sa_node_id a \<and>
    nc_peers (rn_config (nd_raft n)) = map (\<lambda>(i, h, p). \<lparr>pc_node_id = i, pc_addr = h @ '':'' @ p\<rparr>) ps \<and>
    config_wf (rn_config (nd_raft n)) \<and> nd_queue n = queue_new \<and>
    (if sa_tls a \<and> \<not> sa_allow_insecure a
     then \<exists>i. ident = Some i \<and> tls_load file_exists read_file (server_tls_config a) = Inr i else True)"
proof -
  from assms(4) obtain c where tls: "server_tls file_exists read_file show_error a = Inr ident"
    and c: "server_config parse_addr a = Inr c" and n: "node_new K C open_db now c = Some n"
    by (auto simp: run_server_def split: sum.splits)
  have peers: "nc_peers c = map (\<lambda>(i, h, p). \<lparr>pc_node_id = i, pc_addr = h @ '':'' @ p\<rparr>) ps" and me: "nc_node_id c = sa_node_id a"
    using c parse_peers_texts [OF assms(1)] assms(2) by (auto simp: server_config_def and_then_Inr split: option.splits)
  have "peer_ids c = map fst ps" by (simp add: peer_ids_def peers comp_def case_prod_unfold)
  then have wf: "config_wf c" using assms(3) by (simp add: config_wf_def me)
  have "rn_config (nd_raft n) = c" "nd_queue n = queue_new"
    using n by (auto simp: node_new_def restart_def new_with_storage_def bind_eq_Some_conv split: option.splits)
  with peers me wf server_tls_secure [OF _ _ tls] show ?thesis by simp
qed

definition plain_args :: server_args where
  "plain_args = \<lparr>sa_node_id = 1, sa_listen_port = 50051, sa_dashboard_port = None, sa_peers = join_with (CHR '','') (map peer_text [(2, ''h'', ''1'')]),
     sa_image = ''alpine'', sa_tls = False, sa_ca_cert = None, sa_cert = None, sa_key = None, sa_allow_insecure = False,
     sa_data_dir = None, sa_advertise_addr = None\<rparr>"

theorem server_starts_as_told_witness:
  "\<exists>n. run_server kv_mem serde_unary (\<lambda>d. fmempty) (\<lambda>p. False) (\<lambda>p. None) (\<lambda>e. []) (\<lambda>s. Inl []) 0 plain_args = Some (Inr (n, None)) \<and>
     nc_peers (rn_config (nd_raft n)) = [\<lparr>pc_node_id = 2, pc_addr = ''h:1''\<rparr>]"
proof -
  have off: "server_tls (\<lambda>p. False) (\<lambda>p. None) (\<lambda>e. []) plain_args = Inr None"
    by (rule server_tls_off) (simp add: plain_args_def)
  then obtain n where h: "run_server kv_mem serde_unary (\<lambda>d. fmempty) (\<lambda>p. False) (\<lambda>p. None) (\<lambda>e. []) (\<lambda>s. Inl []) 0 plain_args = Some (Inr (n, None))"
    by (simp add: run_server_def server_config_def node_new_def plain_args_def)
  have "plain ''h'' \<and> plain ''1''" by (simp add: plain_def graphic_def byte_def)
  then have "nc_peers (rn_config (nd_raft n)) = map (\<lambda>(i, h, p). \<lparr>pc_node_id = i, pc_addr = h @ '':'' @ p\<rparr>) [(2, ''h'', ''1'')]"
    by (intro server_starts_as_told [OF _ _ _ h, THEN conjunct2, THEN conjunct1]) (simp_all add: plain_args_def u64_max_def)
  with h show ?thesis by simp
qed

text \<open>Draining ends: once a poll finds the deadline passed, the node has drained, reports success, and refuses
  every further submission.\<close>

theorem drain_ends:
  assumes "(now, q) \<in> set polls" and "deadline \<le> now"
  shows "\<exists>n' transfer r. drain_node deadline polls n = Some (n', transfer, r) \<and> nd_queue n' = nd_queue n \<and>
    submit_check i t cmd img n' = Inl (grpc_error Unavailable ''Node is draining and not accepting new jobs'') \<and>
    isl (dash_submit_check i t cmd img n')"
proof -
  from drain_node_returns [OF assms, of n] obtain transfer where
    d: "drain_node deadline polls n = Some (n\<lparr>nd_draining := True\<rparr>, transfer, drain_response_ok)" by blast
  have "isl (dash_submit_check i t cmd img (n\<lparr>nd_draining := True\<rparr>))"
  proof (cases "dash_submit_check i t cmd img (n\<lparr>nd_draining := True\<rparr>)")
    case (Inr j)
    then show ?thesis unfolding dash_submit.check_iff by (simp add: admissible_def)
  qed simp
  with d drained_rejects_submissions [OF d, of i t cmd img] show ?thesis by simp
qed

theorem drain_ends_witness:
  "\<exists>n' transfer r. drain_node 10 [(3, one_running), (11, one_running)] (sample_node raft_new one_running) = Some (n', transfer, r)"
  using drain_ends [of 11 one_running "[(3, one_running), (11, one_running)]" 10 "sample_node raft_new one_running" 7 0 "''ls''" None] by auto

end
