(* ===== verification/Node_Run.thy ===== *)
theory Node_Run
  imports Raft_Loop Cluster_Services Dashboard
begin

text \<open>
  A running node (\<open>Node::run\<close> of \<open>src/node.rs\<close>): the start, and the tasks that share the node from then on. The
  Raft loop and the channel that feeds it (\<open>src/raft/node.rs\<close>), the scheduler loop, the worker loop and the
  request handlers (\<open>src/grpc\<close>, \<open>src/dashboard\<close>) each are a step relation; a step is what a task does between
  two points at which it waits for a lock, a channel or another node, so any interleaving of the tasks is a
  sequence of steps.
\<close>

section \<open>Start\<close>

definition node_start :: "(string \<Rightarrow> dial_result) \<Rightarrow> bool \<Rightarrow> 'db node \<Rightarrow> 'db node" where
  "node_start dial has_tls n =
     n\<lparr>nd_raft := connect_to_peers dial has_tls (restore_snapshot_for_scheduler (nd_raft n))\<rparr>"

text \<open>
  The task that retries connections: \<open>dials\<close> are the outcomes of dialling at its successive turns. The second
  component tells whether the task has ended because all peers are connected.
\<close>

fun connect_retry :: "(string \<Rightarrow> dial_result) list \<Rightarrow> bool \<Rightarrow> 'db raft_node \<Rightarrow> 'db raft_node \<times> bool" where
  "connect_retry [] has_tls r = (r, all_peers_connected r)"
| "connect_retry (dial # dials) has_tls r =
     (if all_peers_connected r then (r, True) else connect_retry dials has_tls (connect_to_peers dial has_tls r))"

section \<open>The tasks and what they share\<close>

definition CHANNEL_CAPACITY :: nat where
  "CHANNEL_CAPACITY = 256"

text \<open>An election that is being run: the request, the peers still to be asked, the votes, and whether the loop waits for it.\<close>

record election =
  el_request :: vote_request
  el_peers :: "node_id list"
  el_votes :: u64
  el_by_timer :: bool

datatype loop_phase =
    LoopIdle
  | LoopElection
  | LoopTransfer node_id u64 u64 instant
  | LoopHandover node_id u64
  | LoopStopped

text \<open>
  The scheduler between its turns, with a snapshot it has taken, with committed entries still to be applied (and
  whether one of them wakes the assignment), about to compact the log up to an index, with the snapshot it has built for
  that, and in the assignment loop.
\<close>

datatype sched_phase =
    SchedIdle
  | Rebuilding raft_snapshot
  | Applying "log_entry list" bool
  | Compacting u64 u64
  | Snapshotting raft_snapshot
  | Assigning
  | SendingAssignment command
  | SchedStopped

datatype work_phase =
    WorkIdle
  | Working "(uuid \<times> string \<times> string option) list" "job_status_update list"
  | Reporting command
  | WorkStopped

type_synonym ticket = nat

record 'db process =
  p_node :: "'db node"
  p_timeout :: u64
  p_inbox :: "(raft_message \<times> ticket option) list"
  p_replies :: "(ticket \<times> (string + u64)) list"
  p_waiting :: "(ticket \<times> job) list"
  p_loop :: loop_phase
  p_elections :: "election list"
  p_sched :: sched_phase
  p_work :: work_phase
  p_cached :: "node_id option"
  p_kills :: "string list"
  p_shutdown :: bool

abbreviation p_raft :: "'db process \<Rightarrow> 'db raft_node" where
  "p_raft p \<equiv> nd_raft (p_node p)"

definition set_raft :: "'db raft_node \<Rightarrow> 'db process \<Rightarrow> 'db process" where
  "set_raft r p = p\<lparr>p_node := (p_node p)\<lparr>nd_raft := r\<rparr>\<rparr>"

text \<open>
  Sending into the channel, which takes place when the loop, which holds the other end, is running and there is
  room.
\<close>

definition has_room :: "'db process \<Rightarrow> bool" where
  "has_room p \<longleftrightarrow> p_loop p \<noteq> LoopStopped \<and> length (p_inbox p) < CHANNEL_CAPACITY"

definition enqueue :: "raft_message \<Rightarrow> ticket option \<Rightarrow> 'db process \<Rightarrow> 'db process" where
  "enqueue m t p = p\<lparr>p_inbox := p_inbox p @ [(m, t)]\<rparr>"

definition reply_to :: "ticket option \<Rightarrow> string + u64 \<Rightarrow> 'db process \<Rightarrow> 'db process" where
  "reply_to t r p = (case t of Some k \<Rightarrow> p\<lparr>p_replies := (k, r) # p_replies p\<rparr> | None \<Rightarrow> p)"

text \<open>The requests whose answer is on its way: in the channel, or answered and not yet read.\<close>

definition tickets :: "'db process \<Rightarrow> ticket list" where
  "tickets p = List.map_filter snd (p_inbox p) @ map fst (p_replies p)"

text \<open>The node as it starts: the worker loop registers its node and proposes the registration.\<close>

definition process_start :: "(string \<Rightarrow> dial_result) \<Rightarrow> bool \<Rightarrow> u64 \<Rightarrow> instant \<Rightarrow> 'db node \<Rightarrow> 'db process" where
  "process_start dial has_tls timeout now n =
     (let (n', c) = worker_start now (node_start dial has_tls n) in
      \<lparr>p_node = n', p_timeout = timeout, p_inbox = [], p_replies = [], p_waiting = [], p_loop = LoopIdle,
       p_elections = [], p_sched = SchedIdle, p_work = Reporting c, p_cached = None, p_kills = [], p_shutdown = False\<rparr>)"

section \<open>Request handlers\<close>

text \<open>
  The gRPC service, the dashboard and the internal service. A submission waits for the answer of the Raft loop
  under a ticket; the timeout and the closed channel are answers too.
\<close>

inductive front_step :: "ext \<Rightarrow> 'db process \<Rightarrow> 'db process \<Rightarrow> bool" for X where
  submit: "\<lbrakk>submit_check i now cmd img (p_node p) = Inr j \<or> dash_submit_check i now cmd img (p_node p) = Inr j;
    has_room p; t \<notin> fst ` set (p_waiting p); t \<notin> set (tickets p)\<rbrakk>
    \<Longrightarrow> front_step X p (enqueue (AppendCommand (submit_command j)) (Some t) (p\<lparr>p_waiting := (t, j) # p_waiting p\<rparr>))"
| submitted: "\<lbrakk>(t, j) \<in> set (p_waiting p);
    (\<exists>r. reply = Replied r \<and> (t, r) \<in> set (p_replies p)) \<or> reply = ReplyTimeout \<or> reply = ReplyDropped;
    n = grpc_finish X j reply (p_node p) \<or> n = dash_finish X j reply (p_node p)\<rbrakk>
    \<Longrightarrow> front_step X p (p\<lparr>p_node := n, p_waiting := remove1 (t, j) (p_waiting p)\<rparr>)"
| cancel: "\<lbrakk>cancel_check X s (p_node p) = Inr i \<or> dash_cancel_check X s (p_node p) = Inr i; has_room p\<rbrakk>
    \<Longrightarrow> front_step X p (enqueue (AppendCommand (CancelJob i)) None p)"
| drain: "front_step X p (p\<lparr>p_node := drain_start (p_node p)\<rparr>)"
| hand_over: "has_room p \<Longrightarrow> front_step X p (enqueue (TransferLeadership target) None p)"
| beat: "front_step X p (p\<lparr>p_node := (p_node p)\<lparr>nd_assigner := internal_heartbeat now w (nd_assigner (p_node p))\<rparr>\<rparr>)"
| forwarded: "\<lbrakk>forward_job_status X True us = Inr (Some c); has_room p\<rbrakk>
    \<Longrightarrow> front_step X p (enqueue (AppendCommand c) None p)"

section \<open>Messages of other nodes\<close>

text \<open>
  The Raft service, the tasks that wait for the answers of other nodes, and the task that connects to them. The
  guards on terms and positions are those of \<open>node_step\<close>.
\<close>

inductive peer_step :: "'db kv \<Rightarrow> serde \<Rightarrow> ext \<Rightarrow> 'db process \<Rightarrow> 'db process \<Rightarrow> bool" for K C X where
  vote: "\<lbrakk>handle_vote_request K C now req (p_raft p) = Some (r, resp); vr_term req \<le> u64_max\<rbrakk>
    \<Longrightarrow> peer_step K C X p (set_raft r p)"
| append: "\<lbrakk>handle_append_entries_node K C X now areq (p_raft p) = Some (r, aresp); ae_term areq \<le> u64_max;
    request_wf X areq (rn_state (p_raft p))\<rbrakk> \<Longrightarrow> peer_step K C X p (set_raft r p)"
| install: "\<lbrakk>handle_install_snapshot_node K C X now sreq (p_raft p) = Some (r, sresp); is_term sreq \<le> u64_max;
    is_last_included_index sreq < u64_max\<rbrakk> \<Longrightarrow> peer_step K C X p (set_raft r p)"
| timeout_now: "\<lbrakk>current_term (rn_state (p_raft p)) \<le> tn_term (treq :: timeout_now_request); begin_election K C (p_raft p) = Some (r, vreq)\<rbrakk>
    \<Longrightarrow> peer_step K C X p ((set_raft r p)\<lparr>p_elections :=
      \<lparr>el_request = vreq, el_peers = peers r, el_votes = 1, el_by_timer = False\<rparr> # p_elections p\<rparr>)"
| append_ack: "\<lbrakk>append_answer K C now q ar (p_raft p) = Some r; aer_term ar \<le> u64_max\<rbrakk> \<Longrightarrow> peer_step K C X p (set_raft r p)"
| snapshot_ack: "\<lbrakk>snapshot_answer K C now q idx sr (p_raft p) = Some r; isr_term sr \<le> u64_max\<rbrakk>
    \<Longrightarrow> peer_step K C X p (set_raft r p)"
| heartbeat_ack: "\<lbrakk>heartbeat_answer K C now q sent ar (p_raft p) = Some r; aer_term ar \<le> u64_max\<rbrakk>
    \<Longrightarrow> peer_step K C X p (set_raft r p)"
| connect: "peer_step K C X p (set_raft (connect_to_peers dial has_tls (p_raft p)) p)"

section \<open>The Raft loop\<close>

text \<open>
  The loop takes the next message, or reacts to its timer, when it is not busy with an election or a transfer.
  An election asks one peer after the other; the one that \<open>TimeoutNow\<close> starts runs beside the loop.
\<close>

inductive loop_step :: "'db kv \<Rightarrow> serde \<Rightarrow> 'db process \<Rightarrow> 'db process \<Rightarrow> bool" for K C where
  command: "\<lbrakk>p_loop p = LoopIdle; p_inbox p = (AppendCommand c, t) # rest; last_log_index (rn_state (p_raft p)) < u64_max;
    handle_append_command K C c (p_raft p) = Some (r, res)\<rbrakk>
    \<Longrightarrow> loop_step K C p (reply_to t res (set_raft r (p\<lparr>p_inbox := rest\<rparr>)))"
| heard: "\<lbrakk>p_loop p = LoopIdle; p_inbox p = (HeartbeatReceived, t) # rest; new_timeout E (p_raft p) = Some ms\<rbrakk>
    \<Longrightarrow> loop_step K C p (set_raft ((p_raft p)\<lparr>last_heartbeat := te_now E\<rparr>) (p\<lparr>p_inbox := rest, p_timeout := ms\<rparr>))"
| trigger: "\<lbrakk>p_loop p = LoopIdle; p_inbox p = (TriggerElection, t) # rest; begin_election K C (p_raft p) = Some (r, vreq)\<rbrakk>
    \<Longrightarrow> loop_step K C p ((set_raft r p)\<lparr>p_inbox := rest, p_loop := LoopElection, p_elections :=
      \<lparr>el_request = vreq, el_peers = peers r, el_votes = 1, el_by_timer = True\<rparr> # p_elections p\<rparr>)"
| timer: "\<lbrakk>p_loop p = LoopIdle; role (rn_state (p_raft p)) \<noteq> Leader;
    p_timeout p * ns_per_ms \<le> now - last_heartbeat (p_raft p); begin_election K C (p_raft p) = Some (r, vreq)\<rbrakk>
    \<Longrightarrow> loop_step K C p ((set_raft r p)\<lparr>p_loop := LoopElection, p_elections :=
      \<lparr>el_request = vreq, el_peers = peers r, el_votes = 1, el_by_timer = True\<rparr> # p_elections p\<rparr>)"
| rest: "\<lbrakk>p_loop p = LoopIdle; new_timeout E (p_raft p) = Some ms\<rbrakk> \<Longrightarrow> loop_step K C p (p\<lparr>p_timeout := ms\<rparr>)"
| counted: "\<lbrakk>el \<in> set (p_elections p); el_peers el = q # qs; \<forall>v. answer = Some v \<longrightarrow> vres_term v \<le> u64_max;
    count_answer K C (vr_term (el_request el)) now (q, answer) (el_votes el) (p_raft p) = Some (r, Counted votes)\<rbrakk>
    \<Longrightarrow> loop_step K C p ((set_raft r p)\<lparr>p_elections := el\<lparr>el_peers := qs, el_votes := votes\<rparr> # remove1 el (p_elections p)\<rparr>)"
| outvoted: "\<lbrakk>el \<in> set (p_elections p); el_peers el = q # qs; \<forall>v. answer = Some v \<longrightarrow> vres_term v \<le> u64_max;
    count_answer K C (vr_term (el_request el)) now (q, answer) (el_votes el) (p_raft p) = Some (r, Outvoted)\<rbrakk>
    \<Longrightarrow> loop_step K C p ((set_raft r p)\<lparr>p_elections := remove1 el (p_elections p),
      p_loop := (if el_by_timer el then LoopIdle else p_loop p)\<rparr>)"
| ended: "\<lbrakk>el \<in> set (p_elections p); el_peers el = []\<rbrakk>
    \<Longrightarrow> loop_step K C p ((set_raft (finish_election (vr_term (el_request el)) (el_votes el) (p_raft p)) p)
      \<lparr>p_elections := remove1 el (p_elections p), p_loop := (if el_by_timer el then LoopIdle else p_loop p)\<rparr>)"
| refuse: "\<lbrakk>p_loop p = LoopIdle; p_inbox p = (TransferLeadership tg, t) # rest; pick_target tg (p_raft p) = Inl e\<rbrakk>
    \<Longrightarrow> loop_step K C p (reply_to t (Inl e) (p\<lparr>p_inbox := rest\<rparr>))"
| transfer: "\<lbrakk>p_loop p = LoopIdle; p_inbox p = (TransferLeadership tg, t) # rest; pick_target tg (p_raft p) = Inr q\<rbrakk>
    \<Longrightarrow> loop_step K C p (p\<lparr>p_inbox := rest, p_loop := LoopTransfer q (current_term (rn_state (p_raft p)))
      (last_log_index (rn_state (p_raft p))) (now + 2000 * ns_per_ms)\<rparr>)"
| caught_up: "\<lbrakk>p_loop p = LoopTransfer q trm leader_last deadline; transfer_wait q leader_last deadline now (p_raft p) = Ready\<rbrakk>
    \<Longrightarrow> loop_step K C p (p\<lparr>p_loop := LoopHandover q trm\<rparr>)"
| give_up: "\<lbrakk>p_loop p = LoopTransfer q trm leader_last deadline; transfer_wait q leader_last deadline now (p_raft p) = GiveUp e\<rbrakk>
    \<Longrightarrow> loop_step K C p (p\<lparr>p_loop := LoopIdle\<rparr>)"
| handed_over: "\<lbrakk>p_loop p = LoopHandover q trm; finish_transfer K C q trm sent (p_raft p) = Some (r, res)\<rbrakk>
    \<Longrightarrow> loop_step K C p ((set_raft r p)\<lparr>p_loop := LoopIdle\<rparr>)"
| stop: "\<lbrakk>p_loop p = LoopIdle; p_shutdown p\<rbrakk> \<Longrightarrow> loop_step K C p (p\<lparr>p_loop := LoopStopped, p_inbox := []\<rparr>)"

section \<open>The scheduler\<close>

text \<open>
  The branches of the scheduler loop, one committed entry, one part of \<open>maybe_compact_log\<close> and one assignment at a
  time.
\<close>

inductive sched_step :: "'db kv \<Rightarrow> serde \<Rightarrow> (uuid \<Rightarrow> string) \<Rightarrow> 'db process \<Rightarrow> 'db process \<Rightarrow> bool" for K C simple where
  take: "\<lbrakk>p_sched p = SchedIdle; take_pending_snapshot (p_raft p) = (r, Some sn)\<rbrakk>
    \<Longrightarrow> sched_step K C simple p ((set_raft r p)\<lparr>p_sched := Rebuilding sn\<rparr>)"
| rebuild: "\<lbrakk>p_sched p = Rebuilding sn; rebuild_from_snapshot now sn (nd_queue (p_node p), nd_assigner (p_node p)) = (q, a)\<rbrakk>
    \<Longrightarrow> sched_step K C simple p (p\<lparr>p_node := (p_node p)\<lparr>nd_queue := q, nd_assigner := a\<rparr>, p_sched := SchedIdle\<rparr>)"
| fetch: "\<lbrakk>p_sched p = SchedIdle; take_pending_snapshot (p_raft p) = (r, None); get_committed_entries r = (r', es)\<rbrakk>
    \<Longrightarrow> sched_step K C simple p ((set_raft r' p)\<lparr>p_sched := Applying es False\<rparr>)"
| applied: "\<lbrakk>p_sched p = Applying (e # es) wake;
    a = apply_command (nc_node_id (rn_config (p_raft p))) simple utc now (le_command e) (node_app (p_node p))\<rbrakk>
    \<Longrightarrow> sched_step K C simple p (p\<lparr>p_node := (p_node p)\<lparr>nd_queue := app_queue a, nd_assigner := app_assigner a,
        nd_worker_notify := nd_worker_notify (p_node p) \<or> wake_worker a\<rparr>,
      p_sched := Applying es (wake \<or> wake_assigner a), p_kills := p_kills p @ kills a\<rparr>)"
| all_applied: "\<lbrakk>p_sched p = Applying [] wake; last_applied (rn_state (p_raft p)) < u64_max;
    phase = (case compaction_point (rn_state (p_raft p)) of None \<Rightarrow> SchedIdle | Some (idx, trm) \<Rightarrow> Compacting idx trm)\<rbrakk>
    \<Longrightarrow> sched_step K C simple p (p\<lparr>p_node := (p_node p)\<lparr>nd_job_notify := nd_job_notify (p_node p) \<or> wake\<rparr>, p_sched := phase\<rparr>)"
| snapshot: "p_sched p = Compacting idx trm
    \<Longrightarrow> sched_step K C simple p (p\<lparr>p_sched := Snapshotting (build_snapshot idx trm (nd_queue (p_node p)) (nd_assigner (p_node p)))\<rparr>)"
| compact: "\<lbrakk>p_sched p = Snapshotting sn; compact_with K C sn (p_raft p) = Some r\<rbrakk>
    \<Longrightarrow> sched_step K C simple p ((set_raft r p)\<lparr>p_sched := SchedIdle\<rparr>)"
| cleanup: "p_sched p = SchedIdle \<Longrightarrow> sched_step K C simple p (p\<lparr>p_node := on_cleanup utc (p_node p)\<rparr>)"
| notified: "\<lbrakk>p_sched p = SchedIdle; nd_job_notify (p_node p)\<rbrakk>
    \<Longrightarrow> sched_step K C simple p (p\<lparr>p_node := (p_node p)\<lparr>nd_job_notify := False\<rparr>,
      p_sched := (if is_leader (p_raft p) then Assigning else SchedIdle)\<rparr>)"
| assign: "\<lbrakk>p_sched p = Assigning; next_assignment now (nd_queue (p_node p)) (nd_assigner (p_node p)) = Some (i, w)\<rbrakk>
    \<Longrightarrow> sched_step K C simple p (p\<lparr>p_node := (p_node p)\<lparr>nd_queue := fst (assign_job i w (nd_queue (p_node p))),
        nd_assigner := note_running w i (nd_assigner (p_node p))\<rparr>, p_sched := SendingAssignment (AssignJob i w)\<rparr>)"
| send: "\<lbrakk>p_sched p = SendingAssignment c; has_room p\<rbrakk>
    \<Longrightarrow> sched_step K C simple p ((enqueue (AppendCommand c) None p)\<lparr>p_sched := Assigning\<rparr>)"
| all_assigned: "\<lbrakk>p_sched p = Assigning; next_assignment now (nd_queue (p_node p)) (nd_assigner (p_node p)) = None\<rbrakk>
    \<Longrightarrow> sched_step K C simple p (p\<lparr>p_sched := SchedIdle\<rparr>)"
| send_failed: "\<lbrakk>p_sched p = SendingAssignment c; p_loop p = LoopStopped\<rbrakk>
    \<Longrightarrow> sched_step K C simple p (p\<lparr>p_sched := Assigning\<rparr>)"
| stop: "\<lbrakk>p_sched p = SchedIdle; p_shutdown p\<rbrakk> \<Longrightarrow> sched_step K C simple p (p\<lparr>p_sched := SchedStopped\<rparr>)"

section \<open>The worker\<close>

inductive work_step :: "ext \<Rightarrow> (uuid \<Rightarrow> string) \<Rightarrow> 'db process \<Rightarrow> 'db process \<Rightarrow> bool" for X simple where
  tick: "\<lbrakk>p_work p = WorkIdle;
    send_heartbeat connect now (p_cached p) ((p_node p)\<lparr>nd_worker_notify := False\<rparr>) = (n, cached, beat);
    js = jobs_assigned_to (nc_node_id (rn_config (nd_raft n))) (nd_queue n)\<rbrakk>
    \<Longrightarrow> work_step X simple p (p\<lparr>p_node := n, p_cached := cached, p_work := Working js []\<rparr>)"
| result: "\<lbrakk>p_work p = Working ((i, cmd, img) # js) us;
    record_result utc i (fst (execute docker simple (sandbox (rn_config (p_raft p))) i cmd img)) (p_node p) = (n, vs)\<rbrakk>
    \<Longrightarrow> work_step X simple p (p\<lparr>p_node := n, p_work := Working js (us @ vs)\<rparr>)"
| flush: "\<lbrakk>p_work p = Working [] us; f = flush_updates X (p_cached p) us (p_node p)\<rbrakk>
    \<Longrightarrow> work_step X simple p (p\<lparr>p_work := (case f of Some (Propose c) \<Rightarrow> Reporting c | _ \<Rightarrow> WorkIdle)\<rparr>)"
| report: "\<lbrakk>p_work p = Reporting c; has_room p\<rbrakk>
    \<Longrightarrow> work_step X simple p ((enqueue (AppendCommand c) None p)\<lparr>p_work := WorkIdle\<rparr>)"
| report_failed: "\<lbrakk>p_work p = Reporting c; p_loop p = LoopStopped\<rbrakk> \<Longrightarrow> work_step X simple p (p\<lparr>p_work := WorkIdle\<rparr>)"
| stop: "\<lbrakk>p_work p = WorkIdle; p_shutdown p\<rbrakk> \<Longrightarrow> work_step X simple p (p\<lparr>p_work := WorkStopped\<rparr>)"

section \<open>The node\<close>

definition shutdown_signalled :: "'db process \<Rightarrow> 'db process" where
  "shutdown_signalled p = p\<lparr>p_shutdown := True\<rparr>"

text \<open>
  A step of any task; a signal, which asks every loop to stop when it next waits (\<open>src/shutdown.rs\<close>); or the end of the
  process and a new start from what is in the database.
\<close>

inductive process_step :: "'db kv \<Rightarrow> serde \<Rightarrow> ext \<Rightarrow> (uuid \<Rightarrow> string) \<Rightarrow> 'db process \<Rightarrow> 'db process \<Rightarrow> bool"
  for K C X simple where
  front: "front_step X p p' \<Longrightarrow> process_step K C X simple p p'"
| peer: "peer_step K C X p p' \<Longrightarrow> process_step K C X simple p p'"
| loop: "loop_step K C p p' \<Longrightarrow> process_step K C X simple p p'"
| sched: "sched_step K C simple p p' \<Longrightarrow> process_step K C X simple p p'"
| work: "work_step X simple p p' \<Longrightarrow> process_step K C X simple p p'"
| signal: "process_step K C X simple p (shutdown_signalled p)"
| crash: "\<lbrakk>rn_storage (p_raft p) = Some db; data_dir config = Some dir; node_new K C (\<lambda>_. db) now config = Some n\<rbrakk>
    \<Longrightarrow> process_step K C X simple p (process_start dial has_tls ms now n)"

section \<open>What every task keeps\<close>

text \<open>
  The stored state is that in memory, the tables are well formed, the channel is bounded, and empty once the loop
  has stopped, no request is answered twice, and the loop waits for an election exactly while one that it started is
  being run. While the log is about to be compacted the database is in use.
\<close>

definition compaction_ok :: "'db kv \<Rightarrow> sched_phase \<Rightarrow> 'db raft_node \<Rightarrow> bool" where
  "compaction_ok K phase n \<longleftrightarrow>
     (case phase of
        Compacting idx trm \<Rightarrow> idx < u64_max \<and> in_use K n
      | Snapshotting sn \<Rightarrow> last_included_index sn < u64_max \<and> in_use K n
      | _ \<Rightarrow> True)"

definition raft_ok :: "'db kv \<Rightarrow> serde \<Rightarrow> sched_phase \<Rightarrow> 'db raft_node \<Rightarrow> bool" where
  "raft_ok K C phase n \<longleftrightarrow> node_inv K C n \<and> compaction_ok K phase n"

definition transfer_term :: "loop_phase \<Rightarrow> u64" where
  "transfer_term l = (case l of LoopTransfer q trm i d \<Rightarrow> trm | LoopHandover q trm \<Rightarrow> trm | _ \<Rightarrow> 0)"

definition process_inv :: "'db kv \<Rightarrow> serde \<Rightarrow> 'db process \<Rightarrow> bool" where
  "process_inv K C p \<longleftrightarrow>
     raft_ok K C (p_sched p) (p_raft p) \<and> queue_wf (nd_queue (p_node p)) \<and> assigner_wf (nd_assigner (p_node p)) \<and>
     length (p_inbox p) \<le> CHANNEL_CAPACITY \<and> distinct (tickets p) \<and>
     (p_loop p = LoopStopped \<longrightarrow> p_inbox p = []) \<and> transfer_term (p_loop p) \<le> u64_max \<and>
     length (filter el_by_timer (p_elections p)) = (if p_loop p = LoopElection then 1 else 0)"

lemma set_raft_sel [simp]:
  "p_node (set_raft r p) = (p_node p)\<lparr>nd_raft := r\<rparr>" "p_inbox (set_raft r p) = p_inbox p"
  "p_replies (set_raft r p) = p_replies p" "p_loop (set_raft r p) = p_loop p" "p_elections (set_raft r p) = p_elections p"
  "p_waiting (set_raft r p) = p_waiting p" "p_sched (set_raft r p) = p_sched p" "p_work (set_raft r p) = p_work p"
  "p_timeout (set_raft r p) = p_timeout p" "p_cached (set_raft r p) = p_cached p" "p_kills (set_raft r p) = p_kills p"
  "p_shutdown (set_raft r p) = p_shutdown p"
  by (simp_all add: set_raft_def)

lemma enqueue_sel [simp]:
  "p_node (enqueue m t p) = p_node p" "p_inbox (enqueue m t p) = p_inbox p @ [(m, t)]"
  "p_replies (enqueue m t p) = p_replies p" "p_loop (enqueue m t p) = p_loop p"
  "p_elections (enqueue m t p) = p_elections p" "p_sched (enqueue m t p) = p_sched p"
  "p_work (enqueue m t p) = p_work p" "p_shutdown (enqueue m t p) = p_shutdown p"
  by (simp_all add: enqueue_def)

lemma reply_to_sel [simp]:
  "p_node (reply_to t r p) = p_node p" "p_inbox (reply_to t r p) = p_inbox p"
  "p_replies (reply_to t r p) = (case t of Some k \<Rightarrow> (k, r) # p_replies p | None \<Rightarrow> p_replies p)"
  "p_loop (reply_to t r p) = p_loop p" "p_elections (reply_to t r p) = p_elections p" "p_sched (reply_to t r p) = p_sched p"
  "p_work (reply_to t r p) = p_work p" "p_shutdown (reply_to t r p) = p_shutdown p"
  by (simp_all add: reply_to_def split: option.split)

lemma tickets_frame [simp]:
  "tickets (p\<lparr>p_node := n\<rparr>) = tickets p" "tickets (p\<lparr>p_waiting := w\<rparr>) = tickets p" "tickets (p\<lparr>p_loop := l\<rparr>) = tickets p"
  "tickets (p\<lparr>p_elections := es\<rparr>) = tickets p" "tickets (p\<lparr>p_sched := sp\<rparr>) = tickets p" "tickets (p\<lparr>p_work := wp\<rparr>) = tickets p"
  "tickets (p\<lparr>p_cached := c\<rparr>) = tickets p" "tickets (p\<lparr>p_kills := ks\<rparr>) = tickets p" "tickets (p\<lparr>p_timeout := ms\<rparr>) = tickets p"
  "tickets (set_raft r p) = tickets p" "tickets (p\<lparr>p_shutdown := b\<rparr>) = tickets p"
  by (simp_all add: tickets_def set_raft_def)

lemma tickets_simps:
  "tickets (enqueue m None p) = tickets p"
  "set (tickets (enqueue m (Some t) p)) = insert t (set (tickets p))"
  "distinct (tickets (enqueue m (Some t) p)) \<longleftrightarrow> t \<notin> set (tickets p) \<and> distinct (tickets p)"
  by (auto simp: tickets_def List.map_filter_def)

text \<open>Taking the next message and answering it moves its ticket.\<close>

lemma tickets_answered:
  assumes "p_inbox p = (m, t) # rest" and "distinct (tickets p)"
    and "p_inbox p' = rest" and "p_replies p' = (case t of Some k \<Rightarrow> (k, r) # p_replies p | None \<Rightarrow> p_replies p)"
  shows "distinct (tickets p')"
  using assms by (cases t) (auto simp: tickets_def List.map_filter_def)

lemma tickets_taken:
  assumes "p_inbox p = (m, t) # rest" and "distinct (tickets p)" and "p_inbox p' = rest" and "p_replies p' = p_replies p"
  shows "distinct (tickets p')"
  using assms by (cases t) (auto simp: tickets_def List.map_filter_def)

locale task =
  fixes step :: "'p \<Rightarrow> 'p \<Rightarrow> bool" and inv :: "'p \<Rightarrow> bool"
  assumes keeps: "step p p' \<Longrightarrow> inv p \<Longrightarrow> inv p'"
begin

lemma run_keeps: "step\<^sup>*\<^sup>* p p' \<Longrightarrow> inv p \<Longrightarrow> inv p'"
  by (induction rule: rtranclp_induct) (auto intro: keeps)

end

definition environment :: "'db kv \<Rightarrow> serde \<Rightarrow> bool" where
  "environment K C \<longleftrightarrow> kv_laws K \<and> serde_laws C \<and> kv_available K C"

definition kept :: "'db kv \<Rightarrow> serde \<Rightarrow> 'db process \<Rightarrow> bool" where
  "kept K C p \<longleftrightarrow> environment K C \<and> process_inv K C p"

lemma connect_frame [simp]:
  "rn_state (connect_to_peers dial has_tls r) = rn_state r" "rn_storage (connect_to_peers dial has_tls r) = rn_storage r"
  "rn_config (connect_to_peers dial has_tls r) = rn_config r"
proof -
  have "rn_state (foldl (connect_to_peer dial has_tls) r cs) = rn_state r \<and>
      rn_storage (foldl (connect_to_peer dial has_tls) r cs) = rn_storage r \<and>
      rn_config (foldl (connect_to_peer dial has_tls) r cs) = rn_config r" for cs
    by (induction cs arbitrary: r) (simp_all add: connect_to_peer_def Let_def split: dial_result.split)
  then show "rn_state (connect_to_peers dial has_tls r) = rn_state r"
    "rn_storage (connect_to_peers dial has_tls r) = rn_storage r"
    "rn_config (connect_to_peers dial has_tls r) = rn_config r"
    by (simp_all add: connect_to_peers_def)
qed

lemma connect_pending: "pending_snapshot (connect_to_peers dial has_tls r) = pending_snapshot r"
proof -
  have "pending_snapshot (foldl (connect_to_peer dial has_tls) r cs) = pending_snapshot r" for cs
    by (induction cs arbitrary: r) (simp_all add: connect_to_peer_def split: dial_result.split)
  then show ?thesis by (simp add: connect_to_peers_def)
qed

lemma raft_ok_cong:
  assumes "raft_ok K C phase r" and "rn_storage r' = rn_storage r" and "durable (rn_state r') = durable (rn_state r)"
    and "role (rn_state r') = role (rn_state r)"
  shows "raft_ok K C phase r'"
  using assms node_inv_cong [OF _ assms(2-4)] in_use_cong [OF assms(2)]
  by (simp add: raft_ok_def compaction_ok_def split: sched_phase.splits)

lemma raft_ok_step:
  assumes "node_step K C X r r'" and "environment K C" and "raft_ok K C phase r"
  shows "raft_ok K C phase r'"
proof -
  have env: "kv_laws K" "serde_laws C" "kv_available K C" using assms(2) by (simp_all add: environment_def)
  from node_step_inv [OF assms(1) env] node_step_in_use [OF assms(1) env(1)] assms(3) show ?thesis
    by (auto simp: raft_ok_def compaction_ok_def split: sched_phase.splits)
qed

lemma connect_inv: "raft_ok K C phase r \<Longrightarrow> raft_ok K C phase (connect_to_peers dial has_tls r)"
  by (erule raft_ok_cong) simp_all

context submit_api
begin

lemma finish_frame:
  "nd_raft (finish X j reply n) = nd_raft n" "nd_assigner (finish X j reply n) = nd_assigner n"
  using finish_ok [of X j _ n] finish_err [of reply X j n] by (cases "\<exists>idx. reply = Replied (Inr idx)"; auto)+

lemma finish_get:
  "i \<noteq> j_id j \<Longrightarrow> get_job (nd_queue (finish X j reply n)) i = get_job (nd_queue n) i"
  using finish_ok [of X j _ n] finish_err [of reply X j n]
  by (cases "\<exists>idx. reply = Replied (Inr idx)") (auto simp: get_job_add)

end

lemmas finish_keeps = grpc_submit.finish_wf dash_submit.finish_wf grpc_submit.finish_frame dash_submit.finish_frame

lemma raft_keeps: "process_inv K C p \<Longrightarrow> raft_ok K C (p_sched p) r \<Longrightarrow> process_inv K C (set_raft r p)"
  by (simp add: process_inv_def)

lemma front_step_keeps:
  assumes "front_step X p p'" and "process_inv K C p"
  shows "process_inv K C p'"
  using assms
proof (cases rule: front_step.cases)
  case (submitted t j reply n)
  then show ?thesis using assms(2) by (auto simp: process_inv_def finish_keeps)
qed (auto simp: process_inv_def tickets_simps has_room_def drain_start_def internal_heartbeat_def wf_keep)

lemma peer_step_keeps:
  assumes "peer_step K C X p p'" and K: "environment K C" and inv: "process_inv K C p"
  shows "process_inv K C p'"
proof -
  have ni: "raft_ok K C (p_sched p) (p_raft p)" using inv by (simp add: process_inv_def)
  have keep: "raft_ok K C (p_sched p) r" if "node_step K C X (p_raft p) r" for r by (rule raft_ok_step [OF that K ni])
  from assms(1) show ?thesis
  proof (cases rule: peer_step.cases)
    case (timeout_now treq r vreq)
    then have "raft_ok K C (p_sched p) r" by (intro keep node_step.campaign)
    with raft_keeps [OF inv this] show ?thesis by (simp add: timeout_now(1) process_inv_def)
  next
    case (connect dial has_tls)
    with raft_keeps [OF inv connect_inv [OF ni]] show ?thesis by simp
  qed (auto intro!: raft_keeps [OF inv] keep intro: node_step.intros)
qed

lemma count_answer_inv:
  assumes K: "environment K C" and "raft_ok K C phase n" and "count_answer K C trm now (q, answer) votes n = Some (n', res)"
    and "\<forall>v. answer = Some v \<longrightarrow> vres_term v \<le> u64_max"
  shows "raft_ok K C phase n'"
proof -
  have env: "kv_laws K" "serde_laws C" using K by (simp_all add: environment_def)
  have seen: "raft_ok K C phase (saw_peer now q n)" by (rule raft_ok_cong [OF assms(2)]) simp_all
  from assms(3,4) consider "n' = n" | "n' = saw_peer now q n"
    | t where "step_down K C t (saw_peer now q n) = Some n'" "t \<le> u64_max"
    by (auto simp: count_answer_def Let_def split: option.splits if_splits)
  then show ?thesis
  proof cases
    case 3
    from step_down_inv [OF env _ this] step_down_in_use [OF env(1) this(1)] seen show ?thesis
      by (auto simp: raft_ok_def compaction_ok_def split: sched_phase.splits)
  qed (use assms(2) seen in simp_all)
qed

lemma filter_replace1:
  "x \<in> set xs \<Longrightarrow> P y = P x \<Longrightarrow> length (filter P (y # remove1 x xs)) = length (filter P xs)"
  by (induction xs) auto

lemma timer_election:
  assumes "process_inv K C p" and "el \<in> set (p_elections p)" and "el_by_timer el"
  shows "p_loop p = LoopElection"
proof -
  have "filter el_by_timer (p_elections p) \<noteq> []" using assms(2,3) by (auto simp: filter_empty_conv)
  then show ?thesis using assms(1) by (auto simp: process_inv_def split: if_splits)
qed

lemma election_ends:
  assumes inv: "process_inv K C p" and el: "el \<in> set (p_elections p)" and "raft_ok K C (p_sched p) r"
  shows "process_inv K C ((set_raft r p)\<lparr>p_elections := remove1 el (p_elections p),
    p_loop := (if el_by_timer el then LoopIdle else p_loop p)\<rparr>)"
  using assms timer_election [OF inv el]
  by (auto simp: process_inv_def transfer_term_def filter_remove1 length_remove1)

lemma loop_step_keeps:
  assumes "loop_step K C p p'" and K: "environment K C" and inv: "process_inv K C p"
  shows "process_inv K C p'"
proof -
  note def = process_inv_def
  have ni: "raft_ok K C (p_sched p) (p_raft p)" using inv by (simp add: process_inv_def)
  have keep: "raft_ok K C (p_sched p) r" if "node_step K C X (p_raft p) r" for r X by (rule raft_ok_step [OF that K ni])
  from assms(1) show ?thesis
  proof (cases rule: loop_step.cases)
    case (command c t rest r res)
    then have "raft_ok K C (p_sched p) r" by (intro keep node_step.command)
    moreover have "distinct (tickets p')"
      by (rule tickets_answered [OF command(3), where r = res]) (use inv in \<open>simp_all add: def command split: option.split\<close>)
    ultimately show ?thesis using inv command by (simp add: def)
  next
    case (heard t rest E ms)
    have "distinct (tickets p')" by (rule tickets_taken [OF heard(3)]) (use inv in \<open>simp_all add: def heard\<close>)
    moreover have "raft_ok K C (p_sched p) ((p_raft p)\<lparr>last_heartbeat := te_now E\<rparr>)" by (rule raft_ok_cong [OF ni]) simp_all
    ultimately show ?thesis using inv heard by (simp add: def)
  next
    case (trigger t rest r vreq)
    then have "raft_ok K C (p_sched p) r" by (intro keep node_step.campaign)
    moreover have "distinct (tickets p')" by (rule tickets_taken [OF trigger(3)]) (use inv in \<open>simp_all add: def trigger\<close>)
    ultimately show ?thesis using inv trigger by (simp add: def transfer_term_def)
  next
    case (timer now r vreq)
    then have "raft_ok K C (p_sched p) r" by (intro keep node_step.campaign)
    with inv timer show ?thesis by (simp add: def transfer_term_def)
  next
    case (counted el q qs answer now r votes)
    then have "raft_ok K C (p_sched p) r" using count_answer_inv [OF K ni] by blast
    moreover have "length (filter el_by_timer (p_elections p')) = length (filter el_by_timer (p_elections p))"
      unfolding counted(1) process.select_convs process.update_convs by (simp add: filter_replace1 counted(2) del: filter.simps)
    ultimately show ?thesis using inv counted by (simp add: def)
  next
    case (outvoted el q qs answer now r)
    then have "raft_ok K C (p_sched p) r" using count_answer_inv [OF K ni] by blast
    from election_ends [OF inv outvoted(2) this] show ?thesis by (simp add: outvoted(1))
  next
    case (ended el)
    from election_ends [OF inv ended(2) keep [OF node_step.count]] show ?thesis by (simp add: ended(1))
  next
    case (refuse tg t rest e)
    have "distinct (tickets p')"
      by (rule tickets_answered [OF refuse(3), where r = "Inl e"]) (use inv in \<open>simp_all add: def refuse split: option.split\<close>)
    then show ?thesis using inv refuse by (simp add: def)
  next
    case (transfer tg t rest q now)
    have "distinct (tickets p')" by (rule tickets_taken [OF transfer(3)]) (use inv in \<open>simp_all add: def transfer\<close>)
    then show ?thesis using inv ni transfer by (simp add: def transfer_term_def raft_ok_def node_inv_def)
  next
    case (handed_over q trm sent r res)
    then have "trm \<le> u64_max" using inv by (simp add: def transfer_term_def)
    then have "raft_ok K C (p_sched p) r" using handed_over by (intro keep node_step.transfer)
    then show ?thesis using inv handed_over by (simp add: def transfer_term_def)
  next
    case stop
    moreover have "tickets p' = map fst (p_replies p)" by (simp add: stop tickets_def List.map_filter_def)
    ultimately show ?thesis using inv by (simp add: def tickets_def transfer_term_def)
  qed (use inv in \<open>auto simp: def transfer_term_def\<close>)
qed

lemma rebuild_wf:
  assumes "rebuild_from_snapshot now sn (q, a) = (q', a')"
  shows "queue_wf q'" and "assigner_wf a'"
proof -
  have "queue_wf (foldl (\<lambda>q sj. fst (add_job (from_snapshot sj) q)) (queue_clear q) (sn_jobs sn))"
    by (intro foldl_keeps [where P = queue_wf] wf_keep)
  moreover have "assigner_wf (foldl (\<lambda>a w. register_worker now w a) (assigner_clear a) (sn_workers sn))"
    by (intro foldl_keeps [where P = assigner_wf] wf_keep)
  ultimately show "queue_wf q'" and "assigner_wf a'" using assms by (auto simp: rebuild_from_snapshot_def)
qed

lemma apply_one_wf:
  assumes "process_inv K C p" and "a = apply_command me simple utc now c (node_app (p_node p))"
  shows "queue_wf (app_queue a)" and "assigner_wf (app_assigner a)"
  using apply_in_wf [of "node_app (p_node p)" "(\<lparr>env_me = me, env_simple = simple, env_utc = utc, env_now = now\<rparr>, c)"] assms
  by (simp_all add: apply_in_def app_wf_def node_app_def process_inv_def)

lemma sched_step_keeps:
  assumes "sched_step K C simple p p'" and K: "environment K C" and inv: "process_inv K C p"
  shows "process_inv K C p'"
proof -
  have ok: "raft_ok K C (p_sched p) (p_raft p)" using inv by (simp add: process_inv_def)
  have cleared: "raft_ok K C (p_sched p) ((p_raft p)\<lparr>pending_snapshot := None\<rparr>)" by (rule raft_ok_cong [OF ok]) simp_all
  from assms(1) show ?thesis
  proof (cases rule: sched_step.cases)
    case (take r sn)
    with cleared inv show ?thesis
      by (auto simp: take_pending_snapshot_def process_inv_def raft_ok_def compaction_ok_def)
  next
    case (rebuild sn now q a)
    with rebuild_wf [OF rebuild(3)] inv show ?thesis by (simp add: process_inv_def raft_ok_def compaction_ok_def)
  next
    case (fetch r r' es)
    then have "raft_ok K C (p_sched p) r" using cleared by (auto simp: take_pending_snapshot_def)
    from raft_ok_step [OF node_step.deliver [OF fetch(4)] K this] inv show ?thesis
      by (simp add: fetch(1) process_inv_def raft_ok_def compaction_ok_def)
  next
    case (applied e es wake a utc now)
    with apply_one_wf [OF inv applied(3)] inv show ?thesis by (simp add: process_inv_def raft_ok_def compaction_ok_def)
  next
    case (all_applied wake phase)
    have "compaction_ok K phase (p_raft p)"
      using compaction_point_in_use [of K C "p_raft p"] ok all_applied(3,4)
      by (auto simp: compaction_ok_def raft_ok_def node_inv_def compaction_point_def split: option.splits if_splits)
    with all_applied(1) ok inv show ?thesis by (simp add: process_inv_def raft_ok_def)
  next
    case (snapshot idx trm)
    with inv show ?thesis by (simp add: process_inv_def raft_ok_def compaction_ok_def build_snapshot_def)
  next
    case (compact sn r)
    then have "last_included_index sn < u64_max" "in_use K (p_raft p)" using ok by (simp_all add: raft_ok_def compaction_ok_def)
    from raft_ok_step [OF node_step.compact [OF compact(3) this] K ok] inv show ?thesis
      by (simp add: compact(1) process_inv_def raft_ok_def compaction_ok_def)
  qed (use inv in \<open>auto simp: process_inv_def tickets_simps has_room_def on_cleanup_def wf_keep raft_ok_def compaction_ok_def\<close>)
qed

lemma work_step_keeps:
  assumes "work_step X simple p p'" and inv: "process_inv K C p"
  shows "process_inv K C p'"
  using assms(1)
proof (cases rule: work_step.cases)
  case (tick connect now n cached beat js)
  then have "nd_raft n = p_raft p" "nd_queue n = nd_queue (p_node p)" "assigner_wf (nd_assigner n)"
    using inv by (auto simp: send_heartbeat_def process_inv_def Let_def wf_keep split: if_splits option.splits)
  with inv show ?thesis by (simp add: tick(1) process_inv_def)
next
  case (result i cmd img js us utc docker n vs)
  then have "n = fst (record_result utc i (fst (execute docker simple (sandbox (rn_config (p_raft p))) i cmd img)) (p_node p))"
    by simp
  then have "nd_raft n = p_raft p" "queue_wf (nd_queue n)" "assigner_wf (nd_assigner n)"
    using inv by (simp_all add: record_result_frame record_result_wf process_inv_def)
      (simp add: record_result_def Let_def wf_keep)
  with inv show ?thesis by (simp add: result(1) process_inv_def)
qed (use inv in \<open>auto simp: process_inv_def tickets_simps has_room_def\<close>)

text \<open>A start, with what the database holds.\<close>

lemma process_start_sel:
  "p_raft (process_start dial has_tls ms now n) = connect_to_peers dial has_tls (restore_snapshot_for_scheduler (nd_raft n))"
  "nd_queue (p_node (process_start dial has_tls ms now n)) = nd_queue n"
  "nd_assigner (p_node (process_start dial has_tls ms now n)) =
     register_worker now (nc_node_id (rn_config (connect_to_peers dial has_tls (restore_snapshot_for_scheduler (nd_raft n))))) (nd_assigner n)"
  "p_inbox (process_start dial has_tls ms now n) = []" "p_replies (process_start dial has_tls ms now n) = []"
  "p_loop (process_start dial has_tls ms now n) = LoopIdle" "p_elections (process_start dial has_tls ms now n) = []"
  "p_sched (process_start dial has_tls ms now n) = SchedIdle"
  by (simp_all add: process_start_def worker_start_def node_start_def Let_def)

lemma start_inv:
  assumes "node_inv K C (nd_raft n)" and "queue_wf (nd_queue n)" and "assigner_wf (nd_assigner n)"
  shows "process_inv K C (process_start dial has_tls ms now n)"
proof -
  have "raft_ok K C SchedIdle (nd_raft n)" using assms(1) by (simp add: raft_ok_def compaction_ok_def)
  then have "raft_ok K C SchedIdle (restore_snapshot_for_scheduler (nd_raft n))"
    by (rule raft_ok_cong) (simp_all add: restore_snapshot_for_scheduler_def split: option.split)
  from connect_inv [OF this] assms(2,3) show ?thesis
    by (simp add: process_inv_def process_start_sel wf_keep tickets_def List.map_filter_def transfer_term_def)
qed

lemma node_new_sel:
  assumes "node_new K C open_db now config = Some n"
  shows "queue_wf (nd_queue n)" and "assigner_wf (nd_assigner n)"
    and "data_dir config = Some dir \<Longrightarrow> restart K C config now (open_db dir) = Some (nd_raft n)"
    and "data_dir config = None \<Longrightarrow> nd_raft n = new_with_storage config None None now"
  using assms by (auto simp: node_new_def queue_new_def wf_keep bind_eq_Some_conv split: option.splits)

lemma process_step_keeps:
  assumes "process_step K C X simple p p'" and K: "environment K C" and inv: "process_inv K C p"
  shows "process_inv K C p'"
  using assms(1)
proof (cases rule: process_step.cases)
  case (crash db config dir now n dial has_tls ms)
  have "restart K C config now db = Some (nd_raft n)" using node_new_sel(3) [OF crash(4,3)] .
  then have "node_inv K C (nd_raft n)"
    using restart_inv(1) [OF _ _ _ crash(2)] K inv by (simp add: environment_def process_inv_def raft_ok_def)
  from start_inv [OF this node_new_sel(1,2) [OF crash(4)]] show ?thesis by (simp add: crash(1))
next
  case signal
  with inv show ?thesis by (simp add: process_inv_def shutdown_signalled_def)
qed (use K inv in \<open>blast intro: front_step_keeps peer_step_keeps loop_step_keeps sched_step_keeps work_step_keeps\<close>)+

interpretation front_task: task "front_step X" "kept K C" for X K C
  by unfold_locales (auto simp: kept_def intro: front_step_keeps)

interpretation peer_task: task "peer_step K C X" "kept K C" for K C X
  by unfold_locales (auto simp: kept_def intro: peer_step_keeps)

interpretation loop_task: task "loop_step K C" "kept K C" for K C
  by unfold_locales (auto simp: kept_def intro: loop_step_keeps)

interpretation sched_task: task "sched_step K C simple" "kept K C" for K C simple
  by unfold_locales (auto simp: kept_def intro: sched_step_keeps)

interpretation work_task: task "work_step X simple" "kept K C" for K C X simple
  by unfold_locales (auto simp: kept_def intro: work_step_keeps)

interpretation node_task: task "process_step K C X simple" "kept K C" for K C X simple
  by unfold_locales (auto simp: kept_def intro: process_step_keeps)

end
