(* ===== verification/Running_Node.thy ===== *)
theory Running_Node
  imports Node_Run Scheduling
begin

text \<open>
  What holds of a running node whatever the order in which its tasks take their steps: its tables, its channel and
  its database stay consistent, the jobs it holds only move forward, and a turn of the scheduler that nothing
  interrupts is the turn of \<open>Scheduler\<close>.
\<close>

section \<open>Jobs move forward\<close>

text \<open>Statuses by how far a job is: waiting, running, executed, cancelled.\<close>

fun status_rank :: "job_status \<Rightarrow> nat" where
  "status_rank Pending = 0"
| "status_rank Running = 1"
| "status_rank Completed = 2"
| "status_rank Failed = 2"
| "status_rank Cancelled = 3"

instantiation job_status :: preorder
begin

definition less_eq_job_status :: "job_status \<Rightarrow> job_status \<Rightarrow> bool" where
  "less_eq_job_status a b \<longleftrightarrow> status_rank a \<le> status_rank b"

definition less_job_status :: "job_status \<Rightarrow> job_status \<Rightarrow> bool" where
  "less_job_status a b \<longleftrightarrow> status_rank a < status_rank b"

instance
  by standard (auto simp: less_eq_job_status_def less_job_status_def)

end

text \<open>The same job, at least as far.\<close>

definition advances :: "job \<Rightarrow> job \<Rightarrow> bool" where
  "advances j j' \<longleftrightarrow>
     j_id j' = j_id j \<and> j_command j' = j_command j \<and> j_image j' = j_image j \<and> j_created_at j' = j_created_at j \<and>
     j_status j \<le> j_status j'"

definition final :: "job_status \<Rightarrow> bool" where
  "final st \<longleftrightarrow> st \<noteq> Pending \<and> st \<noteq> Running"

fun command_updates :: "command \<Rightarrow> job_status_update list" where
  "command_updates (UpdateJobStatus i st b code t) =
     [\<lparr>jsu_job_id = i, jsu_status = st, jsu_executed_by = b, jsu_exit_code = code, jsu_completed_at = t\<rparr>]"
| "command_updates (BatchUpdateJobStatus us) = us"
| "command_updates c = []"

text \<open>The reports that the scheduler applies next.\<close>

definition next_updates :: "'db process \<Rightarrow> job_status_update list" where
  "next_updates p = (case p_sched p of Applying (e # es) wake \<Rightarrow> command_updates (le_command e) | _ \<Rightarrow> [])"

lemma advances_refl [simp]: "advances j j"
  by (simp add: advances_def)

lemma advances_trans: "advances j k \<Longrightarrow> advances k l \<Longrightarrow> advances j l"
  by (auto simp: advances_def intro: order_trans)

lemma final_rank: "final st \<longleftrightarrow> 2 \<le> status_rank st"
  by (cases st) (simp_all add: final_def)

lemma below_final: "st \<noteq> Cancelled \<Longrightarrow> final st' \<Longrightarrow> st \<le> st'"
  by (cases st; cases st') (simp_all add: less_eq_job_status_def final_def)

lemma apply_update_advances:
  assumes "get_job q i = Some j" and "jsu_job_id u = i \<Longrightarrow> final (jsu_status u)"
  shows "\<exists>j'. get_job (apply_update u q) i = Some j' \<and> advances j j'"
  using assms below_final [of "j_status j" "jsu_status u"]
  by (auto simp: apply_update_def get_job_updates advances_def)

lemma apply_updates_advance:
  assumes "get_job q i = Some j" and "\<forall>u \<in> set us. jsu_job_id u = i \<longrightarrow> final (jsu_status u)"
  shows "\<exists>j'. get_job (foldl (\<lambda>q u. apply_update u q) q us) i = Some j' \<and> advances j j'"
  using assms
proof (induction us arbitrary: q j)
  case (Cons u us)
  then obtain k where k: "get_job (apply_update u q) i = Some k" "advances j k"
    using apply_update_advances [of q i j u] by auto
  with Cons.IH [OF k(1)] Cons.prems(2) advances_trans [OF k(2)] show ?case by auto
qed auto

lemma apply_command_advances:
  assumes "get_job (app_queue a) i = Some j" and "\<forall>u \<in> set (command_updates c). jsu_job_id u = i \<longrightarrow> final (jsu_status u)"
  shows "\<exists>j'. get_job (app_queue (apply_command me simple utc now c a)) i = Some j' \<and> advances j j'"
proof (cases c)
  case (SubmitJob k cmd t img)
  with assms(1) show ?thesis by (auto simp: apply_submit_def get_job_add with_id_def)
next
  case (UpdateJobStatus k st b code t)
  with apply_updates_advance [OF assms(1), of "command_updates c"] assms(2) show ?thesis by simp
next
  case (BatchUpdateJobStatus us)
  with apply_updates_advance [OF assms(1), of us] assms(2) show ?thesis by simp
next
  case (AssignJob k w)
  with assms(1) show ?thesis
    by (auto simp: Let_def apply_assign_def get_job_updates advances_def less_eq_job_status_def)
next
  case (CancelJob k)
  show ?thesis
  proof (cases "get_job (app_queue a) k")
    case (Some l)
    with CancelJob assms(1) show ?thesis
      by (auto simp: apply_cancel_def get_job_cancel advances_def less_eq_job_status_def)
        (cases "j_status j"; simp)+
  qed (use CancelJob assms(1) in \<open>simp add: apply_cancel_def\<close>)
qed (use assms(1) in simp_all)

text \<open>A recorded result is that of an execution, so it is final.\<close>

lemma result_advances:
  assumes "get_job (nd_queue n) i = Some j" and "er_status r \<in> {Completed, Failed}"
  shows "\<exists>j'. get_job (nd_queue (fst (record_result utc k r n))) i = Some j' \<and> advances j j'"
  using assms below_final [of "j_status j" "er_status r"] by (auto simp: record_result_job advances_def final_def)

text \<open>The steps that leave the jobs alone.\<close>

lemma raft_steps_queue:
  "peer_step K C X p p' \<Longrightarrow> nd_queue (p_node p') = nd_queue (p_node p)"
  "loop_step K C p p' \<Longrightarrow> nd_queue (p_node p') = nd_queue (p_node p)"
  by (auto elim!: peer_step.cases loop_step.cases)

lemma heartbeat_queue: "nd_queue (fst (send_heartbeat connect now cached n)) = nd_queue n"
  by (simp add: send_heartbeat_def Let_def split: option.split)

lemma front_step_advances:
  assumes "front_step X p p'" and "get_job (nd_queue (p_node p)) i = Some j" and "i \<notin> (\<lambda>(t, k). j_id k) ` set (p_waiting p)"
  shows "get_job (nd_queue (p_node p')) i = Some j"
  using assms(1)
proof (cases rule: front_step.cases)
  case (submitted t k reply n)
  then have "i \<noteq> j_id k" using assms(3) by force
  with submitted assms(2) show ?thesis by (auto simp: grpc_submit.finish_get dash_submit.finish_get)
qed (use assms(2) in \<open>simp_all add: drain_start_def\<close>)

lemma work_step_advances:
  assumes "work_step X simple p p'" and "get_job (nd_queue (p_node p)) i = Some j"
  shows "\<exists>j'. get_job (nd_queue (p_node p')) i = Some j' \<and> advances j j'"
  using assms(1)
proof (cases rule: work_step.cases)
  case (tick connect now n cached beat js)
  with heartbeat_queue [of connect now "p_cached p" "(p_node p)\<lparr>nd_worker_notify := False\<rparr>"] assms(2) show ?thesis by simp
next
  case (result k cmd img js us utc docker n vs)
  have "p_node p' = fst (record_result utc k (fst (execute docker simple (sandbox (rn_config (p_raft p))) k cmd img)) (p_node p))"
    by (simp add: result)
  then show ?thesis using result_advances [OF assms(2) execute_terminal] by simp
qed (use assms(2) in simp_all)

lemma sched_step_advances:
  assumes "sched_step K C simple p p'" and wf: "queue_wf (nd_queue (p_node p))"
    and job: "get_job (nd_queue (p_node p)) i = Some j" "get_job (nd_queue (p_node p')) i = Some j'"
    and "\<forall>sn. p_sched p \<noteq> Rebuilding sn"
    and "\<forall>u \<in> set (next_updates p). jsu_job_id u = i \<longrightarrow> final (jsu_status u)"
  shows "advances j j'"
  using assms(1)
proof (cases rule: sched_step.cases)
  case (applied e es wake a utc now)
  have "\<exists>j'. get_job (app_queue a) i = Some j' \<and> advances j j'"
    unfolding applied(3) using job(1) assms(6)
    by (intro apply_command_advances) (simp_all add: node_app_def next_updates_def applied(2))
  with job(2) show ?thesis by (simp add: applied(1))
next
  case (cleanup utc)
  with job get_job_cleanup [OF wf] show ?thesis by (auto simp: on_cleanup_def split: if_splits)
next
  case (assign now k w)
  with next_assignment_some(1) [OF wf assign(3)] job show ?thesis
    by (auto simp: get_job_updates advances_def less_eq_job_status_def split: if_splits)
qed (use job assms(5) in \<open>simp_all split: if_splits\<close>)


definition running_job :: job where
  "running_job = (with_id 7 ''ls'' 5)\<lparr>j_status := Running, j_assigned_worker := Some 1\<rparr>"

definition sample_process :: "raft_state \<Rightarrow> job_queue \<Rightarrow> sched_phase \<Rightarrow> unit process" where
  "sample_process s q phase = (process_start (\<lambda>_. Dial_Failed) False 150 0 (sample_node s q))\<lparr>p_sched := phase\<rparr>"

lemma sample_process_sel [simp]:
  "p_sched (sample_process s q phase) = phase" "p_waiting (sample_process s q phase) = []"
  "nd_queue (p_node (sample_process s q phase)) = q" "rn_state (p_raft (sample_process s q phase)) = s"
  by (simp_all add: sample_process_def process_start_sel)
    (simp_all add: process_start_def worker_start_def Let_def restore_snapshot_for_scheduler_def split: option.split)


section \<open>Turns that nothing interrupts\<close>

text \<open>What applying a command does to the flags and the kill list does not depend on them.\<close>

lemma apply_command_flags:
  "apply_command me simple utc now c a =
     (let b = apply_command me simple utc now c (a\<lparr>wake_assigner := False, wake_worker := False, kills := []\<rparr>) in
      b\<lparr>wake_assigner := wake_assigner a \<or> wake_assigner b, wake_worker := wake_worker a \<or> wake_worker b,
        kills := kills a @ kills b\<rparr>)"
  by (cases c) (auto simp: Let_def apply_assign_def apply_cancel_def split: option.split)

text \<open>The node after a part of the entries, and the process with the others still to be applied.\<close>

definition node_after :: "app \<Rightarrow> 'db node \<Rightarrow> 'db node" where
  "node_after a n = n\<lparr>nd_queue := app_queue a, nd_assigner := app_assigner a, nd_worker_notify := nd_worker_notify n \<or> wake_worker a\<rparr>"

definition mid_turn :: "log_entry list \<Rightarrow> app \<Rightarrow> 'db process \<Rightarrow> 'db process" where
  "mid_turn es a p = p\<lparr>p_node := node_after a (p_node p), p_sched := Applying es (wake_assigner a), p_kills := p_kills p @ kills a\<rparr>"

lemma mid_turn_step:
  "sched_step K C simple (mid_turn (e # es) a p)
     (mid_turn es (apply_command (nc_node_id (rn_config (p_raft p))) simple utc now (le_command e) a) p)"
proof -
  let ?me = "nc_node_id (rn_config (p_raft p))"
  let ?b = "apply_command ?me simple utc now (le_command e) (a\<lparr>wake_assigner := False, wake_worker := False, kills := []\<rparr>)"
  have app: "node_app (p_node (mid_turn (e # es) a p)) = a\<lparr>wake_assigner := False, wake_worker := False, kills := []\<rparr>"
    by (simp add: mid_turn_def node_after_def node_app_def)
  have "sched_step K C simple (mid_turn (e # es) a p)
      ((mid_turn (e # es) a p)\<lparr>p_node := (p_node (mid_turn (e # es) a p))\<lparr>nd_queue := app_queue ?b, nd_assigner := app_assigner ?b,
          nd_worker_notify := nd_worker_notify (p_node (mid_turn (e # es) a p)) \<or> wake_worker ?b\<rparr>,
        p_sched := Applying es (wake_assigner a \<or> wake_assigner ?b),
        p_kills := p_kills (mid_turn (e # es) a p) @ kills ?b\<rparr>)"
    by (rule sched_step.applied [where utc = utc and now = now]) (simp_all add: app [symmetric] mid_turn_def node_after_def)
  then show ?thesis
    by (subst apply_command_flags) (simp add: mid_turn_def node_after_def Let_def disj_assoc)
qed

lemma mid_turn_run:
  "(sched_step K C simple)\<^sup>*\<^sup>* (mid_turn es a p)
     (mid_turn [] (apply_entries (nc_node_id (rn_config (p_raft p))) simple utc now es a) p)"
proof (induction es arbitrary: a)
  case (Cons e es)
  from converse_rtranclp_into_rtranclp [OF mid_turn_step Cons.IH] show ?case by (simp add: apply_entries_def)
qed (simp add: apply_entries_def)

lemma get_committed_applied:
  "get_committed_entries r = (r', es) \<Longrightarrow> last_applied (rn_state r') = max (last_applied (rn_state r)) (commit_index (rn_state r))"
  by (auto simp: get_committed_entries_def committed_loop_result)

text \<open>The parts of a compaction, one after the other.\<close>

lemma compaction_runs:
  assumes "maybe_compact_log K C ((p_node p)\<lparr>nd_job_notify := nd_job_notify (p_node p) \<or> wake\<rparr>) = Some n"
    and "p_sched p = Applying [] wake" and "last_applied (rn_state (p_raft p)) < u64_max"
  shows "(sched_step K C simple)\<^sup>*\<^sup>* p (p\<lparr>p_node := n, p_sched := SchedIdle\<rparr>)"
proof -
  let ?n = "(p_node p)\<lparr>nd_job_notify := nd_job_notify (p_node p) \<or> wake\<rparr>"
  note check = sched_step.all_applied [OF assms(2,3) refl, of K C simple]
  show ?thesis
  proof (cases "compaction_point (rn_state (p_raft p))")
    case None
    with check assms(1) show ?thesis by (auto simp: maybe_compact_log_def)
  next
    case (Some it)
    obtain idx trm where it: "it = (idx, trm)" by force
    let ?sn = "build_snapshot idx trm (nd_queue (p_node p)) (nd_assigner (p_node p))"
    let ?p1 = "p\<lparr>p_node := ?n, p_sched := Compacting idx trm\<rparr>"
    let ?p2 = "?p1\<lparr>p_sched := Snapshotting ?sn\<rparr>"
    obtain r where r: "compact_with K C ?sn (p_raft p) = Some r" "n = ?n\<lparr>nd_raft := r\<rparr>"
      using assms(1) Some it by (auto simp: maybe_compact_log_def)
    have "sched_step K C simple p ?p1" using check Some it by simp
    moreover have "sched_step K C simple ?p1 ?p2" using sched_step.snapshot [of ?p1 idx trm] by simp
    moreover have "sched_step K C simple ?p2 ((set_raft r ?p2)\<lparr>p_sched := SchedIdle\<rparr>)"
      by (rule sched_step.compact [where sn = ?sn]) (simp_all add: r)
    moreover have "(set_raft r ?p2)\<lparr>p_sched := SchedIdle\<rparr> = p\<lparr>p_node := n, p_sched := SchedIdle\<rparr>"
      by (simp add: set_raft_def r(2))
    ultimately show ?thesis by (auto intro: rtranclp.rtrancl_into_rtrancl)
  qed
qed

lemma turn_runs:
  assumes "on_commit K C simple utc now (p_node p) = Some (n', ks)" and "p_sched p = SchedIdle"
    and "last_applied (rn_state (p_raft p)) < u64_max" and "commit_index (rn_state (p_raft p)) < u64_max"
  shows "(sched_step K C simple)\<^sup>*\<^sup>* p (p\<lparr>p_node := n', p_kills := p_kills p @ ks\<rparr>)"
proof (cases "pending_snapshot (p_raft p)")
  case (Some sn)
  let ?r = "(p_raft p)\<lparr>pending_snapshot := None\<rparr>"
  obtain q a where qa: "rebuild_from_snapshot now sn (nd_queue (p_node p), nd_assigner (p_node p)) = (q, a)" by force
  let ?p1 = "(set_raft ?r p)\<lparr>p_sched := Rebuilding sn\<rparr>"
  let ?p2 = "?p1\<lparr>p_node := (p_node ?p1)\<lparr>nd_queue := q, nd_assigner := a\<rparr>, p_sched := SchedIdle\<rparr>"
  have "sched_step K C simple p ?p1"
    by (rule sched_step.take [OF assms(2)]) (simp add: take_pending_snapshot_def Some)
  moreover have "sched_step K C simple ?p1 ?p2"
    by (rule sched_step.rebuild [of _ sn now]) (simp_all add: qa)
  moreover have "?p2 = p\<lparr>p_node := n', p_kills := p_kills p @ ks\<rparr>"
    using assms(1) by (intro process.equality) (auto simp: on_commit_def take_pending_snapshot_def Some qa assms(2))
  ultimately show ?thesis by (simp add: converse_rtranclp_into_rtranclp)
next
  case None
  let ?r = "(p_raft p)\<lparr>pending_snapshot := None\<rparr>"
  obtain r es where g: "get_committed_entries ?r = (r, es)" by force
  let ?p1 = "(set_raft r p)\<lparr>p_sched := Applying es False\<rparr>"
  let ?a = "apply_entries (nc_node_id (rn_config r)) simple utc now es (node_app (p_node p))"
  let ?p2 = "mid_turn [] ?a (set_raft r p)"
  have cfg: "rn_config r = rn_config (p_raft p)" using g by (auto simp: get_committed_entries_def split: prod.splits)
  have "sched_step K C simple p ?p1"
    by (rule sched_step.fetch [OF assms(2) _ g]) (simp add: take_pending_snapshot_def None)
  moreover have "?p1 = mid_turn es (node_app (p_node p)) (set_raft r p)"
    by (rule process.equality) (simp_all add: mid_turn_def node_after_def node_app_def)
  moreover have "(sched_step K C simple)\<^sup>*\<^sup>* (mid_turn es (node_app (p_node p)) (set_raft r p)) ?p2"
    using mid_turn_run [of K C simple es "node_app (p_node p)" "set_raft r p" utc now] by simp
  moreover have "(sched_step K C simple)\<^sup>*\<^sup>* ?p2 (p\<lparr>p_node := n', p_kills := p_kills p @ ks\<rparr>)"
  proof -
    let ?n = "(p_node ?p2)\<lparr>nd_job_notify := nd_job_notify (p_node ?p2) \<or> wake_assigner ?a\<rparr>"
    have n: "?n = (p_node p)\<lparr>nd_raft := r, nd_queue := app_queue ?a, nd_assigner := app_assigner ?a,
        nd_job_notify := nd_job_notify (p_node p) \<or> wake_assigner ?a,
        nd_worker_notify := nd_worker_notify (p_node p) \<or> wake_worker ?a\<rparr>"
      by (simp add: mid_turn_def node_after_def)
    have "maybe_compact_log K C ?n = Some n'" and ks: "ks = kills ?a"
      using assms(1) cfg unfolding n
      by (auto simp: on_commit_def take_pending_snapshot_def None g Let_def node_app_def)
    then have "(sched_step K C simple)\<^sup>*\<^sup>* ?p2 (?p2\<lparr>p_node := n', p_sched := SchedIdle\<rparr>)"
      using get_committed_applied [OF g] assms(3,4)
      by (intro compaction_runs [where wake = "wake_assigner ?a"]) (simp_all add: mid_turn_def node_after_def)
    moreover have "?p2\<lparr>p_node := n', p_sched := SchedIdle\<rparr> = p\<lparr>p_node := n', p_kills := p_kills p @ ks\<rparr>"
      by (rule process.equality) (simp_all add: mid_turn_def ks assms(2))
    ultimately show ?thesis by simp
  qed
  ultimately show ?thesis by (auto intro: converse_rtranclp_into_rtranclp rtranclp_trans)
qed



section \<open>A submission that ends late\<close>

lemma committed_submission:
  assumes "pending_snapshot (nd_raft n) = None" and "commit_index (rn_state (nd_raft n)) = Suc (last_applied (rn_state (nd_raft n)))"
    and "get_entry (rn_state (nd_raft n)) (commit_index (rn_state (nd_raft n))) = Some e" and "le_command e = submit_command j"
    and "length (rlog (rn_state (nd_raft n))) < LOG_COMPACTION_THRESHOLD"
  shows "\<exists>n' ks. on_commit K C simple utc now n = Some (n', ks) \<and> nd_queue n' = apply_submit (j_id j) (j_command j) (j_created_at j) (j_image j) (nd_queue n) \<and>
    nd_assigner n' = nd_assigner n \<and> nd_job_notify n' \<and> role (rn_state (nd_raft n')) = role (rn_state (nd_raft n))"
  using assms
  by (simp add: on_commit_def take_pending_snapshot_def get_committed_entries_def committed_loop_result List.map_filter_def
      apply_entries_def submit_command_def maybe_compact_log_def compaction_point_def Let_def)

text \<open>C17: A submission whose handler resumes late takes its job back. The handler adds the job to the queue when it has the
  answer of the Raft loop, whatever the queue holds by then. From every state of a leader in which the job's entry is
  the next to be applied and its handler has its answer, the scheduler can apply the entry and assign the job, and the
  handler then puts the job back to pending, unassigned.\<close>

theorem late_submission_resets_job:
  assumes "p_sched p = SchedIdle" and "is_leader (p_raft p)" and "pending_snapshot (p_raft p) = None"
    and "commit_index (rn_state (p_raft p)) = Suc (last_applied (rn_state (p_raft p)))" and "commit_index (rn_state (p_raft p)) < u64_max"
    and "get_entry (rn_state (p_raft p)) (commit_index (rn_state (p_raft p))) = Some e" and "le_command e = submit_command j"
    and "length (rlog (rn_state (p_raft p))) < LOG_COMPACTION_THRESHOLD"
    and "(t, j) \<in> set (p_waiting p)" and "(t, Inr idx) \<in> set (p_replies p)" and "j_status j = Pending"
    and "next_assignment now (apply_submit (j_id j) (j_command j) (j_created_at j) (j_image j) (nd_queue (p_node p))) (nd_assigner (p_node p)) = Some (j_id j, w)"
    and "queue_wf (nd_queue (p_node p))"
    and "\<not> is_full (fst (assign_job (j_id j) w (apply_submit (j_id j) (j_command j) (j_created_at j) (j_image j) (nd_queue (p_node p)))))"
  shows "\<exists>p1 p2. (process_step K C X simple)\<^sup>*\<^sup>* p p1 \<and>
    (\<exists>j1. get_job (nd_queue (p_node p1)) (j_id j) = Some j1 \<and> j_status j1 = Running \<and> j_assigned_worker j1 = Some w) \<and>
    process_step K C X simple p1 p2 \<and> get_job (nd_queue (p_node p2)) (j_id j) = Some j"
proof -
  let ?S = "process_step K C X simple"
  let ?q = "apply_submit (j_id j) (j_command j) (j_created_at j) (j_image j) (nd_queue (p_node p))"
  obtain n ks where n: "on_commit K C simple 0 now (p_node p) = Some (n, ks)" "nd_queue n = ?q" "nd_assigner n = nd_assigner (p_node p)"
    "nd_job_notify n" "is_leader (nd_raft n)"
    using committed_submission [OF assms(3,4,6-8), of K C simple 0 now] assms(2) by (auto simp: is_leader_def)
  let ?p1 = "p\<lparr>p_node := n, p_kills := p_kills p @ ks\<rparr>"
  let ?p2 = "?p1\<lparr>p_node := n\<lparr>nd_job_notify := False\<rparr>, p_sched := Assigning\<rparr>"
  let ?p3 = "?p2\<lparr>p_node := (p_node ?p2)\<lparr>nd_queue := fst (assign_job (j_id j) w ?q), nd_assigner := note_running w (j_id j) (nd_assigner n)\<rparr>,
    p_sched := SendingAssignment (AssignJob (j_id j) w)\<rparr>"
  let ?p4 = "?p3\<lparr>p_node := grpc_finish X j (Replied (Inr idx)) (p_node ?p3), p_waiting := remove1 (t, j) (p_waiting ?p3)\<rparr>"
  have "(sched_step K C simple)\<^sup>*\<^sup>* p ?p1" using turn_runs [OF n(1) assms(1)] assms(4,5) by simp
  then have "?S\<^sup>*\<^sup>* p ?p1" by (rule rtranclp_mono [THEN predicate2D, rotated]) (auto intro: process_step.sched)
  also have "?S\<^sup>*\<^sup>* ?p1 ?p2"
    using process_step.sched [OF sched_step.notified [of ?p1 K C simple]] n(4,5) assms(1) by (intro r_into_rtranclp) simp
  also have "?S\<^sup>*\<^sup>* ?p2 ?p3"
    using process_step.sched [OF sched_step.assign [of ?p2 now "j_id j" w K C simple]] assms(12) n(2,3) by (intro r_into_rtranclp) simp
  finally have run: "?S\<^sup>*\<^sup>* p ?p3" .
  have "get_job ?q (j_id j) \<noteq> None" using next_assignment_some(1) [OF _ assms(12)] apply_submit_wf [OF assms(13)] by fastforce
  then have "\<exists>j1. get_job (nd_queue (p_node ?p3)) (j_id j) = Some j1 \<and> j_status j1 = Running \<and> j_assigned_worker j1 = Some w"
    by (auto simp: get_job_updates)
  moreover have "?S ?p3 ?p4"
    by (rule process_step.front, rule front_step.submitted [where t = t and reply = "Replied (Inr idx)"]) (use assms(9,10) in auto)
  moreover have "get_job (nd_queue (p_node ?p4)) (j_id j) = Some j"
    using assms(14) by (simp add: grpc_submit.finish_ok get_job_add)
  ultimately show ?thesis using run by blast
qed

theorem late_submission_resets_job_witness:
  "let j = new_job 7 5 ''ls'' None;
       p = (sample_process ((noop_state 1 1 [submitted])\<lparr>role := Leader\<rparr>) (with_capacity 10) SchedIdle)
         \<lparr>p_waiting := [(0, j)], p_replies := [(0, Inr 1)]\<rparr>
   in \<exists>p1 p2. (process_step no_kv serde_unary ext_unary (\<lambda>i. []))\<^sup>*\<^sup>* p p1 \<and>
     map_option j_status (get_job (nd_queue (p_node p1)) 7) = Some Running \<and>
     process_step no_kv serde_unary ext_unary (\<lambda>i. []) p1 p2 \<and>
     map_option j_status (get_job (nd_queue (p_node p2)) 7) = Some Pending"
proof -
  let ?s = "(noop_state 1 1 [submitted])\<lparr>role := Leader\<rparr>" and ?j = "new_job 7 5 ''ls'' None"
  let ?p = "(sample_process ?s (with_capacity 10) SchedIdle)\<lparr>p_waiting := [(0, ?j)], p_replies := [(0, Inr 1)]\<rparr>"
  have j: "?j = with_id 7 ''ls'' 5" by (simp add: new_job_def job_new_def with_id_def nonempty_image_def)
  have s: "commit_index ?s = 1" "last_applied ?s = 0" "rlog ?s = [submitted]" "snapshot ?s = None" "log_offset ?s = 0"
    by (simp_all add: noop_state_def raft_new_def)
  let ?q = "\<lparr>jobs = [(7, with_id 7 ''ls'' 5)], max_jobs = 10\<rparr>"
  have q: "apply_submit (j_id ?j) (j_command ?j) (j_created_at ?j) (j_image ?j) (nd_queue (p_node ?p)) = ?q"
    by (simp add: j apply_submit_def add_job_def with_id_def with_capacity_def active_job_count_def hm_count_def hm_values_def
        hm_empty_def hm_insert_def get_job_def hm_get_def)
  have a: "nd_assigner (p_node ?p) = register_worker 0 1 (assigner_new 5000)"
    by (simp add: sample_process_def process_start_sel restore_snapshot_for_scheduler_def noop_state_def raft_new_def)
  have "next_assignment 0 ?q (nd_assigner (p_node ?p)) = Some (7, 1)"
    unfolding a by (simp add: next_assignment_def pending_jobs_def available_workers_def register_worker_def assigner_new_def
        worker_new_def is_alive_def with_id_def hm_values_def hm_insert_def hm_empty_def)
  then have next': "next_assignment 0 (apply_submit (j_id ?j) (j_command ?j) (j_created_at ?j) (j_image ?j) (nd_queue (p_node ?p)))
      (nd_assigner (p_node ?p)) = Some (j_id ?j, 1)" unfolding q by (simp add: j with_id_def)
  have full: "\<not> is_full (fst (assign_job (j_id ?j) 1 (apply_submit (j_id ?j) (j_command ?j) (j_created_at ?j) (j_image ?j) (nd_queue (p_node ?p)))))"
    unfolding q by (simp add: j with_id_def assign_job_def update_job_def is_full_def active_job_count_def hm_count_def hm_values_def
        hm_modify_def hm_get_def)
  have "\<exists>p1 p2. (process_step no_kv serde_unary ext_unary (\<lambda>i. []))\<^sup>*\<^sup>* ?p p1 \<and>
      (\<exists>j1. get_job (nd_queue (p_node p1)) (j_id ?j) = Some j1 \<and> j_status j1 = Running \<and> j_assigned_worker j1 = Some 1) \<and>
      process_step no_kv serde_unary ext_unary (\<lambda>i. []) p1 p2 \<and> get_job (nd_queue (p_node p2)) (j_id ?j) = Some ?j"
  proof (rule late_submission_resets_job [OF _ _ _ _ _ _ _ _ _ _ _ next' _ full])
    show "pending_snapshot (p_raft ?p) = None"
      by (simp add: sample_process_def process_start_sel connect_pending restore_snapshot_for_scheduler_def noop_state_def raft_new_def)
    show "get_entry (rn_state (p_raft ?p)) (commit_index (rn_state (p_raft ?p))) = Some submitted" using s by (simp add: get_entry_def)
  qed (use s in \<open>simp_all add: is_leader_def u64_max_def submitted_def submit_command_def j with_id_def LOG_COMPACTION_THRESHOLD_def queue_wf_new\<close>)
  then show ?thesis by (fastforce simp: Let_def j with_id_def)
qed

section \<open>A run of the node\<close>

lemma node_new_inv:
  assumes K: "environment K C" and "\<forall>dir. data_dir config = Some dir \<longrightarrow> (\<forall>k. contents K (open_db dir) k = None)"
    and n: "node_new K C open_db now config = Some n"
  shows "node_inv K C (nd_raft n)"
proof (cases "data_dir config")
  case None
  have "recoverable K C (nd_raft n)" "rn_state (nd_raft n) = raft_new"
    using node_new_sel(4) [OF n None] by (simp_all add: recoverable_def new_with_storage_def restored_state_def)
  then show ?thesis by (simp add: node_inv_def log_wf_new) (simp add: raft_new_def)
next
  case (Some dir)
  with assms(2) have "node_inv K C (new_with_storage config (Some (open_db dir)) None now)" by (intro new_node_inv) simp
  then show ?thesis
    using restart_inv(1) [OF _ _ _ _ node_new_sel(3) [OF n Some]] K by (simp add: environment_def new_with_storage_def)
qed

lemma started_kept:
  assumes "kv_laws K" and "serde_laws C" and "kv_available K C"
    and "\<forall>dir. data_dir config = Some dir \<longrightarrow> (\<forall>k. contents K (open_db dir) k = None)"
    and "node_new K C open_db now config = Some n"
  shows "kept K C (process_start dial has_tls ms now n)"
proof -
  have K: "environment K C" using assms(1-3) by (simp add: environment_def)
  from start_inv [OF node_new_inv [OF K assms(4,5)] node_new_sel(1,2) [OF assms(5)]] K show ?thesis by (simp add: kept_def)
qed


lemma fresh_node_starts:
  assumes "kv_laws K" and "kv_available K C" and "\<And>k. contents K db k = None" and "data_dir config = Some dir"
  shows "\<exists>n. node_new K C (\<lambda>_. db) now config = Some n \<and> rn_storage (nd_raft n) = Some db"
proof -
  have "recoverable K C (new_with_storage config (Some db) None now)"
    using new_node_inv [OF assms(3)] by (simp add: node_inv_def)
  from restart_recovers [OF assms(1,2) this, of db config now]
  obtain r where r: "restart K C config now db = Some r" by (auto simp: new_with_storage_def)
  moreover have "rn_storage r = Some db" using r by (auto simp: restart_def new_with_storage_def bind_eq_Some_conv)
  ultimately show ?thesis using assms(4) by (simp add: node_new_def)
qed


section \<open>The Raft part of a step\<close>

text \<open>Two nodes that differ at most in connections, timers, notifications and the pending snapshot.\<close>

definition same_raft :: "'db raft_node \<Rightarrow> 'db raft_node \<Rightarrow> bool" where
  "same_raft r r' \<longleftrightarrow> rn_state r' = rn_state r \<and> rn_storage r' = rn_storage r \<and> rn_config r' = rn_config r"

definition raft_moves :: "'db kv \<Rightarrow> serde \<Rightarrow> ext \<Rightarrow> 'db raft_node \<Rightarrow> 'db raft_node \<Rightarrow> bool" where
  "raft_moves K C X r r' \<longleftrightarrow> same_raft r r' \<or> (\<exists>r1. same_raft r r1 \<and> node_step K C X r1 r')"

lemma same_raft_refl [simp]: "same_raft r r"
  by (simp add: same_raft_def)

lemma raft_moves_step: "node_step K C X r r' \<Longrightarrow> raft_moves K C X r r'"
  by (auto simp: raft_moves_def)

lemma count_answer_moves:
  assumes "count_answer K C trm now (q, answer) votes r = Some (r', res)" and "\<forall>v. answer = Some v \<longrightarrow> vres_term v \<le> u64_max"
  shows "raft_moves K C X r r'"
proof (cases "answer = None \<or> (\<exists>v. answer = Some v \<and> \<not> trm < vres_term v)")
  case True
  with assms(1) have "same_raft r r'" by (auto simp: count_answer_def same_raft_def Let_def)
  then show ?thesis by (simp add: raft_moves_def)
next
  case False
  then obtain v where v: "answer = Some v" "trm < vres_term v" by auto
  let ?ar = "\<lparr>aer_term = vres_term v, aer_success = False, aer_match_index = 0\<rparr>"
  from assms(1) v have "heartbeat_answer K C now q trm ?ar r = Some r'"
    by (auto simp: count_answer_def heartbeat_answer_def Let_def)
  from node_step.heartbeat_ack [OF this] assms(2) v(1) show ?thesis by (simp add: raft_moves_step)
qed

lemma peer_step_moves:
  assumes "peer_step K C X p p'"
  shows "raft_moves K C X (p_raft p) (p_raft p')"
  using assms
proof (cases rule: peer_step.cases)
  case (timeout_now treq r vreq)
  from node_step.campaign [OF timeout_now(3)] show ?thesis by (simp add: timeout_now(1) raft_moves_step)
next
  case (connect dial has_tls)
  then show ?thesis by (simp add: raft_moves_def same_raft_def)
qed (auto intro!: raft_moves_step intro: node_step.intros)

lemma loop_step_moves:
  assumes "loop_step K C p p'" and "transfer_term (p_loop p) \<le> u64_max"
  shows "raft_moves K C X (p_raft p) (p_raft p')"
  using assms(1)
proof (cases rule: loop_step.cases)
  case (handed_over q trm sent r res)
  with assms(2) node_step.transfer [OF handed_over(3)] show ?thesis by (simp add: transfer_term_def raft_moves_step)
next
  case (counted el q qs answer now r votes)
  with count_answer_moves [OF counted(5,4)] show ?thesis by simp
next
  case (outvoted el q qs answer now r)
  with count_answer_moves [OF outvoted(5,4)] show ?thesis by simp
next
  case (heard t rest E ms)
  then show ?thesis by (simp add: raft_moves_def same_raft_def)
qed (auto intro!: raft_moves_step intro: node_step.intros simp: raft_moves_def same_raft_def)

lemma sched_step_moves:
  assumes "sched_step K C simple p p'" and "compaction_ok K (p_sched p) (p_raft p)"
  shows "raft_moves K C X (p_raft p) (p_raft p')"
  using assms(1)
proof (cases rule: sched_step.cases)
  case (fetch r r' es)
  have "same_raft (p_raft p) r" using fetch(3) by (auto simp: take_pending_snapshot_def same_raft_def)
  then show ?thesis using node_step.deliver [OF fetch(4)] by (auto simp: fetch(1) raft_moves_def)
next
  case (compact sn r)
  with assms(2) have "last_included_index sn < u64_max" "in_use K (p_raft p)" by (simp_all add: compaction_ok_def)
  from node_step.compact [OF compact(3) this] show ?thesis by (simp add: compact(1) raft_moves_step)
qed (auto simp: raft_moves_def same_raft_def take_pending_snapshot_def on_cleanup_def)

lemma work_step_moves:
  assumes "work_step X simple p p'"
  shows "p_raft p' = p_raft p"
  using assms
proof (cases rule: work_step.cases)
  case (tick connect now n cached beat js)
  then show ?thesis by (auto simp: send_heartbeat_def Let_def split: if_splits option.splits)
next
  case (result k cmd img js us utc docker n vs)
  then have "p_node p' = fst (record_result utc k (fst (execute docker simple (sandbox (rn_config (p_raft p))) k cmd img)) (p_node p))"
    by simp
  then show ?thesis by (simp add: record_result_frame)
qed simp_all

lemma front_step_moves: "front_step X p p' \<Longrightarrow> p_raft p' = p_raft p"
  by (auto elim!: front_step.cases simp: drain_start_def finish_keeps)



section \<open>Stopping\<close>

text \<open>C18: A shutdown loses results of the leader. The signal stops the Raft loop as soon as it is idle, while the worker
  is given time to finish the job it executes; what the worker then reports finds the channel closed. From every
  state in which a leader's worker executes a job there is a run that ends with the worker stopped and the job
  completed in the leader's own table, and with neither the log nor the channel holding the result.\<close>

theorem shutdown_loses_result:
  assumes "p_loop p = LoopIdle" and "is_leader (p_raft p)" and "p_work p = Working [(i, cmd, img)] []"
    and "get_job (nd_queue (p_node p)) i = Some j" and "j_status j \<noteq> Cancelled"
  shows "\<exists>p'. (process_step K C X simple)\<^sup>*\<^sup>* p p' \<and> p_work p' = WorkStopped \<and> p_loop p' = LoopStopped \<and>
    map_option j_status (get_job (nd_queue (p_node p')) i) = Some Completed \<and> p_inbox p' = [] \<and> p_raft p' = p_raft p"
proof -
  let ?docker = "\<lambda>_. Finished \<lparr>pr_stdout = [], pr_stderr = [], pr_code = Some 0\<rparr>"
  let ?res = "fst (execute ?docker simple (sandbox (rn_config (p_raft p))) i cmd img)"
  obtain n us where n: "record_result 0 i ?res (p_node p) = (n, us)" by force
  have st: "er_status ?res = Completed" by (simp add: execute_completed_iff)
  have us: "us \<noteq> []" using n assms(4,5) by (auto simp: record_result_def Let_def)
  have raft: "nd_raft n = p_raft p" using record_result_frame [of 0 i ?res "p_node p"] n by simp
  have job: "map_option j_status (get_job (nd_queue n) i) = Some Completed"
    using record_result_job [of 0 i ?res "p_node p" i] n assms(4,5) st by simp
  let ?p1 = "p\<lparr>p_shutdown := True\<rparr>"
  let ?p2 = "?p1\<lparr>p_loop := LoopStopped, p_inbox := []\<rparr>"
  let ?p3 = "?p2\<lparr>p_node := n, p_work := Working [] ([] @ us)\<rparr>"
  let ?p4 = "?p3\<lparr>p_work := Reporting (updates_command us)\<rparr>"
  let ?p5 = "?p4\<lparr>p_work := WorkIdle\<rparr>"
  let ?p6 = "?p5\<lparr>p_work := WorkStopped\<rparr>"
  have f: "flush_updates X (p_cached p) us n = Some (Propose (updates_command us))"
    using us assms(2) raft by (simp add: flush_updates_def)
  let ?S = "process_step K C X simple"
  have "?S p ?p1" using process_step.signal [of K C X simple p] by (simp add: shutdown_signalled_def)
  also have "?S\<^sup>*\<^sup>* ?p1 ?p2" using assms(1) by (intro r_into_rtranclp process_step.loop loop_step.stop) simp_all
  also have "?S\<^sup>*\<^sup>* ?p2 ?p3"
    using assms(3) n by (intro r_into_rtranclp process_step.work work_step.result [where docker = ?docker]) simp_all
  also have "?S\<^sup>*\<^sup>* ?p3 ?p4"
    using process_step.work [OF work_step.flush [of ?p3 us "Some (Propose (updates_command us))" X simple]] f
    by (intro r_into_rtranclp) simp
  also have "?S\<^sup>*\<^sup>* ?p4 ?p5" by (intro r_into_rtranclp process_step.work) (rule work_step.report_failed, simp_all)
  also have "?S\<^sup>*\<^sup>* ?p5 ?p6" by (intro r_into_rtranclp process_step.work) (rule work_step.stop, simp_all)
  finally have "?S\<^sup>*\<^sup>* p ?p6" .
  with job raft show ?thesis by (intro exI [of _ ?p6]) simp
qed

theorem shutdown_loses_result_witness:
  "let p = (sample_process (raft_new\<lparr>role := Leader\<rparr>) \<lparr>jobs = [(7, running_job)], max_jobs = 10\<rparr> SchedIdle)
       \<lparr>p_work := Working [(7, ''ls'', None)] []\<rparr>
   in \<exists>p'. (process_step no_kv serde_unary ext_unary (\<lambda>i. []))\<^sup>*\<^sup>* p p' \<and> p_work p' = WorkStopped \<and>
     map_option j_status (get_job (nd_queue (p_node p')) 7) = Some Completed \<and> p_inbox p' = [] \<and> rlog (rn_state (p_raft p')) = []"
proof -
  let ?p = "(sample_process (raft_new\<lparr>role := Leader\<rparr>) \<lparr>jobs = [(7, running_job)], max_jobs = 10\<rparr> SchedIdle)
       \<lparr>p_work := Working [(7, ''ls'', None)] []\<rparr>"
  have "p_loop ?p = LoopIdle" by (simp add: sample_process_def process_start_sel)
  moreover have "is_leader (p_raft ?p)" by (simp add: is_leader_def)
  moreover have "get_job (nd_queue (p_node ?p)) 7 = Some running_job" by (simp add: get_job_def hm_get_def)
  ultimately show ?thesis
    using shutdown_loses_result [of ?p 7 "''ls''" None running_job no_kv serde_unary ext_unary "\<lambda>i. []"]
    by (fastforce simp: Let_def running_job_def raft_new_def)
qed

section \<open>Connecting\<close>

text \<open>The task that retries connections ends as soon as dialling every peer succeeds once.\<close>

lemma connect_succeeds:
  assumes "\<forall>c \<in> set (nc_peers (rn_config r)). dial (peer_uri has_tls c) \<noteq> Dial_Failed"
  shows "all_peers_connected (connect_to_peers dial has_tls r)"
proof -
  have "\<forall>c \<in> set cs. dial (peer_uri has_tls c) \<noteq> Dial_Failed \<Longrightarrow>
      set (peers r) \<union> pc_node_id ` set cs \<subseteq> set (peers (foldl (connect_to_peer dial has_tls) r cs))" for cs
  proof (induction cs arbitrary: r)
    case (Cons c cs)
    have "set (peers r) \<union> {pc_node_id c} \<subseteq> set (peers (connect_to_peer dial has_tls r c))"
      using Cons.prems by (auto simp: connect_to_peer_def split: dial_result.split)
    with Cons.IH [of "connect_to_peer dial has_tls r c"] Cons.prems show ?case by auto
  qed simp
  from this [of "nc_peers (rn_config r)"] assms show ?thesis
    by (auto simp: all_peers_connected_def list_all_iff connect_to_peers_def [symmetric])
qed

text \<open>A node that starts before its peers finds them: the task that retries connections ends with every peer
  connected once there is a turn at which dialling each of them succeeds, whatever failed before, and nothing but the
  connections has changed.\<close>

theorem retry_connects:
  assumes "dial \<in> set dials" and "\<forall>c \<in> set (nc_peers (rn_config r)). dial (peer_uri has_tls c) \<noteq> Dial_Failed"
  shows "snd (connect_retry dials has_tls r) \<and> all_peers_connected (fst (connect_retry dials has_tls r)) \<and>
    rn_state (fst (connect_retry dials has_tls r)) = rn_state r"
  using assms
proof (induction dials arbitrary: r)
  case (Cons d dials)
  show ?case
  proof (cases "all_peers_connected r")
    case False
    show ?thesis
    proof (cases "d = dial")
      case True
      then have "all_peers_connected (connect_to_peers d has_tls r)" using connect_succeeds Cons.prems(2) by blast
      then show ?thesis using False by (cases dials) simp_all
    next
      case d: False
      with Cons.IH [of "connect_to_peers d has_tls r"] Cons.prems False show ?thesis by simp
    qed
  qed simp
qed simp

theorem retry_connects_witness:
  "let r = (new_with_storage (config_default\<lparr>nc_peers := [\<lparr>pc_node_id = 2, pc_addr = ''b:1''\<rparr>]\<rparr>) None None 0 :: unit raft_node)
   in \<not> snd (connect_retry [\<lambda>_. Dial_Failed] False r) \<and> snd (connect_retry [\<lambda>_. Dial_Failed, \<lambda>_. Dial_Both] False r)"
proof -
  let ?r = "new_with_storage (config_default\<lparr>nc_peers := [\<lparr>pc_node_id = 2, pc_addr = ''b:1''\<rparr>]\<rparr>) None None 0 :: unit raft_node"
  have "\<not> snd (connect_retry [\<lambda>_. Dial_Failed] False ?r)"
    by (simp add: all_peers_connected_def connect_to_peers_def connect_to_peer_def bare_defs)
  moreover have "snd (connect_retry [\<lambda>_. Dial_Failed, \<lambda>_. Dial_Both] False ?r)"
    by (rule conjunct1 [OF retry_connects [of "\<lambda>_. Dial_Both"]]) simp_all
  ultimately show ?thesis unfolding Let_def by blast
qed

end
