(* ===== verification/Shutdown.thy ===== *)
theory Shutdown
  imports Running_Node
begin

text \<open>
  The end of a node (\<open>Node::run\<close> of \<open>src/node.rs\<close> after its gRPC server has stopped): it waits for the worker, then for
  the Raft loop and the scheduler, each for a limited time, and returns. Its waits run beside the tasks of \<open>Node_Run\<close>.
\<close>

section \<open>Waiting for the tasks\<close>

definition WORKER_WAIT :: instant where
  "WORKER_WAIT = 30 * 1000 * ns_per_ms"

definition LOOPS_WAIT :: instant where
  "LOOPS_WAIT = 5 * 1000 * ns_per_ms"

text \<open>Where \<open>Node::run\<close> stands, with the deadline of its wait and the warnings it has logged.\<close>

datatype run_phase =
    Serving
  | AwaitWorker instant
  | AwaitLoops instant "string list"
  | Exited "string list" "string + unit"

definition loops_stopped :: "'db process \<Rightarrow> bool" where
  "loops_stopped p \<longleftrightarrow> p_loop p = LoopStopped \<and> p_sched p = SchedStopped"

text \<open>
  One poll: what it waits for is looked at before the clock. \<open>served\<close> is what the server has returned, if it has; an error
  of the server ends the node at once.
\<close>

fun run_turn :: "instant \<Rightarrow> (string + unit) option \<Rightarrow> 'db process \<Rightarrow> run_phase \<Rightarrow> run_phase" where
  "run_turn now served p Serving =
     (case served of
        None \<Rightarrow> Serving
      | Some (Inl e) \<Rightarrow> Exited [] (Inl e)
      | Some (Inr _) \<Rightarrow> AwaitWorker (now + WORKER_WAIT))"
| "run_turn now served p (AwaitWorker deadline) =
     (if p_work p = WorkStopped then AwaitLoops (now + LOOPS_WAIT) []
      else if deadline \<le> now then AwaitLoops (now + LOOPS_WAIT) [''Worker loop did not finish within 30s timeout'']
      else AwaitWorker deadline)"
| "run_turn now served p (AwaitLoops deadline ws) =
     (if loops_stopped p then Exited ws (Inr ())
      else if deadline \<le> now then Exited (ws @ [''Raft/scheduler did not finish within 5s timeout'']) (Inr ())
      else AwaitLoops deadline ws)"
| "run_turn now served p (Exited ws r) = Exited ws r"

text \<open>The steps of the tasks, a restart apart, and the life of a node: its tasks and its polls, until it has returned.\<close>

inductive task_step :: "'db kv \<Rightarrow> serde \<Rightarrow> ext \<Rightarrow> (uuid \<Rightarrow> string) \<Rightarrow> 'db process \<Rightarrow> 'db process \<Rightarrow> bool"
  for K C X simple where
  front: "front_step X p p' \<Longrightarrow> task_step K C X simple p p'"
| peer: "peer_step K C X p p' \<Longrightarrow> task_step K C X simple p p'"
| loop: "loop_step K C p p' \<Longrightarrow> task_step K C X simple p p'"
| sched: "sched_step K C simple p p' \<Longrightarrow> task_step K C X simple p p'"
| work: "work_step X simple p p' \<Longrightarrow> task_step K C X simple p p'"
| signal: "task_step K C X simple p (shutdown_signalled p)"

inductive life_step ::
  "'db kv \<Rightarrow> serde \<Rightarrow> ext \<Rightarrow> (uuid \<Rightarrow> string) \<Rightarrow> 'db process \<times> run_phase \<Rightarrow> 'db process \<times> run_phase \<Rightarrow> bool"
  for K C X simple where
  task: "\<lbrakk>task_step K C X simple p p'; \<forall>ws r. phase \<noteq> Exited ws r\<rbrakk> \<Longrightarrow> life_step K C X simple (p, phase) (p', phase)"
| poll: "served = Some (Inr ()) \<longrightarrow> p_shutdown p \<Longrightarrow> life_step K C X simple (p, phase) (p, run_turn now served p phase)"

lemma task_step_process: "task_step K C X simple p p' \<Longrightarrow> process_step K C X simple p p'"
  by (induction rule: task_step.induct) (auto intro: process_step.intros)

lemma task_step_inv: "task_step K C X simple p p' \<Longrightarrow> kept K C p \<Longrightarrow> kept K C p'"
  by (rule node_task.keeps [OF task_step_process])

section \<open>What has stopped stays stopped\<close>

text \<open>What a step of one task leaves of the others.\<close>

lemma front_step_frame:
  "front_step X p p' \<Longrightarrow> p_work p' = p_work p \<and> p_loop p' = p_loop p \<and> p_sched p' = p_sched p \<and> p_shutdown p' = p_shutdown p"
  by (auto elim!: front_step.cases)

lemma peer_step_frame:
  "peer_step K C X p p' \<Longrightarrow> p_work p' = p_work p \<and> p_loop p' = p_loop p \<and> p_sched p' = p_sched p \<and> p_shutdown p' = p_shutdown p"
  by (auto elim!: peer_step.cases)

lemma loop_step_frame:
  "loop_step K C p p' \<Longrightarrow> p_work p' = p_work p \<and> p_sched p' = p_sched p \<and> p_shutdown p' = p_shutdown p"
  by (auto elim!: loop_step.cases)

lemma sched_step_frame:
  "sched_step K C simple p p' \<Longrightarrow> p_work p' = p_work p \<and> p_loop p' = p_loop p \<and> p_shutdown p' = p_shutdown p"
  by (auto elim!: sched_step.cases)

lemma work_step_frame:
  "work_step X simple p p' \<Longrightarrow> p_loop p' = p_loop p \<and> p_sched p' = p_sched p \<and> p_shutdown p' = p_shutdown p"
  by (auto elim!: work_step.cases)

lemma loop_step_stopped:
  assumes "loop_step K C p p'" and inv: "process_inv K C p" and "p_loop p = LoopStopped"
  shows "p_loop p' = LoopStopped"
  using assms(1)
proof (cases rule: loop_step.cases)
  case (outvoted el q qs answer now r)
  with timer_election [OF inv outvoted(2)] assms(3) show ?thesis by auto
next
  case (ended el)
  with timer_election [OF inv ended(2)] assms(3) show ?thesis by auto
qed (use assms(3) in auto)

lemma stays_stopped:
  assumes "task_step K C X simple p p'" and "process_inv K C p"
  shows "p_work p = WorkStopped \<Longrightarrow> p_work p' = WorkStopped" and "loops_stopped p \<Longrightarrow> loops_stopped p'"
    and "p_shutdown p \<Longrightarrow> p_shutdown p'"
proof -
  have "(p_work p = WorkStopped \<longrightarrow> p_work p' = WorkStopped) \<and> (loops_stopped p \<longrightarrow> loops_stopped p') \<and> (p_shutdown p \<longrightarrow> p_shutdown p')"
    using assms(1)
  proof (cases rule: task_step.cases)
    case loop
    with loop_step_frame [OF loop] loop_step_stopped [OF loop assms(2)] show ?thesis by (simp add: loops_stopped_def)
  next
    case sched
    have "p_sched p \<noteq> SchedStopped" using sched by (auto elim: sched_step.cases)
    with sched_step_frame [OF sched] show ?thesis by (simp add: loops_stopped_def)
  next
    case work
    have "p_work p \<noteq> WorkStopped" using work by (auto elim: work_step.cases)
    with work_step_frame [OF work] show ?thesis by (simp add: loops_stopped_def)
  qed (auto dest!: front_step_frame peer_step_frame simp: loops_stopped_def shutdown_signalled_def)
  then show "p_work p = WorkStopped \<Longrightarrow> p_work p' = WorkStopped" and "loops_stopped p \<Longrightarrow> loops_stopped p'"
    and "p_shutdown p \<Longrightarrow> p_shutdown p'" by blast+
qed

text \<open>What \<open>Node::run\<close> knows where it stands.\<close>

fun phase_ok :: "'db process \<Rightarrow> run_phase \<Rightarrow> bool" where
  "phase_ok p Serving = True"
| "phase_ok p (AwaitWorker deadline) = p_shutdown p"
| "phase_ok p (AwaitLoops deadline ws) = (p_shutdown p \<and> (ws = [] \<longrightarrow> p_work p = WorkStopped))"
| "phase_ok p (Exited ws r) = (r = Inr () \<longrightarrow> p_shutdown p \<and> (ws = [] \<longrightarrow> p_work p = WorkStopped \<and> loops_stopped p))"

fun life_ok :: "'db kv \<Rightarrow> serde \<Rightarrow> 'db process \<times> run_phase \<Rightarrow> bool" where
  "life_ok K C (p, phase) = (kept K C p \<and> phase_ok p phase)"

lemma poll_ok:
  assumes "phase_ok p phase" and "served = Some (Inr ()) \<longrightarrow> p_shutdown p"
  shows "phase_ok p (run_turn now served p phase)"
  using assms by (cases phase) (auto split: option.split sum.split)

lemma life_step_keeps:
  assumes "life_step K C X simple l l'" and "life_ok K C l"
  shows "life_ok K C l'"
  using assms(1)
proof (cases rule: life_step.cases)
  case (task p p' phase)
  with assms(2) task_step_inv [OF task(3)] stays_stopped [OF task(3)] show ?thesis
    by (cases phase) (auto simp: kept_def)
next
  case (poll served p phase now)
  with assms(2) poll_ok [of p phase served now] show ?thesis by simp
qed

interpretation life_task: task "life_step K C X simple" "life_ok K C" for K C X simple
  by unfold_locales (rule life_step_keeps)

section \<open>Every task can stop\<close>

lemma one_step: "R p q \<Longrightarrow> P q \<Longrightarrow> \<exists>p'. R\<^sup>*\<^sup>* p p' \<and> P p'"
  by blast

lemma first_step: "R p q \<Longrightarrow> \<exists>p'. R\<^sup>*\<^sup>* q p' \<and> P p' \<Longrightarrow> \<exists>p'. R\<^sup>*\<^sup>* p p' \<and> P p'"
  by (blast intro: converse_rtranclp_into_rtranclp)

lemma last_step: "\<exists>q. R\<^sup>*\<^sup>* p q \<and> Q q \<Longrightarrow> (\<And>q. Q q \<Longrightarrow> \<exists>r. R\<^sup>*\<^sup>* q r \<and> P r) \<Longrightarrow> \<exists>r. R\<^sup>*\<^sup>* p r \<and> P r"
  by (blast intro: rtranclp_trans)

definition settles :: "'db process \<Rightarrow> 'db process \<Rightarrow> bool" where
  "settles p p' \<longleftrightarrow>
     p_work p' = p_work p \<and> p_sched p' = p_sched p \<and> p_shutdown p' = p_shutdown p \<and>
     last_applied (rn_state (p_raft p')) = last_applied (rn_state (p_raft p))"

lemma settles_trans: "settles p q \<Longrightarrow> settles q r \<Longrightarrow> settles p r"
  by (simp add: settles_def)

lemma finish_election_applied: "last_applied (rn_state (finish_election t v n)) = last_applied (rn_state n)"
  by (simp add: finish_election_def become_leader_def Let_def)

text \<open>An election ends even if no peer answers.\<close>

lemma election_can_end:
  assumes "el \<in> set (p_elections p)" and "el_by_timer el"
  shows "\<exists>p'. (loop_step K C)\<^sup>*\<^sup>* p p' \<and> p_loop p' = LoopIdle \<and> settles p p'"
  using assms
proof (induction "el_peers el" arbitrary: p el)
  case Nil
  show ?case
    by (rule one_step, rule loop_step.ended [OF Nil(2) Nil(1) [symmetric]])
      (simp add: Nil(3) settles_def finish_election_applied)
next
  case (Cons q qs)
  let ?el = "el\<lparr>el_peers := qs, el_votes := el_votes el\<rparr>"
  let ?p = "(set_raft (p_raft p) p)\<lparr>p_elections := ?el # remove1 el (p_elections p)\<rparr>"
  have step: "loop_step K C p ?p"
    by (rule loop_step.counted [OF Cons(3) Cons(2) [symmetric], where answer = None and now = 0]) (simp_all add: count_answer_def)
  have "\<exists>p'. (loop_step K C)\<^sup>*\<^sup>* ?p p' \<and> p_loop p' = LoopIdle \<and> settles ?p p'"
    using Cons(1) [of ?el ?p] Cons(4) by simp
  then have "\<exists>p'. (loop_step K C)\<^sup>*\<^sup>* ?p p' \<and> p_loop p' = LoopIdle \<and> settles p p'" by (simp add: settles_def)
  from first_step [OF step this] show ?case .
qed

lemma handover_can_end:
  assumes "p_loop p = LoopHandover q trm"
  shows "\<exists>p'. (loop_step K C)\<^sup>*\<^sup>* p p' \<and> p_loop p' = LoopIdle \<and> settles p p'"
  by (rule one_step, rule loop_step.handed_over [OF assms, where sent = "Inl []"]) (simp_all add: finish_transfer_def settles_def)

lemma transfer_can_end:
  assumes "p_loop p = LoopTransfer q trm leader_last deadline"
  shows "\<exists>p'. (loop_step K C)\<^sup>*\<^sup>* p p' \<and> p_loop p' = LoopIdle \<and> settles p p'"
proof (cases "caught_up q leader_last (p_raft p)")
  case True
  let ?p = "p\<lparr>p_loop := LoopHandover q trm\<rparr>"
  have step: "loop_step K C p ?p"
    by (rule loop_step.caught_up [OF assms, where now = 0]) (simp add: transfer_wait_def True)
  have "\<exists>p'. (loop_step K C)\<^sup>*\<^sup>* ?p p' \<and> p_loop p' = LoopIdle \<and> settles p p'"
    using handover_can_end [of ?p q trm K C] by (simp add: settles_def)
  from first_step [OF step this] show ?thesis .
next
  case False
  show ?thesis
    by (rule one_step, rule loop_step.give_up [OF assms, where now = deadline])
      (simp_all add: transfer_wait_def False settles_def)
qed

lemma loop_can_rest:
  assumes "process_inv K C p" and "p_loop p \<noteq> LoopStopped"
  shows "\<exists>p'. (loop_step K C)\<^sup>*\<^sup>* p p' \<and> p_loop p' = LoopIdle \<and> settles p p'"
proof (cases "p_loop p")
  case LoopElection
  with assms(1) have "filter el_by_timer (p_elections p) \<noteq> []" by (auto simp: process_inv_def)
  then obtain el where "el \<in> set (p_elections p)" "el_by_timer el" by (auto simp: filter_empty_conv)
  then show ?thesis by (rule election_can_end)
qed (use assms(2) handover_can_end transfer_can_end in \<open>auto simp: settles_def\<close>)

lemma loop_can_stop:
  assumes "process_inv K C p" and "p_shutdown p"
  shows "\<exists>p'. (loop_step K C)\<^sup>*\<^sup>* p p' \<and> p_loop p' = LoopStopped \<and> settles p p'"
proof (cases "p_loop p = LoopStopped")
  case False
  show ?thesis
  proof (rule last_step [OF loop_can_rest [OF assms(1) False]])
    fix q assume q: "p_loop q = LoopIdle \<and> settles p q"
    with assms(2) have "p_shutdown q" by (simp add: settles_def)
    show "\<exists>p'. (loop_step K C)\<^sup>*\<^sup>* q p' \<and> p_loop p' = LoopStopped \<and> settles p p'"
      by (rule one_step, rule loop_step.stop [OF _ \<open>p_shutdown q\<close>]) (use q in \<open>simp_all add: settles_def\<close>)
  qed
qed (auto simp: settles_def)

text \<open>The scheduler, once the Raft loop has stopped, so that what it sends is refused.\<close>

abbreviation sched_rests :: "'db process \<Rightarrow> 'db process \<Rightarrow> bool" where
  "sched_rests p p' \<equiv>
     p_sched p' = SchedIdle \<and> p_loop p' = p_loop p \<and> p_work p' = p_work p \<and> p_shutdown p' = p_shutdown p"

lemma compact_with_returns: "kv_available K C \<Longrightarrow> \<exists>n'. compact_with K C sn n = Some n'"
  using storage_step_returns [of K C _ "OpSnapshot sn' off" for sn' off]
  by (auto simp: compact_with_def with_storage_def Let_def split: option.split)

lemma snapshotting_can_end:
  assumes "kv_available K C" and "p_sched p = Snapshotting sn"
  shows "\<exists>p'. (sched_step K C simple)\<^sup>*\<^sup>* p p' \<and> sched_rests p p'"
proof -
  from compact_with_returns [OF assms(1)] obtain r where "compact_with K C sn (p_raft p) = Some r" by blast
  from sched_step.compact [OF assms(2) this] show ?thesis by (rule one_step) simp
qed

lemma compacting_can_end:
  assumes "kv_available K C" and "p_sched p = Compacting idx trm"
  shows "\<exists>p'. (sched_step K C simple)\<^sup>*\<^sup>* p p' \<and> sched_rests p p'"
proof (rule first_step, rule sched_step.snapshot [OF assms(2)])
  let ?sn = "build_snapshot idx trm (nd_queue (p_node p)) (nd_assigner (p_node p))"
  show "\<exists>p'. (sched_step K C simple)\<^sup>*\<^sup>* (p\<lparr>p_sched := Snapshotting ?sn\<rparr>) p' \<and> sched_rests p p'"
    using snapshotting_can_end [OF assms(1), of "p\<lparr>p_sched := Snapshotting ?sn\<rparr>" ?sn simple] by simp
qed

lemma applying_can_end:
  assumes "kv_available K C" and "p_sched p = Applying es wake" and "last_applied (rn_state (p_raft p)) < u64_max"
  shows "\<exists>p'. (sched_step K C simple)\<^sup>*\<^sup>* p p' \<and> sched_rests p p'"
  using assms(2,3)
proof (induction es arbitrary: p wake)
  case Nil
  note check = sched_step.all_applied [OF Nil(1,2) refl, of K C simple]
  show ?case
  proof (cases "compaction_point (rn_state (p_raft p))")
    case None
    show ?thesis by (rule one_step, rule check) (simp add: None)
  next
    case (Some it)
    obtain idx trm where it: "it = (idx, trm)" by force
    let ?p = "p\<lparr>p_node := (p_node p)\<lparr>nd_job_notify := nd_job_notify (p_node p) \<or> wake\<rparr>, p_sched := Compacting idx trm\<rparr>"
    from check Some it have "sched_step K C simple p ?p" by simp
    then show ?thesis by (rule first_step) (use compacting_can_end [OF assms(1), of ?p idx trm simple] in simp)
  qed
next
  case (Cons e es)
  let ?a = "apply_command (nc_node_id (rn_config (p_raft p))) simple 0 0 (le_command e) (node_app (p_node p))"
  let ?p = "p\<lparr>p_node := (p_node p)\<lparr>nd_queue := app_queue ?a, nd_assigner := app_assigner ?a,
      nd_worker_notify := nd_worker_notify (p_node p) \<or> wake_worker ?a\<rparr>,
    p_sched := Applying es (wake \<or> wake_assigner ?a), p_kills := p_kills p @ kills ?a\<rparr>"
  from sched_step.applied [OF Cons.prems(1) refl] have "sched_step K C simple p ?p" .
  then show ?case by (rule first_step) (use Cons.IH [of ?p] Cons.prems(2) in simp)
qed

lemma assigning_can_end:
  assumes "p_sched p = Assigning" and "p_loop p = LoopStopped" and "queue_wf (nd_queue (p_node p))"
  shows "\<exists>p'. (sched_step K C simple)\<^sup>*\<^sup>* p p' \<and> sched_rests p p'"
  using assms
proof (induction "length (pending_jobs (nd_queue (p_node p)))" arbitrary: p rule: less_induct)
  case less
  let ?q = "nd_queue (p_node p)" and ?a = "nd_assigner (p_node p)"
  show ?case
  proof (cases "next_assignment 0 ?q ?a")
    case None
    from sched_step.all_assigned [OF less.prems(1) None] show ?thesis by (rule one_step) simp
  next
    case (Some it)
    then obtain i w where iw: "next_assignment 0 ?q ?a = Some (i, w)" by (cases it) simp
    let ?q' = "fst (assign_job i w ?q)"
    let ?p1 = "p\<lparr>p_node := (p_node p)\<lparr>nd_queue := ?q', nd_assigner := note_running w i ?a\<rparr>, p_sched := SendingAssignment (AssignJob i w)\<rparr>"
    let ?p2 = "?p1\<lparr>p_sched := Assigning\<rparr>"
    from next_assignment_some(1) [OF less.prems(3) iw] obtain j where j: "get_job ?q i = Some j" "j_status j = Pending" by blast
    have "\<exists>p'. (sched_step K C simple)\<^sup>*\<^sup>* ?p2 p' \<and> sched_rests ?p2 p'"
      using assign_pending_decreases [OF less.prems(3) j, of w] less.prems by (intro less.hyps) (simp_all add: wf_keep)
    then have "\<exists>p'. (sched_step K C simple)\<^sup>*\<^sup>* ?p2 p' \<and> sched_rests p p'" by simp
    moreover have "sched_step K C simple ?p1 ?p2"
      using sched_step.send_failed [of ?p1 "AssignJob i w" K C simple] less.prems(2) by simp
    ultimately have "\<exists>p'. (sched_step K C simple)\<^sup>*\<^sup>* ?p1 p' \<and> sched_rests p p'" by (rule first_step [rotated])
    from sched_step.assign [OF less.prems(1) iw] this show ?thesis by (rule first_step)
  qed
qed

lemma sched_can_rest:
  assumes "kv_available K C" and "process_inv K C p" and "p_loop p = LoopStopped" and "p_sched p \<noteq> SchedStopped"
    and "last_applied (rn_state (p_raft p)) < u64_max"
  shows "\<exists>p'. (sched_step K C simple)\<^sup>*\<^sup>* p p' \<and> sched_rests p p'"
proof (cases "p_sched p")
  case (Rebuilding sn)
  obtain q a where qa: "rebuild_from_snapshot 0 sn (nd_queue (p_node p), nd_assigner (p_node p)) = (q, a)" by force
  from sched_step.rebuild [OF Rebuilding qa] show ?thesis by (rule one_step) simp
next
  case (SendingAssignment c)
  let ?p = "p\<lparr>p_sched := Assigning\<rparr>"
  have "\<exists>p'. (sched_step K C simple)\<^sup>*\<^sup>* ?p p' \<and> sched_rests p p'"
    using assigning_can_end [of ?p K C simple] assms(2,3) by (simp add: process_inv_def)
  with sched_step.send_failed [OF SendingAssignment assms(3)] show ?thesis by (rule first_step)
next
  case Assigning
  with assigning_can_end [OF this assms(3)] assms(2) show ?thesis by (simp add: process_inv_def)
next
  case (Applying es wake)
  from applying_can_end [OF assms(1) this assms(5)] show ?thesis .
next
  case (Compacting idx trm)
  from compacting_can_end [OF assms(1) this] show ?thesis .
next
  case (Snapshotting sn)
  from snapshotting_can_end [OF assms(1) this] show ?thesis .
qed (use assms(4) in auto)

lemma sched_can_stop:
  assumes "kv_available K C" and "process_inv K C p" and "p_loop p = LoopStopped" and "p_shutdown p"
    and "last_applied (rn_state (p_raft p)) < u64_max"
  shows "\<exists>p'. (sched_step K C simple)\<^sup>*\<^sup>* p p' \<and> p_sched p' = SchedStopped \<and> p_loop p' = LoopStopped \<and>
    p_work p' = p_work p \<and> p_shutdown p'"
proof (cases "p_sched p = SchedStopped")
  case False
  show ?thesis
  proof (rule last_step [OF sched_can_rest [OF assms(1-3) False assms(5)]])
    fix q assume q: "sched_rests p q"
    with assms(4) have stop: "p_sched q = SchedIdle" "p_shutdown q" by simp_all
    show "\<exists>p'. (sched_step K C simple)\<^sup>*\<^sup>* q p' \<and> p_sched p' = SchedStopped \<and> p_loop p' = LoopStopped \<and> p_work p' = p_work p \<and> p_shutdown p'"
      by (rule one_step, rule sched_step.stop [OF stop]) (use q assms(3,4) in simp)
  qed
qed (use assms(3,4) in auto)

text \<open>The worker, once the Raft loop has stopped: it finishes what it executes.\<close>

abbreviation work_rests :: "'db process \<Rightarrow> 'db process \<Rightarrow> bool" where
  "work_rests p p' \<equiv>
     p_work p' = WorkIdle \<and> p_loop p' = p_loop p \<and> p_sched p' = p_sched p \<and> p_shutdown p' = p_shutdown p"

lemma reporting_can_end:
  assumes "p_work p = Reporting c" and "p_loop p = LoopStopped"
  shows "\<exists>p'. (work_step X simple)\<^sup>*\<^sup>* p p' \<and> work_rests p p'"
  by (rule one_step, rule work_step.report_failed [OF assms]) simp

lemma working_can_end:
  assumes "p_work p = Working js us" and "p_loop p = LoopStopped"
  shows "\<exists>p'. (work_step X simple)\<^sup>*\<^sup>* p p' \<and> work_rests p p'"
  using assms
proof (induction js arbitrary: p us)
  case Nil
  let ?f = "flush_updates X (p_cached p) us (p_node p)"
  let ?p = "p\<lparr>p_work := (case ?f of Some (Propose c) \<Rightarrow> Reporting c | _ \<Rightarrow> WorkIdle)\<rparr>"
  have "\<exists>p'. (work_step X simple)\<^sup>*\<^sup>* ?p p' \<and> work_rests p p'"
    using reporting_can_end [of ?p _ X simple] Nil(2) by (cases ?f) (auto split: flush.split)
  with work_step.flush [OF Nil(1) refl] show ?case by (rule first_step)
next
  case (Cons j js)
  obtain i cmd img where j: "j = (i, cmd, img)" by (cases j)
  let ?r = "fst (execute (\<lambda>_. Finished \<lparr>pr_stdout = [], pr_stderr = [], pr_code = Some 0\<rparr>) simple (sandbox (rn_config (p_raft p))) i cmd img)"
  obtain n vs where n: "record_result 0 i ?r (p_node p) = (n, vs)" by force
  let ?p = "p\<lparr>p_node := n, p_work := Working js (us @ vs)\<rparr>"
  have "\<exists>p'. (work_step X simple)\<^sup>*\<^sup>* ?p p' \<and> work_rests p p'" using Cons.IH [of ?p "us @ vs"] Cons.prems(2) by simp
  with work_step.result [OF Cons.prems(1) [unfolded j] n] show ?case by (rule first_step)
qed

lemma work_can_stop:
  assumes "p_loop p = LoopStopped" and "p_shutdown p"
  shows "\<exists>p'. (work_step X simple)\<^sup>*\<^sup>* p p' \<and> p_work p' = WorkStopped \<and> p_loop p' = LoopStopped \<and> p_sched p' = p_sched p"
proof (cases "p_work p = WorkStopped")
  case False
  have rest: "\<exists>p'. (work_step X simple)\<^sup>*\<^sup>* p p' \<and> work_rests p p'"
    using False working_can_end [OF _ assms(1)] reporting_can_end [OF _ assms(1)] by (cases "p_work p") auto
  show ?thesis
  proof (rule last_step [OF rest])
    fix q assume q: "work_rests p q"
    with assms(2) have stop: "p_work q = WorkIdle" "p_shutdown q" by simp_all
    show "\<exists>p'. (work_step X simple)\<^sup>*\<^sup>* q p' \<and> p_work p' = WorkStopped \<and> p_loop p' = LoopStopped \<and> p_sched p' = p_sched p"
      by (rule one_step, rule work_step.stop [OF stop]) (use q assms(1) in simp)
  qed
qed (use assms(1) in auto)

section \<open>The end of a node\<close>

lemma task_runs:
  "(loop_step K C)\<^sup>*\<^sup>* p p' \<Longrightarrow> (task_step K C X simple)\<^sup>*\<^sup>* p p'"
  "(sched_step K C simple)\<^sup>*\<^sup>* p p' \<Longrightarrow> (task_step K C X simple)\<^sup>*\<^sup>* p p'"
  "(work_step X simple)\<^sup>*\<^sup>* p p' \<Longrightarrow> (task_step K C X simple)\<^sup>*\<^sup>* p p'"
  by (erule rtranclp_mono [THEN predicate2D, rotated], blast intro: task_step.intros)+

lemma life_of_tasks:
  assumes "(task_step K C X simple)\<^sup>*\<^sup>* p p'" and "\<forall>ws r. phase \<noteq> Exited ws r"
  shows "(life_step K C X simple)\<^sup>*\<^sup>* (p, phase) (p', phase)"
  using assms(1) by (induction rule: rtranclp_induct) (auto intro: rtranclp.rtrancl_into_rtrancl life_step.task [OF _ assms(2)])

lemma tasks_can_stop:
  assumes "kept K C p" and "p_shutdown p" and "last_applied (rn_state (p_raft p)) < u64_max"
  shows "\<exists>p'. (task_step K C X simple)\<^sup>*\<^sup>* p p' \<and> p_work p' = WorkStopped \<and> loops_stopped p' \<and> p_shutdown p'"
proof -
  have env: "kv_available K C" "process_inv K C p" using assms(1) by (simp_all add: kept_def environment_def)
  obtain p1 where p1: "(loop_step K C)\<^sup>*\<^sup>* p p1" "p_loop p1 = LoopStopped" "settles p p1"
    using loop_can_stop [OF env(2) assms(2)] by blast
  then have s1: "p_shutdown p1" "last_applied (rn_state (p_raft p1)) < u64_max" using assms(2,3) by (simp_all add: settles_def)
  have "process_inv K C p1" using loop_task.run_keeps [OF p1(1) assms(1)] by (simp add: kept_def)
  from sched_can_stop [OF env(1) this p1(2) s1] obtain p2 where p2: "(sched_step K C simple)\<^sup>*\<^sup>* p1 p2" "p_sched p2 = SchedStopped"
    "p_loop p2 = LoopStopped" "p_shutdown p2" by blast
  obtain p3 where p3: "(work_step X simple)\<^sup>*\<^sup>* p2 p3" "p_work p3 = WorkStopped" "p_loop p3 = LoopStopped" "p_sched p3 = p_sched p2"
    using work_can_stop [OF p2(3,4)] by blast
  have "p_shutdown p3" using p3(1) p2(4) by (induction rule: rtranclp_induct) (auto dest: work_step_frame)
  moreover have "(task_step K C X simple)\<^sup>*\<^sup>* p p3"
    using task_runs(1) [OF p1(1)] task_runs(2) [OF p2(1)] task_runs(3) [OF p3(1)] by (meson rtranclp_trans)
  ultimately show ?thesis using p2(2) p3 by (auto simp: loops_stopped_def)
qed

lemma stopping_run:
  assumes "kept K C p" and "p_shutdown p" and "last_applied (rn_state (p_raft p)) < u64_max"
  shows "\<exists>p'. (life_step K C X simple)\<^sup>*\<^sup>* (p, AwaitWorker deadline) (p', Exited [] (Inr ())) \<and> p_work p' = WorkStopped \<and> loops_stopped p'"
proof -
  obtain p' where p': "(task_step K C X simple)\<^sup>*\<^sup>* p p'" "p_work p' = WorkStopped" "loops_stopped p'" "p_shutdown p'"
    using tasks_can_stop [OF assms] by blast
  have "(life_step K C X simple)\<^sup>*\<^sup>* (p, AwaitWorker deadline) (p', AwaitWorker deadline)"
    by (rule life_of_tasks [OF p'(1)]) simp
  moreover have "life_step K C X simple (p', AwaitWorker deadline) (p', AwaitLoops LOOPS_WAIT [])"
    using life_step.poll [of None p' K C X simple "AwaitWorker deadline" 0] p'(2) by simp
  moreover have "life_step K C X simple (p', AwaitLoops LOOPS_WAIT []) (p', Exited [] (Inr ()))"
    using life_step.poll [of None p' K C X simple "AwaitLoops LOOPS_WAIT []" 0] p'(3) by simp
  ultimately show ?thesis using p'(2,3) by (meson rtranclp.rtrancl_into_rtrancl)
qed

text \<open>C19: A shutdown can always complete: no task is stuck. From every state that a node, first started on an empty
  database, reaches by the steps of its tasks, crashes and new starts, once the signal has come there is a run of its
  tasks after which the worker, the Raft loop and the scheduler have stopped, and Node::run returns without a warning,
  whatever election, transfer, compaction, assignment or execution was under way.\<close>

theorem shutdown_completes:
  assumes "kv_laws K" and "serde_laws C" and "kv_available K C"
    and "\<forall>dir. data_dir config = Some dir \<longrightarrow> (\<forall>k. contents K (open_db dir) k = None)"
    and "node_new K C open_db now config = Some n"
    and "(process_step K C X simple)\<^sup>*\<^sup>* (process_start dial has_tls ms now n) p"
    and "p_shutdown p" and "last_applied (rn_state (p_raft p)) < u64_max"
  shows "\<exists>p'. (life_step K C X simple)\<^sup>*\<^sup>* (p, AwaitWorker deadline) (p', Exited [] (Inr ())) \<and>
    p_work p' = WorkStopped \<and> p_loop p' = LoopStopped \<and> p_sched p' = SchedStopped"
  using stopping_run [OF node_task.run_keeps [OF assms(6) started_kept [OF assms(1-5)]] assms(7,8)]
  by (simp add: loops_stopped_def)

text \<open>A node without a data directory that gets the signal right after its start.\<close>

lemma default_in_memory: "data_dir config_default = None"
  by (simp add: config_default_def Let_def)

lemma memory_node:
  obtains n where "node_new kv_mem serde_unary (\<lambda>_. fmempty) 0 config_default = Some n" and "rn_state (nd_raft n) = raft_new"
proof -
  have "\<exists>n. node_new kv_mem serde_unary (\<lambda>_. fmempty) 0 config_default = Some n"
    by (simp add: node_new_def default_in_memory)
  then obtain n where n: "node_new kv_mem serde_unary (\<lambda>_. fmempty) 0 config_default = Some n" by blast
  have "nd_raft n = new_with_storage config_default None None 0"
    by (rule node_new_sel(4) [OF n default_in_memory])
  then have "rn_state (nd_raft n) = raft_new" by (simp add: new_with_storage_def restored_state_def)
  with n that show ?thesis by blast
qed

definition signalled_node :: "'db node \<Rightarrow> 'db process" where
  "signalled_node n = shutdown_signalled (process_start (\<lambda>_. Dial_Failed) False 150 0 n)"

lemma signalled_node_sel:
  "p_shutdown (signalled_node n)" "rn_state (p_raft (signalled_node n)) = rn_state (nd_raft n)"
  by (simp_all add: signalled_node_def shutdown_signalled_def process_start_sel restore_snapshot_for_scheduler_def split: option.split)

theorem shutdown_completes_witness:
  "\<exists>n p'. node_new kv_mem serde_unary (\<lambda>_. fmempty) 0 config_default = Some n \<and>
     (life_step kv_mem serde_unary ext_unary show_nat)\<^sup>*\<^sup>* (signalled_node n, AwaitWorker WORKER_WAIT) (p', Exited [] (Inr ())) \<and>
     p_work p' = WorkStopped \<and> p_loop p' = LoopStopped \<and> p_sched p' = SchedStopped"
proof -
  obtain n where n: "node_new kv_mem serde_unary (\<lambda>_. fmempty) 0 config_default = Some n" "rn_state (nd_raft n) = raft_new"
    by (rule memory_node)
  have run: "(process_step kv_mem serde_unary ext_unary show_nat)\<^sup>*\<^sup>* (process_start (\<lambda>_. Dial_Failed) False 150 0 n) (signalled_node n)"
    unfolding signalled_node_def by (intro r_into_rtranclp process_step.signal)
  have "last_applied (rn_state (p_raft (signalled_node n))) < u64_max"
    unfolding signalled_node_sel n(2) by (simp add: raft_new_def u64_max_def)
  from shutdown_completes [OF kv_mem_laws serde_unary_laws kv_mem_available _ n(1) run signalled_node_sel(1) this] n(1)
  show ?thesis by (simp add: default_in_memory)
qed



text \<open>
  The polls of \<open>Node::run\<close> after its server has stopped, each with its time and what the tasks are then.
\<close>

definition run_turns :: "(instant \<times> 'db process) list \<Rightarrow> run_phase \<Rightarrow> run_phase" where
  "run_turns polls phase = foldl (\<lambda>phase (now, p). run_turn now None p phase) phase polls"

lemma run_turns_simps:
  "run_turns [] phase = phase" "run_turns ((now, p) # polls) phase = run_turns polls (run_turn now None p phase)"
  "run_turns (xs @ ys) phase = run_turns ys (run_turns xs phase)"
  by (simp_all add: run_turns_def)

lemma exited_stays: "run_turns polls (Exited ws r) = Exited ws r"
  by (induction polls) (auto simp: run_turns_simps)

lemma loops_wait_ends:
  assumes "deadline \<le> t"
  shows "\<exists>ws'. run_turns (ys @ (t, p) # zs) (AwaitLoops deadline ws) = Exited ws' (Inr ())"
proof (induction ys)
  case Nil
  with assms show ?case by (simp add: run_turns_simps exited_stays)
next
  case (Cons y ys)
  obtain now q where "y = (now, q)" by force
  with Cons show ?case by (simp add: run_turns_simps exited_stays)
qed

lemma worker_wait_ends:
  assumes "deadline \<le> t1" and "t1 + LOOPS_WAIT \<le> t2" and "\<forall>(now, p) \<in> set xs. now \<le> t1"
  shows "\<exists>ws. run_turns (xs @ (t1, p1) # ys @ (t2, p2) # zs) (AwaitWorker deadline) = Exited ws (Inr ())"
  using assms(3)
proof (induction xs)
  case Nil
  with loops_wait_ends [OF assms(2), of ys p2 zs] assms(1) show ?case by (simp add: run_turns_simps)
next
  case (Cons x xs)
  obtain now q where x: "x = (now, q)" by force
  with Cons.prems have "now + LOOPS_WAIT \<le> t2" using assms(2) by simp
  with loops_wait_ends [OF this, of "xs @ (t1, p1) # ys" p2 zs] Cons x show ?case by (simp add: run_turns_simps)
qed

text \<open>C21: The waiting ends. Once the server has stopped, Node::run returns successfully, whatever the tasks do: if it is
  polled when the 30 s for the worker have passed, and again when 5 s more have passed, then it has returned.\<close>

theorem waiting_ends:
  assumes "run_turn now (Some (Inr ())) p Serving = phase" and "now + WORKER_WAIT \<le> t1" and "t1 + LOOPS_WAIT \<le> t2"
    and "\<forall>(t, q) \<in> set xs. t \<le> t1"
  shows "\<exists>ws. run_turns (xs @ (t1, p1) # ys @ (t2, p2) # zs) phase = Exited ws (Inr ())"
proof -
  have "phase = AwaitWorker (now + WORKER_WAIT)" using assms(1) by simp
  with worker_wait_ends [OF assms(2-4)] show ?thesis by simp
qed

theorem waiting_ends_witness:
  "\<exists>n :: (char list, char list) fmap node. p_work (signalled_node n) \<noteq> WorkStopped \<and>
     (\<exists>ws. run_turns [(WORKER_WAIT, signalled_node n), (WORKER_WAIT + LOOPS_WAIT, signalled_node n)]
        (AwaitWorker WORKER_WAIT) = Exited ws (Inr ()))"
proof -
  obtain n where n: "node_new kv_mem serde_unary (\<lambda>_. fmempty) 0 config_default = Some n" "rn_state (nd_raft n) = raft_new"
    by (rule memory_node)
  have "\<exists>ws. run_turns ([] @ (WORKER_WAIT, signalled_node n) # [] @ (WORKER_WAIT + LOOPS_WAIT, signalled_node n) # [])
      (AwaitWorker WORKER_WAIT) = Exited ws (Inr ())"
    by (rule waiting_ends [where now = 0 and p = "signalled_node n"]) simp_all
  moreover have "p_work (signalled_node n) \<noteq> WorkStopped"
    by (simp add: signalled_node_def shutdown_signalled_def process_start_def worker_start_def Let_def)
  ultimately show ?thesis by auto
qed

end
