(* ===== verification/System.thy ===== *)
theory System
  imports Running_Node Replicas
begin

text \<open>
  Several running nodes and the messages between them: the processes of \<open>Node_Run\<close> in the place of the nodes of \<open>Cluster\<close>.
  Elections ask one peer after the other, the tasks of each node interleave, and a request or an answer is one that was
  sent. Every step of such a system is one of the cluster, or leaves its nodes as they are, so what holds of clusters
  holds of running nodes.
\<close>

section \<open>The system\<close>

record 'db system =
  sy_process :: "node_id \<Rightarrow> 'db process"
  sy_votes :: "vote_request set"
  sy_vote_answers :: "(node_id \<times> vote_request \<times> vote_response) set"
  sy_appends :: "(node_id \<times> append_entries_request) set"
  sy_append_answers :: "(node_id \<times> append_entries_request \<times> append_entries_response) set"
  sy_snapshots :: "(node_id \<times> install_snapshot_request) set"
  sy_snapshot_answers :: "(node_id \<times> install_snapshot_request \<times> install_snapshot_response) set"

abbreviation raft_of :: "'db system \<Rightarrow> node_id \<Rightarrow> 'db raft_node" where
  "raft_of s i \<equiv> p_raft (sy_process s i)"

definition put :: "node_id \<Rightarrow> 'db process \<Rightarrow> 'db system \<Rightarrow> 'db system" where
  "put i p s = s\<lparr>sy_process := (sy_process s)(i := p)\<rparr>"

text \<open>Every node is started, on an empty database if it has one, as a member of the same cluster.\<close>

definition system_start :: "'db kv \<Rightarrow> serde \<Rightarrow> node_config \<Rightarrow> 'db system \<Rightarrow> bool" where
  "system_start K C cf s \<longleftrightarrow>
     (\<forall>i \<in> cluster_ids cf. \<exists>open_db config now n dial has_tls ms.
        (\<forall>dir k. data_dir config = Some dir \<longrightarrow> contents K (open_db dir) k = None) \<and>
        nc_node_id config = i \<and> config_wf config \<and> cluster_ids config = cluster_ids cf \<and>
        node_new K C open_db now config = Some n \<and> sy_process s i = process_start dial has_tls ms now n) \<and>
     sy_votes s = {} \<and> sy_vote_answers s = {} \<and> sy_appends s = {} \<and> sy_append_answers s = {} \<and>
     sy_snapshots s = {} \<and> sy_snapshot_answers s = {}"

text \<open>
  The steps of node \<open>i\<close>. In \<open>outvoted\<close> and \<open>heartbeat_ack\<close> an answer makes the node step down only if its term is above the
  node's, where the code compares it with the term in which it asked; and a handover that succeeds, which steps down
  in the term in which it began, is left out: with those, two leaders can be elected in a term. A snapshot's answer carries
  the index that was sent.
\<close>

inductive system_step ::
  "'db kv \<Rightarrow> serde \<Rightarrow> ext \<Rightarrow> (uuid \<Rightarrow> string) \<Rightarrow> node_config \<Rightarrow> 'db system \<Rightarrow> 'db system \<Rightarrow> bool"
  for K C X simple cf where
  task: "\<lbrakk>i \<in> cluster_ids cf; front_step X (sy_process s i) p \<or> sched_step K C simple (sy_process s i) p \<or>
      work_step X simple (sy_process s i) p \<or> p = shutdown_signalled (sy_process s i)\<rbrakk>
    \<Longrightarrow> system_step K C X simple cf s (put i p s)"
| loop: "\<lbrakk>i \<in> cluster_ids cf; loop_step K C (sy_process s i) p; p_elections p = p_elections (sy_process s i);
      \<forall>q t. p_loop (sy_process s i) \<noteq> LoopHandover q t\<rbrakk>
    \<Longrightarrow> system_step K C X simple cf s (put i p s)"
| handover_failed: "\<lbrakk>i \<in> cluster_ids cf; p_loop (sy_process s i) = LoopHandover q t\<rbrakk>
    \<Longrightarrow> system_step K C X simple cf s (put i ((sy_process s i)\<lparr>p_loop := LoopIdle\<rparr>) s)"
| campaign: "\<lbrakk>i \<in> cluster_ids cf; loop_step K C (sy_process s i) p \<or> peer_step K C X (sy_process s i) p;
      current_term (rn_state (raft_of s i)) < u64_max; begin_election K C (raft_of s i) = Some (p_raft p, req);
      p_elections p = \<lparr>el_request = req, el_peers = peers (p_raft p), el_votes = 1, el_by_timer = b\<rparr> # p_elections (sy_process s i)\<rbrakk>
    \<Longrightarrow> system_step K C X simple cf s ((put i p s)\<lparr>sy_votes := insert req (sy_votes s)\<rparr>)"
| vote: "\<lbrakk>i \<in> cluster_ids cf; req \<in> sy_votes s; vr_candidate_id req \<noteq> i;
      handle_vote_request K C now req (raft_of s i) = Some (r, v)\<rbrakk>
    \<Longrightarrow> system_step K C X simple cf s
      ((put i (set_raft r (sy_process s i)) s)\<lparr>sy_vote_answers := insert (i, req, v) (sy_vote_answers s)\<rparr>)"
| unanswered: "\<lbrakk>i \<in> cluster_ids cf; el \<in> set (p_elections (sy_process s i)); el_peers el = q # qs\<rbrakk>
    \<Longrightarrow> system_step K C X simple cf s (put i ((sy_process s i)\<lparr>p_elections :=
        el\<lparr>el_peers := qs\<rparr> # remove1 el (p_elections (sy_process s i))\<rparr>) s)"
| counted: "\<lbrakk>i \<in> cluster_ids cf; el \<in> set (p_elections (sy_process s i)); el_peers el = q # qs;
      (q, el_request el, v) \<in> sy_vote_answers s;
      count_answer K C (vr_term (el_request el)) now (q, Some v) (el_votes el) (raft_of s i) = Some (r, Counted votes)\<rbrakk>
    \<Longrightarrow> system_step K C X simple cf s (put i ((set_raft r (sy_process s i))\<lparr>p_elections :=
        el\<lparr>el_peers := qs, el_votes := votes\<rparr> # remove1 el (p_elections (sy_process s i))\<rparr>) s)"
| outvoted: "\<lbrakk>i \<in> cluster_ids cf; el \<in> set (p_elections (sy_process s i)); el_peers el = q # qs;
      (q, el_request el, v) \<in> sy_vote_answers s; current_term (rn_state (raft_of s i)) < vres_term v; vres_term v \<le> u64_max;
      count_answer K C (vr_term (el_request el)) now (q, Some v) (el_votes el) (raft_of s i) = Some (r, Outvoted)\<rbrakk>
    \<Longrightarrow> system_step K C X simple cf s (put i ((set_raft r (sy_process s i))\<lparr>p_elections := remove1 el (p_elections (sy_process s i)),
        p_loop := (if el_by_timer el then LoopIdle else p_loop (sy_process s i))\<rparr>) s)"
| ended: "\<lbrakk>i \<in> cluster_ids cf; el \<in> set (p_elections (sy_process s i)); el_peers el = []\<rbrakk>
    \<Longrightarrow> system_step K C X simple cf s
      (put i ((set_raft (finish_election (vr_term (el_request el)) (el_votes el) (raft_of s i)) (sy_process s i))
        \<lparr>p_elections := remove1 el (p_elections (sy_process s i)),
         p_loop := (if el_by_timer el then LoopIdle else p_loop (sy_process s i))\<rparr>) s)"
| heartbeat: "\<lbrakk>i \<in> cluster_ids cf; m \<in> set (heartbeat_round (raft_of s i))\<rbrakk>
    \<Longrightarrow> system_step K C X simple cf s (s\<lparr>sy_appends := insert m (sy_appends s)\<rparr>)"
| send_entries: "\<lbrakk>i \<in> cluster_ids cf; (q, SendEntries areq) \<in> set (replicate_to_peers X (raft_of s i))\<rbrakk>
    \<Longrightarrow> system_step K C X simple cf s (s\<lparr>sy_appends := insert (q, areq) (sy_appends s)\<rparr>)"
| send_snapshot: "\<lbrakk>i \<in> cluster_ids cf; (q, SendSnapshot sreq) \<in> set (replicate_to_peers X (raft_of s i))\<rbrakk>
    \<Longrightarrow> system_step K C X simple cf s (s\<lparr>sy_snapshots := insert (q, sreq) (sy_snapshots s)\<rparr>)"
| append: "\<lbrakk>i \<in> cluster_ids cf; (i, areq) \<in> sy_appends s;
      handle_append_entries_node K C X now areq (raft_of s i) = Some (r, ar)\<rbrakk>
    \<Longrightarrow> system_step K C X simple cf s
      ((put i (set_raft r (sy_process s i)) s)\<lparr>sy_append_answers := insert (i, areq, ar) (sy_append_answers s)\<rparr>)"
| append_ack: "\<lbrakk>i \<in> cluster_ids cf; (q, areq, ar) \<in> sy_append_answers s; ae_leader_id areq = i; aer_term ar \<le> u64_max;
      append_answer K C now q ar (raft_of s i) = Some r\<rbrakk>
    \<Longrightarrow> system_step K C X simple cf s (put i (set_raft r (sy_process s i)) s)"
| heartbeat_ack: "\<lbrakk>i \<in> cluster_ids cf; (q, areq, ar) \<in> sy_append_answers s; ae_leader_id areq = i; aer_term ar \<le> u64_max;
      aer_term ar \<le> ae_term areq \<or> current_term (rn_state (raft_of s i)) < aer_term ar;
      heartbeat_answer K C now q (ae_term areq) ar (raft_of s i) = Some r\<rbrakk>
    \<Longrightarrow> system_step K C X simple cf s (put i (set_raft r (sy_process s i)) s)"
| install: "\<lbrakk>i \<in> cluster_ids cf; (i, sreq) \<in> sy_snapshots s;
      handle_install_snapshot_node K C X now sreq (raft_of s i) = Some (r, sr)\<rbrakk>
    \<Longrightarrow> system_step K C X simple cf s
      ((put i (set_raft r (sy_process s i)) s)\<lparr>sy_snapshot_answers := insert (i, sreq, sr) (sy_snapshot_answers s)\<rparr>)"
| snapshot_ack: "\<lbrakk>i \<in> cluster_ids cf; (q, sreq, sr) \<in> sy_snapshot_answers s; is_leader_id sreq = i; isr_term sr \<le> u64_max;
      snapshot_answer K C now q (is_last_included_index sreq) sr (raft_of s i) = Some r\<rbrakk>
    \<Longrightarrow> system_step K C X simple cf s (put i (set_raft r (sy_process s i)) s)"
| connect: "i \<in> cluster_ids cf \<Longrightarrow>
    system_step K C X simple cf s (put i (set_raft (connect_to_peers dial has_tls (raft_of s i)) (sy_process s i)) s)"
| crash: "\<lbrakk>i \<in> cluster_ids cf; rn_storage (raft_of s i) = Some db; data_dir (rn_config (raft_of s i)) = Some dir;
      node_new K C (\<lambda>_. db) now (rn_config (raft_of s i)) = Some n\<rbrakk>
    \<Longrightarrow> system_step K C X simple cf s (put i (process_start dial has_tls ms now n) s)"

inductive system_run :: "'db kv \<Rightarrow> serde \<Rightarrow> ext \<Rightarrow> (uuid \<Rightarrow> string) \<Rightarrow> node_config \<Rightarrow> 'db system \<Rightarrow> bool"
  for K C X simple cf where
  start: "system_start K C cf s \<Longrightarrow> system_run K C X simple cf s"
| step: "system_run K C X simple cf s \<Longrightarrow> system_step K C X simple cf s s' \<Longrightarrow> system_run K C X simple cf s'"

section \<open>A system as a cluster\<close>

definition grants_of :: "(node_id \<times> vote_request \<times> vote_response) set \<Rightarrow> (node_id \<times> vote_request) set" where
  "grants_of A = {(i, req). \<exists>v. (i, req, v) \<in> A \<and> vote_granted v}"

definition view :: "(u64 \<times> node_id) set \<Rightarrow> 'db system \<Rightarrow> 'db cluster" where
  "view L s = \<lparr>cl_node = raft_of s, cl_requests = sy_votes s, cl_grants = grants_of (sy_vote_answers s),
     cl_appends = sy_appends s, cl_snapshots = sy_snapshots s, cl_leaders = L\<rparr>"

lemma view_sel [simp]:
  "cl_node (view L s) = raft_of s" "cl_requests (view L s) = sy_votes s" "cl_grants (view L s) = grants_of (sy_vote_answers s)"
  "cl_appends (view L s) = sy_appends s" "cl_snapshots (view L s) = sy_snapshots s" "cl_leaders (view L s) = L"
  by (simp_all add: view_def)

lemma put_sel [simp]:
  "sy_process (put i p s) = (sy_process s)(i := p)" "sy_votes (put i p s) = sy_votes s"
  "sy_vote_answers (put i p s) = sy_vote_answers s" "sy_appends (put i p s) = sy_appends s"
  "sy_append_answers (put i p s) = sy_append_answers s" "sy_snapshots (put i p s) = sy_snapshots s"
  "sy_snapshot_answers (put i p s) = sy_snapshot_answers s"
  by (simp_all add: put_def)

lemma view_put: "view L (put i p s) = set_node i (p_raft p) (view L s)"
  by (rule cluster.equality) (auto simp: set_node_def)

lemma view_messages:
  "view L (s\<lparr>sy_votes := V\<rparr>) = (view L s)\<lparr>cl_requests := V\<rparr>"
  "view L (s\<lparr>sy_vote_answers := A\<rparr>) = (view L s)\<lparr>cl_grants := grants_of A\<rparr>"
  "view L (s\<lparr>sy_appends := M\<rparr>) = (view L s)\<lparr>cl_appends := M\<rparr>"
  "view L (s\<lparr>sy_append_answers := B\<rparr>) = view L s"
  "view L (s\<lparr>sy_snapshots := N\<rparr>) = (view L s)\<lparr>cl_snapshots := N\<rparr>"
  "view L (s\<lparr>sy_snapshot_answers := D\<rparr>) = view L s"
  by (rule cluster.equality; simp)+

lemma grants_insert: "grants_of (insert (i, req, v) A) = (if vote_granted v then insert (i, req) else id) (grants_of A)"
  by (auto simp: grants_of_def)

lemma set_node_same: "set_node i (cl_node c i) c = c"
  by (simp add: set_node_def)

lemma set_node_again: "set_node i n (set_node i m c) = set_node i n c"
  by (simp add: set_node_def)

text \<open>
  A step of the system is at most one step of the cluster that changes a state, and before and after it steps that
  leave the states alone.
\<close>

definition idle :: "'db kv \<Rightarrow> serde \<Rightarrow> ext \<Rightarrow> node_config \<Rightarrow> 'db cluster \<Rightarrow> 'db cluster \<Rightarrow> bool" where
  "idle K C X cf c c' \<longleftrightarrow> cluster_step K C X cf c c' \<and> state_of c' = state_of c"

definition simulated :: "'db kv \<Rightarrow> serde \<Rightarrow> ext \<Rightarrow> node_config \<Rightarrow> 'db cluster \<Rightarrow> 'db cluster \<Rightarrow> bool" where
  "simulated K C X cf c c' \<longleftrightarrow>
     (\<exists>a b. (idle K C X cf)\<^sup>*\<^sup>* c a \<and> (b = a \<or> cluster_step K C X cf a b) \<and> (idle K C X cf)\<^sup>*\<^sup>* b c')"

lemma simulated_refl [simp]: "simulated K C X cf c c"
  by (auto simp: simulated_def)

lemma simulated_step: "cluster_step K C X cf c c' \<Longrightarrow> simulated K C X cf c c'"
  by (auto simp: simulated_def)

lemma simulated_before: "idle K C X cf c a \<Longrightarrow> simulated K C X cf a c' \<Longrightarrow> simulated K C X cf c c'"
  by (auto simp: simulated_def intro: converse_rtranclp_into_rtranclp)

lemma simulated_after: "simulated K C X cf c b \<Longrightarrow> idle K C X cf b c' \<Longrightarrow> simulated K C X cf c c'"
  by (auto simp: simulated_def intro: rtranclp.rtrancl_into_rtrancl)

lemma touch_idle:
  assumes "i \<in> cluster_ids cf" and "same_core (cl_node c i) n"
  shows "idle K C X cf c (set_node i n c)"
  using cluster_step.touch [OF assms, of K C X] assms(2) by (auto simp: idle_def set_node_def same_core_def)

lemma connect_idle:
  assumes "i \<in> cluster_ids cf"
  shows "idle K C X cf c (set_node i (connect_to_peers dial has_tls (cl_node c i)) c)"
  using cluster_step.connect [OF assms refl, of K C X c dial has_tls] by (auto simp: idle_def set_node_def)

text \<open>An operation on a node that was touched before.\<close>

lemma touched_then:
  assumes "i \<in> cluster_ids cf" and "same_core (cl_node c i) m"
    and "cluster_step K C X cf (set_node i m c) (set_node i n (set_node i m c))"
  shows "simulated K C X cf c (set_node i n c)"
  using simulated_before [OF touch_idle [OF assms(1,2)] simulated_step [OF assms(3)]] by (simp add: set_node_again)

section \<open>The steps of a node\<close>

lemma unchanged: "p_raft p = raft_of s i \<Longrightarrow> simulated K C X cf (view L s) (view L (put i p s))"
  using set_node_same [of i "view L s"] by (simp add: view_put)

lemma touched:
  "i \<in> cluster_ids cf \<Longrightarrow> same_core (raft_of s i) (p_raft p) \<Longrightarrow> simulated K C X cf (view L s) (view L (put i p s))"
  unfolding view_put by (rule simulated_before [OF touch_idle simulated_refl]) simp_all

lemma sched_simulated:
  assumes "sched_step K C simple (sy_process s i) p" and i: "i \<in> cluster_ids cf"
  shows "simulated K C X cf (view L s) (view L (put i p s))"
  using assms(1)
proof (cases rule: sched_step.cases)
  case (take r sn)
  then have "same_core (raft_of s i) (p_raft p)" by (auto simp: take_pending_snapshot_def same_core_def)
  with i show ?thesis by (rule touched)
next
  case (fetch r r' es)
  have "same_core (cl_node (view L s) i) r" using fetch(3) by (auto simp: take_pending_snapshot_def same_core_def)
  moreover have "cluster_step K C X cf (set_node i r (view L s)) (set_node i r' (set_node i r (view L s)))"
    by (rule cluster_step.deliver [OF i, of _ _ es]) (simp add: fetch(4) set_node_def)
  ultimately show ?thesis using touched_then [OF i, of "view L s" r K C X r'] by (simp add: fetch(1) view_put)
next
  case (compact sn r)
  have "cluster_step K C X cf (view L s) (set_node i r (view L s))"
    by (rule cluster_step.compact [OF i, of _ _ sn]) (simp add: compact(3))
  then show ?thesis by (simp add: compact(1) view_put simulated_step)
qed (auto intro!: unchanged simp: on_cleanup_def)

lemma task_simulated:
  assumes "front_step X (sy_process s i) p \<or> sched_step K C simple (sy_process s i) p \<or>
      work_step X simple (sy_process s i) p \<or> p = shutdown_signalled (sy_process s i)" and "i \<in> cluster_ids cf"
  shows "simulated K C X cf (view L s) (view L (put i p s))"
  using assms(1)
proof (elim disjE)
  assume "front_step X (sy_process s i) p"
  from front_step_moves [OF this] show ?thesis by (rule unchanged)
next
  assume "work_step X simple (sy_process s i) p"
  from work_step_moves [OF this] show ?thesis by (rule unchanged)
next
  assume "p = shutdown_signalled (sy_process s i)"
  then show ?thesis by (intro unchanged) (simp add: shutdown_signalled_def)
qed (rule sched_simulated [OF _ assms(2)])

lemma replaced_changes: "x \<in> set xs \<Longrightarrow> y \<noteq> x \<Longrightarrow> y # remove1 x xs \<noteq> xs"
  by (induction xs arbitrary: y) auto

lemma removed_changes: "x \<in> set xs \<Longrightarrow> remove1 x xs \<noteq> xs"
  by (induction xs) auto

lemma loop_simulated:
  assumes "loop_step K C (sy_process s i) p" and "p_elections p = p_elections (sy_process s i)"
    and "\<forall>q t. p_loop (sy_process s i) \<noteq> LoopHandover q t" and i: "i \<in> cluster_ids cf"
  shows "simulated K C X cf (view L s) (view L (put i p s))"
  using assms(1)
proof (cases rule: loop_step.cases)
  case (command c t rest r res)
  have "cluster_step K C X cf (view L s) (set_node i r (view L s))"
    by (rule cluster_step.propose [OF i, where cmd = c and res = res]) (use command(4,5) in simp_all)
  then show ?thesis by (simp add: command(1) view_put simulated_step)
next
  case (heard t rest E ms)
  then show ?thesis by (intro touched [OF i]) (simp add: same_core_def)
next
  case (counted el q qs answer now r votes)
  have "el\<lparr>el_peers := qs, el_votes := votes\<rparr> \<noteq> el" using counted(3) by (cases el) auto
  from replaced_changes [OF counted(2) this] assms(2) show ?thesis by (simp add: counted(1))
next
  case (outvoted el q qs answer now r)
  from removed_changes [OF outvoted(2)] assms(2) show ?thesis by (simp add: outvoted(1))
next
  case (ended el)
  from removed_changes [OF ended(2)] assms(2) show ?thesis by (simp add: ended(1))
qed (use assms(2,3) in \<open>auto intro!: unchanged\<close>)

section \<open>Elections\<close>

text \<open>
  An election that is being run has counted the node's own vote and those of peers that granted its request, each
  of them once.
\<close>

definition election_ok :: "'db system \<Rightarrow> node_id \<Rightarrow> election \<Rightarrow> bool" where
  "election_ok s i el \<longleftrightarrow>
     el_request el \<in> sy_votes s \<and> vr_candidate_id (el_request el) = i \<and> distinct (el_peers el) \<and>
     set (el_peers el) \<subseteq> set (peers (raft_of s i)) \<and>
     (\<exists>P. P \<subseteq> set (peers (raft_of s i)) \<and> P \<inter> set (el_peers el) = {} \<and> el_votes el = Suc (card P) \<and>
        (\<forall>q \<in> P. (q, el_request el) \<in> grants_of (sy_vote_answers s)))"

definition elections_ok :: "node_config \<Rightarrow> 'db system \<Rightarrow> bool" where
  "elections_ok cf s \<longleftrightarrow> (\<forall>i \<in> cluster_ids cf. \<forall>el \<in> set (p_elections (sy_process s i)). election_ok s i el)"

lemma election_ok_mono:
  assumes "election_ok s i el" and "sy_votes s \<subseteq> sy_votes s'" and "sy_vote_answers s \<subseteq> sy_vote_answers s'"
    and "set (peers (raft_of s i)) \<subseteq> set (peers (raft_of s' i))"
  shows "election_ok s' i el"
proof -
  from assms(1) obtain P where P: "P \<subseteq> set (peers (raft_of s i))" "P \<inter> set (el_peers el) = {}" "el_votes el = Suc (card P)"
    "\<forall>q \<in> P. (q, el_request el) \<in> grants_of (sy_vote_answers s)" by (auto simp: election_ok_def)
  have "grants_of (sy_vote_answers s) \<subseteq> grants_of (sy_vote_answers s')" using assms(3) by (auto simp: grants_of_def)
  with P assms(4) have "P \<subseteq> set (peers (raft_of s' i)) \<and> P \<inter> set (el_peers el) = {} \<and> el_votes el = Suc (card P) \<and>
      (\<forall>q \<in> P. (q, el_request el) \<in> grants_of (sy_vote_answers s'))" by blast
  with assms(1,2,4) show ?thesis unfolding election_ok_def by blast
qed

text \<open>A step of node \<open>i\<close> that drops no connection and runs only elections it ran before, and such as are all right.\<close>

lemma elections_keep:
  assumes ok: "elections_ok cf s" and more: "sy_votes s \<subseteq> sy_votes s'" "sy_vote_answers s \<subseteq> sy_vote_answers s'"
    and "sy_process s' = (sy_process s)(i := p)" and "set (peers (raft_of s i)) \<subseteq> set (peers (p_raft p))"
    and "\<And>el. el \<in> set (p_elections p) \<Longrightarrow> el \<in> set (p_elections (sy_process s i)) \<or> election_ok s' i el"
  shows "elections_ok cf s'"
  unfolding elections_ok_def
proof (intro ballI)
  fix j el assume j: "j \<in> cluster_ids cf" and el: "el \<in> set (p_elections (sy_process s' j))"
  have peers: "set (peers (raft_of s j)) \<subseteq> set (peers (raft_of s' j))" using assms(4,5) by auto
  have old: "election_ok s' j el" if "el \<in> set (p_elections (sy_process s j))"
    using that ok j by (intro election_ok_mono [OF _ more peers]) (simp add: elections_ok_def)
  show "election_ok s' j el"
  proof (cases "j = i")
    case True
    then show ?thesis using assms(6) [of el] el old assms(4) by auto
  next
    case False
    then show ?thesis using el assms(4) by (intro old) simp
  qed
qed

lemma peer_answered:
  assumes ok: "election_ok s i el" and "el_peers el = q # qs"
    and "sy_votes s' = sy_votes s" and "sy_vote_answers s' = sy_vote_answers s" and "peers (raft_of s' i) = peers (raft_of s i)"
    and "votes = (if counts then Suc (el_votes el) else el_votes el)"
    and "counts \<Longrightarrow> (q, el_request el) \<in> grants_of (sy_vote_answers s)"
  shows "election_ok s' i (el\<lparr>el_peers := qs, el_votes := votes\<rparr>)"
proof -
  from ok obtain P where P: "P \<subseteq> set (peers (raft_of s i))" "P \<inter> set (el_peers el) = {}" "el_votes el = Suc (card P)"
    "\<forall>q \<in> P. (q, el_request el) \<in> grants_of (sy_vote_answers s)" by (auto simp: election_ok_def)
  let ?P = "if counts then insert q P else P"
  have "finite P" using P(1) finite_subset by blast
  moreover have "q \<notin> P" "q \<notin> set qs" "q \<in> set (peers (raft_of s i))" using P(2) ok assms(2) by (auto simp: election_ok_def)
  ultimately have "?P \<subseteq> set (peers (raft_of s i)) \<and> ?P \<inter> set qs = {} \<and> votes = Suc (card ?P) \<and>
      (\<forall>q \<in> ?P. (q, el_request el) \<in> grants_of (sy_vote_answers s))"
    using P assms(2,6,7) by auto
  with ok assms(2-5) show ?thesis unfolding election_ok_def by (auto simp del: Un_iff split del: if_split)
qed

text \<open>No operation drops a connection.\<close>

lemma quiet_peers: "quiet K C n n' \<Longrightarrow> peers n' = peers n"
  by (simp add: quiet_def)

lemma step_down_peers: "step_down K C t n = Some n' \<Longrightarrow> peers n' = peers n"
  unfolding step_down_def persist_hard_state_def by (auto simp: with_storage_def split: option.splits)

lemma connect_peers: "set (peers n) \<subseteq> set (peers (connect_to_peers dial has_tls n))"
proof -
  have "set (peers n) \<subseteq> set (peers (foldl (connect_to_peer dial has_tls) n ps))" for ps
    by (induction ps arbitrary: n) (fastforce simp: connect_to_peer_def split: dial_result.split)+
  then show ?thesis by (simp add: connect_to_peers_def)
qed

lemma task_step_peers:
  assumes "front_step X q p \<or> sched_step K C simple q p \<or> work_step X simple q p \<or> p = shutdown_signalled q"
  shows "peers (p_raft p) = peers (p_raft q)" and "p_elections p = p_elections q"
proof -
  have "peers (p_raft p) = peers (p_raft q) \<and> p_elections p = p_elections q"
    using assms
  proof (elim disjE)
    assume "sched_step K C simple q p"
    then show ?thesis
    proof (cases rule: sched_step.cases)
      case (fetch r r' es)
      with quiet_peers [OF get_committed_quiet [OF fetch(4)]] show ?thesis by (auto simp: take_pending_snapshot_def)
    next
      case (compact sn r)
      with compact_with_sel(3) [OF compact(3)] show ?thesis by simp
    qed (auto simp: take_pending_snapshot_def on_cleanup_def)
  next
    assume f: "front_step X q p"
    have "p_elections p = p_elections q" using f by (cases rule: front_step.cases) simp_all
    with front_step_moves [OF f] show ?thesis by simp
  next
    assume w: "work_step X simple q p"
    have "p_elections p = p_elections q" using w by (cases rule: work_step.cases) simp_all
    with work_step_moves [OF w] show ?thesis by simp
  qed (simp add: shutdown_signalled_def)
  then show "peers (p_raft p) = peers (p_raft q)" and "p_elections p = p_elections q" by blast+
qed

lemma loop_step_peers:
  assumes "loop_step K C q p" and "kv_laws K"
  shows "peers (p_raft p) = peers (p_raft q)"
  using assms(1)
proof (cases rule: loop_step.cases)
  case (command c t rest r res)
  with quiet_peers [OF append_command_quiet [OF assms(2) command(5)]] show ?thesis by simp
next
  case (trigger t rest r vreq)
  then show ?thesis by (auto simp: begin_election_def persist_hard_state_def with_storage_def Let_def bind_eq_Some_conv split: option.splits)
next
  case (timer now r vreq)
  then show ?thesis by (auto simp: begin_election_def persist_hard_state_def with_storage_def Let_def bind_eq_Some_conv split: option.splits)
next
  case (counted el r qs answer now r' votes)
  then show ?thesis by (auto simp: count_answer_def Let_def split: option.splits if_splits)
next
  case (outvoted el r qs answer now r')
  then show ?thesis by (auto simp: count_answer_def Let_def dest!: step_down_peers split: option.splits if_splits)
next
  case (handed_over r trm sent r' res)
  then show ?thesis by (auto simp: finish_transfer_def dest!: step_down_peers split: sum.splits)
qed (auto simp: finish_election_sel)

lemma count_answer_sel:
  "count_answer K C t now (q, Some v) votes n = Some (r, Counted votes') \<Longrightarrow>
     r = saw_peer now q n \<and> votes' = (if vote_granted v then Suc votes else votes)"
  "count_answer K C t now (q, Some v) votes n = Some (r, Outvoted) \<Longrightarrow> step_down K C (vres_term v) (saw_peer now q n) = Some r"
  by (auto simp: count_answer_def Let_def split: if_splits)

lemma heartbeat_answer_sel:
  "heartbeat_answer K C now q sent ar n = Some r \<Longrightarrow>
     (if sent < aer_term ar then step_down K C (aer_term ar) (saw_peer now q n) = Some r else r = saw_peer now q n)"
  by (auto simp: heartbeat_answer_def Let_def split: if_splits)

section \<open>The simulation\<close>

text \<open>An answer of a higher term: the node notes the peer and steps down.\<close>

lemma stepped_down:
  assumes i: "i \<in> cluster_ids cf" and "step_down K C t (saw_peer now q (raft_of s i)) = Some (p_raft p)"
    and "current_term (rn_state (raft_of s i)) < t" and "t \<le> u64_max"
  shows "simulated K C X cf (view L s) (view L (put i p s))"
proof -
  let ?m = "saw_peer now q (raft_of s i)"
  have "same_core (cl_node (view L s) i) ?m" by (simp add: same_core_def)
  moreover have "cluster_step K C X cf (set_node i ?m (view L s)) (set_node i (p_raft p) (set_node i ?m (view L s)))"
    by (rule cluster_step.higher_term [OF i _ assms(4)]) (use assms(2,3) in \<open>simp_all add: set_node_def\<close>)
  ultimately show ?thesis unfolding view_put by (rule touched_then [OF i])
qed

lemma restarted:
  assumes i: "i \<in> cluster_ids cf" and db: "rn_storage (raft_of s i) = Some db" "data_dir (rn_config (raft_of s i)) = Some dir"
    and n: "node_new K C (\<lambda>_. db) now (rn_config (raft_of s i)) = Some n"
  shows "simulated K C X cf (view L s) (view L (put i (process_start dial has_tls ms now n) s))"
proof -
  let ?m = "restore_snapshot_for_scheduler (nd_raft n)"
  let ?c1 = "set_node i (nd_raft n) (view L s)" and ?c2 = "set_node i ?m (view L s)"
  have "cluster_step K C X cf (view L s) ?c1"
    by (rule cluster_step.crash [OF i, where db = db and now = now]) (use db node_new_sel(3) [OF n db(2)] in simp_all)
  moreover have "idle K C X cf ?c1 (set_node i ?m ?c1)"
    by (rule touch_idle [OF i]) (simp add: set_node_def same_core_def restore_snapshot_for_scheduler_def split: option.split)
  moreover have "idle K C X cf ?c2 (set_node i (connect_to_peers dial has_tls ?m) ?c2)"
    using connect_idle [OF i, of K C X ?c2 dial has_tls] by (simp add: set_node_def)
  ultimately have "simulated K C X cf (view L s) (set_node i (connect_to_peers dial has_tls ?m) (view L s))"
    unfolding set_node_again by (rule simulated_after [OF simulated_after [OF simulated_step]])
  then show ?thesis by (simp add: view_put process_start_sel)
qed

lemma vote_counted:
  assumes i: "i \<in> cluster_ids cf" and ok: "election_ok s i el" and "el_peers el = []"
    and p: "p_raft p = finish_election (vr_term (el_request el)) (el_votes el) (raft_of s i)"
  shows "\<exists>L'. simulated K C X cf (view L s) (view L' (put i p s))"
proof -
  from ok assms(3) obtain P where P: "P \<subseteq> set (peers (raft_of s i))" "el_votes el = Suc (card P)"
    "\<forall>q \<in> P. (q, el_request el) \<in> grants_of (sy_vote_answers s)" by (auto simp: election_ok_def)
  let ?L = "(if role (rn_state (p_raft p)) = Leader then insert (current_term (rn_state (p_raft p)), i) else id) L"
  have req: "el_request el \<in> cl_requests (view L s)" "vr_candidate_id (el_request el) = i" using ok by (simp_all add: election_ok_def)
  have "cluster_step K C X cf (view L s) ((set_node i (p_raft p) (view L s))\<lparr>cl_leaders := ?L\<rparr>)"
    using cluster_step.count [OF i req, of P "p_raft p" K C X] P p by simp
  moreover have "view ?L (put i p s) = (set_node i (p_raft p) (view L s))\<lparr>cl_leaders := ?L\<rparr>"
    by (rule cluster.equality) (auto simp: set_node_def)
  ultimately show ?thesis by (metis simulated_step)
qed

lemma direct: "cluster_step K C X cf (view L s) (view L s') \<Longrightarrow> \<exists>L'. simulated K C X cf (view L s) (view L' s')"
  by (blast intro: simulated_step)

lemma step_simulated:
  assumes "system_step K C X simple cf s s'" and ok: "elections_ok cf s"
  shows "\<exists>L'. simulated K C X cf (view L s) (view L' s')"
  using assms(1)
proof cases
  case (task i p)
  with task_simulated [OF task(3,2)] show ?thesis by blast
next
  case (loop i p)
  with loop_simulated [OF loop(3-5,2)] show ?thesis by blast
next
  case (handover_failed i q t)
  show ?thesis unfolding handover_failed(1) by (intro exI, rule unchanged) simp
next
  case (campaign i p req b)
  show ?thesis
    by (rule direct [where L = L])
      (use cluster_step.campaign [OF campaign(2), where c = "view L s" and K = K and C = C and X = X and n = "p_raft p" and req = req] campaign(4,5) in \<open>simp add: campaign(1) view_put view_messages\<close>)
next
  case (vote i req now r v)
  show ?thesis
    by (rule direct [where L = L])
      (use cluster_step.vote [OF vote(2), where c = "view L s" and K = K and C = C and X = X and req = req and n = r and r = v and now = now] vote(3-5) in \<open>simp add: vote(1) view_put view_messages grants_insert\<close>)
next
  case (unanswered i el q qs)
  show ?thesis unfolding unanswered(1) by (intro exI, rule unchanged) simp
next
  case (counted i el q qs v now r votes)
  have "simulated K C X cf (view L s) (view L s')"
    unfolding counted(1) by (rule touched [OF counted(2)]) (use count_answer_sel(1) [OF counted(6)] in \<open>simp add: same_core_def\<close>)
  then show ?thesis by blast
next
  case (outvoted i el q qs v now r)
  have "simulated K C X cf (view L s) (view L s')"
    unfolding outvoted(1) by (rule stepped_down [OF outvoted(2) _ outvoted(6,7), where now = now and q = q]) (use count_answer_sel(2) [OF outvoted(8)] in simp)
  then show ?thesis by blast
next
  case (ended i el)
  have "election_ok s i el" using ok ended(2,3) by (simp add: elections_ok_def)
  from vote_counted [OF ended(2) this ended(4)] show ?thesis unfolding ended(1) by simp
next
  case (heartbeat i m)
  show ?thesis
    by (rule direct [where L = L])
      (use cluster_step.heartbeat [OF heartbeat(2), where c = "view L s" and K = K and C = C and X = X and m = m] heartbeat(3) in \<open>simp add: heartbeat(1) view_messages\<close>)
next
  case (send_entries i q areq)
  show ?thesis
    by (rule direct [where L = L])
      (use cluster_step.send_entries [OF send_entries(2), where c = "view L s" and K = K and C = C and X = X and p = q and req = areq] send_entries(3) in \<open>simp add: send_entries(1) view_messages\<close>)
next
  case (send_snapshot i q sreq)
  show ?thesis
    by (rule direct [where L = L])
      (use cluster_step.send_snapshot [OF send_snapshot(2), where c = "view L s" and K = K and C = C and X = X and p = q and sreq = sreq] send_snapshot(3) in \<open>simp add: send_snapshot(1) view_messages\<close>)
next
  case (append i areq now r ar)
  show ?thesis
    by (rule direct [where L = L])
      (use cluster_step.append [OF append(2), where c = "view L s" and K = K and C = C and X = X and areq = areq and n = r and ar = ar and now = now] append(3,4) in \<open>simp add: append(1) view_put view_messages\<close>)
next
  case (append_ack i q areq ar now r)
  show ?thesis
    by (rule direct [where L = L])
      (use cluster_step.append_ack [OF append_ack(2,5), where c = "view L s" and K = K and C = C and X = X and p = q and n = r and now = now] append_ack(6) in \<open>simp add: append_ack(1) view_put\<close>)
next
  case (heartbeat_ack i q areq ar now r)
  have "simulated K C X cf (view L s) (view L s')"
  proof (cases "ae_term areq < aer_term ar")
    case True
    with heartbeat_ack(6) have "current_term (rn_state (raft_of s i)) < aer_term ar" by simp
    with heartbeat_answer_sel [OF heartbeat_ack(7)] True show ?thesis
      unfolding heartbeat_ack(1) by (intro stepped_down [OF heartbeat_ack(2) _ _ heartbeat_ack(5), where now = now and q = q]) simp_all
  next
    case False
    with heartbeat_answer_sel [OF heartbeat_ack(7)] show ?thesis
      unfolding heartbeat_ack(1) by (intro touched [OF heartbeat_ack(2)]) (simp add: same_core_def)
  qed
  then show ?thesis by blast
next
  case (install i sreq now r sr)
  show ?thesis
    by (rule direct [where L = L])
      (use cluster_step.install [OF install(2), where c = "view L s" and K = K and C = C and X = X and sreq = sreq and n = r and sr = sr and now = now] install(3,4) in \<open>simp add: install(1) view_put view_messages\<close>)
next
  case (snapshot_ack i q sreq sr now r)
  show ?thesis
    by (rule direct [where L = L])
      (use cluster_step.snapshot_ack [OF snapshot_ack(2,5), where c = "view L s" and K = K and C = C and X = X and p = q and n = r and now = now and idx = "is_last_included_index sreq"] snapshot_ack(6) in \<open>simp add: snapshot_ack(1) view_put\<close>)
next
  case (connect i dial has_tls)
  show ?thesis
    by (rule direct [where L = L])
      (use cluster_step.connect [OF connect(2) refl, where c = "view L s" and K = K and C = C and X = X and dial = dial and has_tls = has_tls]  in \<open>simp add: connect(1) view_put\<close>)
next
  case (crash i db dir now n dial has_tls ms)
  from restarted [OF crash(2-5)] show ?thesis unfolding crash(1) by blast
qed

text \<open>Elections stay as they should be.\<close>

lemma same_peers_keep:
  assumes "elections_ok cf s" and "sy_process s' = (sy_process s)(i := p)" and "peers (p_raft p) = peers (raft_of s i)"
    and "sy_votes s \<subseteq> sy_votes s'" and "sy_vote_answers s \<subseteq> sy_vote_answers s'"
    and "set (p_elections p) \<subseteq> set (p_elections (sy_process s i))"
  shows "elections_ok cf s'"
  by (rule elections_keep [OF assms(1,4,5,2)]) (use assms(3,6) in auto)

lemma messages_keep:
  "elections_ok cf s \<Longrightarrow> sy_process s' = sy_process s \<Longrightarrow> sy_votes s' = sy_votes s \<Longrightarrow> sy_vote_answers s' = sy_vote_answers s \<Longrightarrow>
   elections_ok cf s'"
  by (simp add: elections_ok_def election_ok_def)

lemma campaign_keeps:
  assumes ok: "elections_ok cf s" and K: "kv_laws K" "serde_laws C" and m: "member_ok cf i (raft_of s i)"
    and "current_term (rn_state (raft_of s i)) < u64_max" and "begin_election K C (raft_of s i) = Some (p_raft p, req)"
    and "p_elections p = \<lparr>el_request = req, el_peers = peers (p_raft p), el_votes = 1, el_by_timer = b\<rparr> # p_elections (sy_process s i)"
  shows "elections_ok cf ((put i p s)\<lparr>sy_votes := insert req (sy_votes s)\<rparr>)"
proof -
  note b = begin_election_votes [OF assms(6) K assms(5)]
  let ?s = "(put i p s)\<lparr>sy_votes := insert req (sy_votes s)\<rparr>"
  let ?el = "\<lparr>el_request = req, el_peers = peers (p_raft p), el_votes = 1, el_by_timer = b\<rparr>"
  have "election_ok ?s i ?el" using m b(5,9) by (auto simp: election_ok_def member_ok_def intro!: exI [of _ "{}"])
  with assms(7) b(5) show ?thesis by (intro elections_keep [OF ok, of _ i p]) auto
qed

lemma counting_keeps:
  assumes ok: "elections_ok cf s" and i: "i \<in> cluster_ids cf" and el: "el \<in> set (p_elections (sy_process s i))" "el_peers el = q # qs"
    and "peers r = peers (raft_of s i)" and "votes = (if counts then Suc (el_votes el) else el_votes el)"
    and "counts \<Longrightarrow> (q, el_request el) \<in> grants_of (sy_vote_answers s)"
  shows "elections_ok cf (put i ((set_raft r (sy_process s i))\<lparr>p_elections :=
    el\<lparr>el_peers := qs, el_votes := votes\<rparr> # remove1 el (p_elections (sy_process s i))\<rparr>) s)"
proof -
  let ?p = "(set_raft r (sy_process s i))\<lparr>p_elections := el\<lparr>el_peers := qs, el_votes := votes\<rparr> # remove1 el (p_elections (sy_process s i))\<rparr>"
  have "election_ok s i el" using ok i el(1) by (simp add: elections_ok_def)
  then have "election_ok (put i ?p s) i (el\<lparr>el_peers := qs, el_votes := votes\<rparr>)"
    by (rule peer_answered [OF _ el(2) _ _ _ assms(6,7)]) (simp_all add: assms(5))
  then show ?thesis using assms(5) set_remove1_subset [of el "p_elections (sy_process s i)"]
    by (intro elections_keep [OF ok, of _ i ?p]) auto
qed

lemma answered_peers:
  assumes "kv_laws K" and "serde_laws C"
  shows "handle_vote_request K C now req n = Some (r, v) \<Longrightarrow> peers r = peers n"
    and "handle_append_entries_node K C X now areq n = Some (r, ar) \<Longrightarrow> peers r = peers n"
    and "handle_install_snapshot_node K C X now sreq n = Some (r, sr) \<Longrightarrow> peers r = peers n"
    and "append_answer K C now q ar n = Some r \<Longrightarrow> peers r = peers n"
    and "snapshot_answer K C now q idx sr n = Some r \<Longrightarrow> peers r = peers n"
    and "heartbeat_answer K C now q sent ar n = Some r \<Longrightarrow> peers r = peers n"
proof -
  show "handle_vote_request K C now req n = Some (r, v) \<Longrightarrow> peers r = peers n" by (rule vote_request_sel(4))
  show "handle_append_entries_node K C X now areq n = Some (r, ar) \<Longrightarrow> peers r = peers n" by (rule append_entries_node_sel(3))
  show "handle_install_snapshot_node K C X now sreq n = Some (r, sr) \<Longrightarrow> peers r = peers n"
    by (rule quiet_peers [OF install_snapshot_node_sel(2) [OF _ assms]])
  show "append_answer K C now q ar n = Some r \<Longrightarrow> peers r = peers n" by (rule quiet_peers [OF append_answer_quiet [OF assms]])
  show "snapshot_answer K C now q idx sr n = Some r \<Longrightarrow> peers r = peers n" by (rule quiet_peers [OF snapshot_answer_quiet [OF assms]])
  show "heartbeat_answer K C now q sent ar n = Some r \<Longrightarrow> peers r = peers n"
    by (drule heartbeat_answer_sel) (auto dest: step_down_peers split: if_splits)
qed

lemma step_elections:
  assumes "system_step K C X simple cf s s'" and ok: "elections_ok cf s" and K: "kv_laws K" "serde_laws C"
    and m: "\<And>i. i \<in> cluster_ids cf \<Longrightarrow> member_ok cf i (raft_of s i)"
  shows "elections_ok cf s'"
  using assms(1)
proof cases
  case (task i p)
  with task_step_peers [OF task(3)] show ?thesis by (intro same_peers_keep [OF ok, where i = i and p = p]) simp_all
next
  case (loop i p)
  with loop_step_peers [OF loop(3) K(1)] show ?thesis by (intro same_peers_keep [OF ok, where i = i and p = p]) simp_all
next
  case (campaign i p req b)
  from campaign_keeps [OF ok K m [OF campaign(2)] campaign(4-6)] show ?thesis unfolding campaign(1) .
next
  case (unanswered i el q qs)
  from counting_keeps [OF ok unanswered(2-4) refl, of "el_votes el" False] show ?thesis
    unfolding unanswered(1) by (simp add: set_raft_def)
next
  case (counted i el q qs v now r votes)
  have "(q, el_request el) \<in> grants_of (sy_vote_answers s)" if "vote_granted v" using that counted(5) by (auto simp: grants_of_def)
  with count_answer_sel(1) [OF counted(6)] show ?thesis
    unfolding counted(1) by (intro counting_keeps [OF ok counted(2-4), where counts = "vote_granted v"]) auto
next
  case (outvoted i el q qs v now r)
  with step_down_peers [OF count_answer_sel(2) [OF outvoted(8)]] show ?thesis
    by (intro same_peers_keep [OF ok, where i = i and p = "sy_process s' i"]) (simp_all add: set_remove1_subset)
next
  case (ended i el)
  then show ?thesis by (intro same_peers_keep [OF ok, where i = i and p = "sy_process s' i"]) (simp_all add: set_remove1_subset finish_election_sel)
next
  case (handover_failed i q t)
  then show ?thesis by (intro same_peers_keep [OF ok, where i = i and p = "sy_process s' i"]) simp_all
next
  case (vote i req now r v)
  with answered_peers(1) [OF K vote(5)] show ?thesis by (intro same_peers_keep [OF ok, where i = i and p = "sy_process s' i"]) auto
next
  case (append i areq now r ar)
  with answered_peers(2) [OF K append(4)] show ?thesis by (intro same_peers_keep [OF ok, where i = i and p = "sy_process s' i"]) simp_all
next
  case (append_ack i q areq ar now r)
  with answered_peers(4) [OF K append_ack(6)] show ?thesis by (intro same_peers_keep [OF ok, where i = i and p = "sy_process s' i"]) simp_all
next
  case (heartbeat_ack i q areq ar now r)
  with answered_peers(6) [OF K heartbeat_ack(7)] show ?thesis by (intro same_peers_keep [OF ok, where i = i and p = "sy_process s' i"]) simp_all
next
  case (install i sreq now r sr)
  with answered_peers(3) [OF K install(4)] show ?thesis by (intro same_peers_keep [OF ok, where i = i and p = "sy_process s' i"]) simp_all
next
  case (snapshot_ack i q sreq sr now r)
  with answered_peers(5) [OF K snapshot_ack(6)] show ?thesis by (intro same_peers_keep [OF ok, where i = i and p = "sy_process s' i"]) simp_all
next
  case (connect i dial has_tls)
  then show ?thesis using connect_peers [of "raft_of s i" dial has_tls] by (intro elections_keep [OF ok, where i = i and p = "sy_process s' i"]) simp_all
next
  case (crash i db dir now n dial has_tls ms)
  then have "sy_process s' = (sy_process s)(i := process_start dial has_tls ms now n)" "sy_votes s' = sy_votes s"
    "sy_vote_answers s' = sy_vote_answers s" by simp_all
  with ok show ?thesis by (auto simp: elections_ok_def election_ok_def process_start_sel)
qed (auto intro!: messages_keep [OF ok])

section \<open>What holds of running nodes\<close>

lemma fresh_raft:
  assumes "kv_laws K" and "kv_available K C" and "node_new K C open_db now config = Some n"
    and "\<forall>dir k. data_dir config = Some dir \<longrightarrow> contents K (open_db dir) k = None"
  obtains st where "nd_raft n = new_with_storage config st None now" and "\<And>db k. st = Some db \<Longrightarrow> contents K db k = None"
proof (cases "data_dir config")
  case None
  from that [OF node_new_sel(4) [OF assms(3) None]] show ?thesis by simp
next
  case (Some dir)
  have "load_state K C (open_db dir) = Some None" using assms(4) Some by (intro load_state_fresh [OF assms(1,2)]) simp
  with node_new_sel(3) [OF assms(3) Some] have "nd_raft n = new_with_storage config (Some (open_db dir)) None now"
    by (simp add: restart_def)
  then show ?thesis by (rule that) (use assms(4) Some in auto)
qed

lemma started_member:
  assumes n: "nd_raft n = new_with_storage config st None now" and "config_wf config" and "cluster_ids config = cluster_ids cf"
  shows "member_ok cf (nc_node_id config) (p_raft (process_start dial has_tls ms now n))"
    and "rn_state (p_raft (process_start dial has_tls ms now n)) = raft_new"
    and "rn_storage (p_raft (process_start dial has_tls ms now n)) = st"
proof -
  have r: "restore_snapshot_for_scheduler (nd_raft n) = nd_raft n"
    by (simp add: n restore_snapshot_for_scheduler_def new_with_storage_def restored_state_def raft_new_def)
  have "member_ok cf (nc_node_id config) (nd_raft n)" using assms by (simp add: member_ok_def new_with_storage_def)
  from connect_fold_keeps [OF this subset_refl, of dial has_tls, folded connect_to_peers_def]
  show "member_ok cf (nc_node_id config) (p_raft (process_start dial has_tls ms now n))"
    and "rn_state (p_raft (process_start dial has_tls ms now n)) = raft_new"
    and "rn_storage (p_raft (process_start dial has_tls ms now n)) = st"
    unfolding process_start_sel r by (simp_all add: n new_with_storage_def restored_state_def)
qed

lemma started_system:
  assumes "system_start K C cf s" and "kv_laws K" and "kv_available K C"
  shows "initial K cf (view {} s)" and "elections_ok cf s"
proof -
  have "member_ok cf i (raft_of s i) \<and> rn_state (raft_of s i) = raft_new \<and>
      (\<forall>db. rn_storage (raft_of s i) = Some db \<longrightarrow> (\<forall>k. contents K db k = None)) \<and> p_elections (sy_process s i) = []"
    if "i \<in> cluster_ids cf" for i
  proof -
    from that assms(1) obtain open_db config now n dial has_tls ms where
      c: "\<forall>dir k. data_dir config = Some dir \<longrightarrow> contents K (open_db dir) k = None" "nc_node_id config = i" "config_wf config"
        "cluster_ids config = cluster_ids cf" "node_new K C open_db now config = Some n" "sy_process s i = process_start dial has_tls ms now n"
      unfolding system_start_def by blast
    from fresh_raft [OF assms(2,3) c(5,1)] obtain st where
      st: "nd_raft n = new_with_storage config st None now" "\<And>db k. st = Some db \<Longrightarrow> contents K db k = None" by blast
    from started_member [OF st(1) c(3,4), of dial has_tls ms] st(2) c(2,6) show ?thesis by (simp add: process_start_sel(7))
  qed
  with assms(1) show "initial K cf (view {} s)" and "elections_ok cf s"
    by (auto simp: initial_def system_start_def elections_ok_def grants_of_def)
qed

lemma idle_reachable: "(idle K C X cf)\<^sup>*\<^sup>* c c' \<Longrightarrow> reachable K C X cf c \<Longrightarrow> reachable K C X cf c'"
  by (induction rule: rtranclp_induct) (auto simp: idle_def intro: reachable.step)

lemma simulated_reachable: "simulated K C X cf c c' \<Longrightarrow> reachable K C X cf c \<Longrightarrow> reachable K C X cf c'"
  by (auto simp: simulated_def dest!: idle_reachable intro: reachable.step)

lemma reachable_members: "reachable K C X cf c \<Longrightarrow> kv_laws K \<Longrightarrow> serde_laws C \<Longrightarrow> i \<in> cluster_ids cf \<Longrightarrow> member_ok cf i (cl_node c i)"
  by (drule (2) inv_reachable) (drule (1) election_invD(1), simp add: node_ok_def)

lemma system_reaches:
  assumes "system_run K C X simple cf s" and K: "kv_laws K" "serde_laws C" "kv_available K C"
  shows "(\<exists>L. reachable K C X cf (view L s)) \<and> elections_ok cf s"
  using assms(1)
proof (induction rule: system_run.induct)
  case (start s)
  with started_system [OF start K(1,3)] show ?case by (blast intro: reachable.start)
next
  case (step s s')
  then obtain L where L: "reachable K C X cf (view L s)" and ok: "elections_ok cf s" by blast
  from step_simulated [OF step(2) ok, of L] obtain L' where "simulated K C X cf (view L s) (view L' s')" by blast
  with L have "reachable K C X cf (view L' s')" by (blast intro: simulated_reachable)
  moreover have "elections_ok cf s'"
    by (rule step_elections [OF step(2) ok K(1,2)]) (use reachable_members [OF L K(1,2)] in simp)
  ultimately show ?case by blast
qed

text \<open>Systems in which no log has been compacted.\<close>

inductive system_run_full :: "'db kv \<Rightarrow> serde \<Rightarrow> ext \<Rightarrow> (uuid \<Rightarrow> string) \<Rightarrow> node_config \<Rightarrow> 'db system \<Rightarrow> bool"
  for K C X simple cf where
  start: "system_start K C cf s \<Longrightarrow> system_run_full K C X simple cf s"
| step: "\<lbrakk>system_run_full K C X simple cf s; system_step K C X simple cf s s'; \<forall>i \<in> cluster_ids cf. full (rn_state (raft_of s' i))\<rbrakk>
    \<Longrightarrow> system_run_full K C X simple cf s'"

lemma system_run_full_run: "system_run_full K C X simple cf s \<Longrightarrow> system_run K C X simple cf s"
  by (induction rule: system_run_full.induct) (auto intro: system_run.intros)

lemma idle_uncompacted: "idle K C X cf c c' \<Longrightarrow> uncompacted cf c' = uncompacted cf c"
  by (simp add: idle_def uncompacted_def fun_eq_iff)

lemma idle_full: "(idle K C X cf)\<^sup>*\<^sup>* c c' \<Longrightarrow> uncompacted cf c' = uncompacted cf c"
  by (induction rule: rtranclp_induct) (simp_all add: idle_uncompacted)

lemma idle_reachable_full: "(idle K C X cf)\<^sup>*\<^sup>* c c' \<Longrightarrow> reachable_full K C X cf c \<Longrightarrow> reachable_full K C X cf c'"
proof (induction rule: rtranclp_induct)
  case (step a b)
  then have "reachable_full K C X cf a" "cluster_step K C X cf a b" "uncompacted cf b"
    using reachable_full_uncompacted [of K C X cf a] idle_uncompacted [OF step(2)] by (auto simp: idle_def)
  then show ?case by (rule reachable_full.step)
qed

lemma simulated_reachable_full:
  assumes "simulated K C X cf c c'" and "reachable_full K C X cf c" and "uncompacted cf c'"
  shows "reachable_full K C X cf c'"
proof -
  from assms(1) obtain a b where a: "(idle K C X cf)\<^sup>*\<^sup>* c a" and b: "b = a \<or> cluster_step K C X cf a b" and c': "(idle K C X cf)\<^sup>*\<^sup>* b c'"
    unfolding simulated_def by blast
  have "reachable_full K C X cf a" by (rule idle_reachable_full [OF a assms(2)])
  moreover have "uncompacted cf b" using idle_full [OF c'] assms(3) by simp
  ultimately have "reachable_full K C X cf b" using b by (auto intro: reachable_full.step)
  from idle_reachable_full [OF c' this] show ?thesis .
qed

lemma system_reaches_full:
  assumes "system_run_full K C X simple cf s" and K: "kv_laws K" "serde_laws C" "kv_available K C"
  shows "\<exists>L. reachable_full K C X cf (view L s)"
  using assms(1)
proof (induction rule: system_run_full.induct)
  case (start s)
  from started_system(1) [OF start K(1,3)] show ?case by (blast intro: reachable_full.start)
next
  case (step s s')
  then obtain L where L: "reachable_full K C X cf (view L s)" by blast
  have "elections_ok cf s" using system_reaches [OF system_run_full_run [OF step(1)] K] by blast
  from step_simulated [OF step(2) this, of L] obtain L' where "simulated K C X cf (view L s) (view L' s')" by blast
  from simulated_reachable_full [OF this L] step(3) show ?case by (auto simp: uncompacted_def)
qed

section \<open>Three running nodes\<close>

text \<open>A node of three as it starts, connected to the others and without a data directory.\<close>

lemma trio_in_memory: "data_dir (trio_config i) = None"
  by (simp add: trio_config_def config_default_def Let_def)

definition trio_process :: "node_id \<Rightarrow> (bytes, bytes) fmap process" where
  "trio_process i = process_start (\<lambda>_. Dial_Both) False 150 0
     \<lparr>nd_raft = new_with_storage (trio_config i) None None 0, nd_queue = queue_new, nd_assigner = assigner_new 5000,
      nd_job_notify = False, nd_worker_notify = False, nd_draining = False\<rparr>"

definition trio_system :: "(bytes, bytes) fmap system" where
  "trio_system = \<lparr>sy_process = trio_process, sy_votes = {}, sy_vote_answers = {}, sy_appends = {}, sy_append_answers = {},
     sy_snapshots = {}, sy_snapshot_answers = {}\<rparr>"

lemma trio_process_sel:
  "rn_state (p_raft (trio_process i)) = raft_new" "rn_storage (p_raft (trio_process i)) = None"
  "rn_config (p_raft (trio_process i)) = trio_config i" "p_loop (trio_process i) = LoopIdle" "p_elections (trio_process i) = []"
  "p_timeout (trio_process i) = 150" "last_heartbeat (p_raft (trio_process i)) = 0"
proof -
  let ?n = "new_with_storage (trio_config i) None None 0 :: (bytes, bytes) fmap raft_node"
  have r: "restore_snapshot_for_scheduler ?n = ?n"
    by (simp add: restore_snapshot_for_scheduler_def new_with_storage_def restored_state_def raft_new_def)
  have h: "last_heartbeat (foldl (connect_to_peer (\<lambda>_. Dial_Both) False) n ps) = last_heartbeat n" for n :: "(bytes, bytes) fmap raft_node" and ps
    by (induction ps arbitrary: n) (simp_all add: connect_to_peer_def)
  show "rn_state (p_raft (trio_process i)) = raft_new" "rn_storage (p_raft (trio_process i)) = None"
    "rn_config (p_raft (trio_process i)) = trio_config i" "p_loop (trio_process i) = LoopIdle" "p_elections (trio_process i) = []"
    by (simp_all add: trio_process_def process_start_sel r) (simp_all add: new_with_storage_def restored_state_def)
  show "last_heartbeat (p_raft (trio_process i)) = 0"
    by (simp add: trio_process_def process_start_sel r connect_to_peers_def h) (simp add: new_with_storage_def)
  show "p_timeout (trio_process i) = 150" by (simp add: trio_process_def process_start_def Let_def split_beta)
qed

lemma trio_process_peers: "peers (p_raft (trio_process 1)) = [2, 3]"
proof -
  let ?n = "new_with_storage (trio_config 1) None None 0 :: (bytes, bytes) fmap raft_node"
  have r: "restore_snapshot_for_scheduler ?n = ?n"
    by (simp add: restore_snapshot_for_scheduler_def new_with_storage_def restored_state_def raft_new_def)
  have "peers ?n = []" "nc_peers (rn_config ?n) = [\<lparr>pc_node_id = 2, pc_addr = []\<rparr>, \<lparr>pc_node_id = 3, pc_addr = []\<rparr>]"
    by (simp_all add: new_with_storage_def trio_config_def)
  then show ?thesis by (simp add: trio_process_def process_start_sel r [simplified] connect_to_peers_def connect_to_peer_def)
qed

lemma trio_started: "system_start kv_mem serde_unary (trio_config 1) trio_system"
proof -
  have "config_wf (trio_config i) \<and> cluster_ids (trio_config i) = {1, 2, 3}" if "i \<in> {1, 2, 3}" for i
    using that by (auto simp: config_wf_def cluster_ids_def)
  moreover have "node_new kv_mem serde_unary (\<lambda>_. fmempty) 0 (trio_config i) =
      Some \<lparr>nd_raft = new_with_storage (trio_config i) None None 0, nd_queue = queue_new, nd_assigner = assigner_new 5000,
        nd_job_notify = False, nd_worker_notify = False, nd_draining = False\<rparr>" for i
    by (simp add: node_new_def trio_in_memory)
  ultimately show ?thesis
    unfolding system_start_def trio_ids by (auto simp: trio_system_def trio_process_def trio_in_memory)
      (metis insertCI trio_in_memory option.distinct(1) trio_node(6))+
qed

text \<open>Node 1 times out and asks, and node 2 votes for it.\<close>

abbreviation trio_election :: "node_id list \<Rightarrow> u64 \<Rightarrow> election" where
  "trio_election ps v \<equiv> \<lparr>el_request = ballot 1 raft_new, el_peers = ps, el_votes = v, el_by_timer = True\<rparr>"

abbreviation trio_grant :: vote_response where
  "trio_grant \<equiv> \<lparr>vres_term = 1, vote_granted = True\<rparr>"

lemma trio_ballot: "vr_term (ballot 1 raft_new) = 1" "vr_candidate_id (ballot 1 raft_new) = 1"
  by (simp_all add: ballot_def raft_new_def)

lemma trio_system_asked:
  "\<exists>s. system_run kv_mem serde_unary X simple (trio_config 1) s \<and> p_elections (sy_process s 1) = [trio_election [2, 3] 1] \<and>
     rn_state (raft_of s 1) = become_candidate 1 raft_new \<and> rn_config (raft_of s 1) = trio_config 1 \<and>
     voted_for (rn_state (raft_of s 2)) = Some 1 \<and> (2, ballot 1 raft_new, trio_grant) \<in> sy_vote_answers s"
proof -
  let ?run = "system_run kv_mem serde_unary X simple (trio_config 1)"
  let ?req = "ballot 1 raft_new"
  note sel = trio_process_sel trio_process_peers
  define r where "r = (p_raft (trio_process 1))\<lparr>rn_state := become_candidate 1 raft_new\<rparr>"
  define p where "p = (set_raft r (trio_process 1))\<lparr>p_loop := LoopElection, p_elections := [trio_election [2, 3] 1]\<rparr>"
  define s1 where "s1 = (put 1 p trio_system)\<lparr>sy_votes := insert ?req (sy_votes trio_system)\<rparr>"
  have ids: "(1::node_id) \<in> cluster_ids (trio_config 1)" "(2::node_id) \<in> cluster_ids (trio_config 1)" by simp_all
  have proc: "sy_process trio_system = trio_process" by (simp add: trio_system_def)
  have b: "begin_election kv_mem serde_unary (p_raft (trio_process 1)) = Some (r, ?req)"
    using memory_campaign [of "p_raft (trio_process 1)" kv_mem serde_unary]
    by (simp add: sel [simplified] r_def) (simp add: raft_new_def u64_max_def)
  have l: "loop_step kv_mem serde_unary (trio_process 1) p"
    using loop_step.timer [of "trio_process 1" "150 * ns_per_ms", OF _ _ _ b]
    by (simp add: p_def r_def sel [simplified]) (simp add: raft_new_def)
  have run1: "?run s1" unfolding s1_def
    by (rule system_run.step [OF system_run.start [OF trio_started]], rule system_step.campaign [OF ids(1), where b = True])
      (use l b in \<open>simp_all add: proc p_def r_def sel [simplified]\<close>, simp_all add: raft_new_def u64_max_def)
  define r2 where "r2 = (p_raft (trio_process 2))\<lparr>rn_state := (become_follower 1 raft_new)\<lparr>voted_for := Some 1\<rparr>, last_heartbeat := 0\<rparr>"
  define s2 where "s2 = (put 2 (set_raft r2 (sy_process s1 2)) s1)\<lparr>sy_vote_answers := insert (2, ?req, trio_grant) (sy_vote_answers s1)\<rparr>"
  have "handle_vote_request kv_mem serde_unary 0 ?req (raft_of s1 2) = Some (r2, trio_grant)"
    using memory_vote [of "p_raft (trio_process 2)" ?req kv_mem serde_unary 0]
    by (simp add: s1_def proc r2_def trio_ballot [simplified] sel [simplified])
      (simp add: ballot_def raft_new_def log_le_def last_log_index_def last_log_term_def)
  then have "?run s2" unfolding s2_def
    by (intro system_run.step [OF run1] system_step.vote [OF ids(2)]) (simp_all add: s1_def trio_ballot [simplified])
  then show ?thesis
    by (intro exI [of _ s2]) (simp add: s2_def s1_def p_def r_def r2_def sel [simplified])
qed

text \<open>Node 1 counts that vote, node 3 does not answer, and node 1 leads.\<close>

lemma trio_system_led:
  "\<exists>s. system_run kv_mem serde_unary X simple (trio_config 1) s \<and> is_leader (raft_of s 1) \<and>
     current_term (rn_state (raft_of s 1)) = 1 \<and> voted_for (rn_state (raft_of s 2)) = Some 1"
proof -
  let ?run = "system_run kv_mem serde_unary X simple (trio_config 1)"
  from trio_system_asked obtain s where s: "?run s" "p_elections (sy_process s 1) = [trio_election [2, 3] 1]"
    "rn_state (raft_of s 1) = become_candidate 1 raft_new" "rn_config (raft_of s 1) = trio_config 1"
    "voted_for (rn_state (raft_of s 2)) = Some 1" "(2, ballot 1 raft_new, trio_grant) \<in> sy_vote_answers s" by blast
  define r where "r = saw_peer 0 2 (raft_of s 1)"
  define p where "p ps = (set_raft r (sy_process s 1))\<lparr>p_elections := [trio_election ps 2]\<rparr>" for ps
  have i: "(1::node_id) \<in> cluster_ids (trio_config 1)" by simp
  note s' = s(2-4,6) [simplified] trio_ballot [simplified]
  have "system_step kv_mem serde_unary X simple (trio_config 1) s (put 1 (p [3]) s)"
    using system_step.counted [OF i, of "trio_election [2, 3] 1" s 2 "[3]" trio_grant kv_mem serde_unary 0 r 2 X simple]
    by (simp add: s' p_def count_answer_def r_def)
  from system_run.step [OF s(1) this] have run: "?run (put 1 (p [3]) s)" .
  have "system_step kv_mem serde_unary X simple (trio_config 1) (put 1 (p [3]) s) (put 1 (p []) (put 1 (p [3]) s))"
    using system_step.unanswered [OF i, of "trio_election [3] 2" "put 1 (p [3]) s" 3 "[]" kv_mem serde_unary X simple]
    by (simp add: p_def)
  from system_run.step [OF run this] have run: "?run (put 1 (p []) (put 1 (p [3]) s))" .
  let ?s = "put 1 (p []) (put 1 (p [3]) s)"
  define q where "q = (set_raft (finish_election 1 2 r) (sy_process ?s 1))\<lparr>p_elections := [], p_loop := LoopIdle\<rparr>"
  have "system_step kv_mem serde_unary X simple (trio_config 1) ?s (put 1 q ?s)"
    using system_step.ended [OF i, of "trio_election [] 2" ?s kv_mem serde_unary X simple] by (simp add: q_def p_def s')
  from system_run.step [OF run this] have run: "?run (put 1 q ?s)" .
  have "majority_of r = 2" by (simp add: r_def majority_of_def saw_peer_def s' trio_config_def)
  then have "is_leader (p_raft q)" "current_term (rn_state (p_raft q)) = 1"
    by (simp_all add: q_def finish_election_def r_def saw_peer_def s' is_leader_def become_candidate_def become_leader_def
        raft_new_def u64_inc_small u64_max_def Let_def)
  with run s(5) show ?thesis by (intro exI [of _ "put 1 q ?s"]) simp
qed

section \<open>What holds of running nodes\<close>



text \<open>C16: Election Safety of running nodes. In such a system, with the same steps left out, two running nodes that lead in the
  same term are the same node.\<close>

theorem running_leaders_unique:
  assumes "kv_laws K" and "serde_laws C" and "kv_available K C" and "system_run K C X simple cf s"
    and "i \<in> cluster_ids cf" and "j \<in> cluster_ids cf" and "is_leader (p_raft (sy_process s i))" and "is_leader (p_raft (sy_process s j))"
    and "current_term (rn_state (p_raft (sy_process s i))) = current_term (rn_state (p_raft (sy_process s j)))"
  shows "i = j"
proof -
  from system_reaches [OF assms(4,1-3)] obtain L where "reachable K C X cf (view L s)" by blast
  from inv_reachable [OF this assms(1,2)] have inv: "election_inv K C cf (view L s)" .
  from election_invD(1) [OF inv assms(5)] election_invD(1) [OF inv assms(6)] assms(7-9) show ?thesis
    by (intro election_invD(5) [OF inv, of "current_term (rn_state (raft_of s i))"]) (simp_all add: node_ok_def is_leader_def)
qed

theorem running_leaders_unique_witness:
  "\<exists>s. system_run kv_mem serde_unary ext_unary show_nat (trio_config 1) s \<and> is_leader (raft_of s 1) \<and>
     \<not> (is_leader (raft_of s 2) \<and> current_term (rn_state (raft_of s 2)) = current_term (rn_state (raft_of s 1)))"
proof -
  from trio_system_led obtain s where s: "system_run kv_mem serde_unary ext_unary show_nat (trio_config 1) s" "is_leader (raft_of s 1)"
    by blast
  from running_leaders_unique [OF kv_mem_laws serde_unary_laws kv_mem_available s(1), of 1 2] s show ?thesis by fastforce
qed

text \<open>Log Matching of running nodes. While no log has been compacted, if the logs of two running nodes have entries of the
  same term at an index, the logs are the same up to it, as far as the wire format keeps an entry.\<close>

theorem running_logs_match:
  assumes "kv_laws K" and "serde_laws C" and "kv_available K C" and "uuid_laws X" and "chrono_laws X"
    and "system_run_full K C X simple cf s" and "i \<in> cluster_ids cf" and "j \<in> cluster_ids cf"
    and "get_entry (rn_state (p_raft (sy_process s i))) k = Some e" and "get_entry (rn_state (p_raft (sy_process s j))) k = Some f"
    and "le_term e = le_term f"
  shows "map (norm_entry X) (take k (rlog (rn_state (p_raft (sy_process s i))))) =
    map (norm_entry X) (take k (rlog (rn_state (p_raft (sy_process s j)))))"
proof -
  from system_reaches_full [OF assms(6,1-3)] obtain L where L: "reachable_full K C X cf (view L s)" by blast
  from same_prefix [OF assms(1-5) L assms(7,8)] assms(9-11) show ?thesis by simp
qed

end
