(* ===== verification/Cli_Output.thy ===== *)
theory Cli_Output
  imports Cli
begin

text \<open>
  What the commands of the command line tool print (\<open>render\<close> and its callers in \<open>src/main.rs\<close>), in both formats, and
  the dispatch of \<open>main\<close>. The writer of JSON (serde_json) is an argument, and so are the calls to the server. Lines
  on the error stream that only report progress are left out.
\<close>

section \<open>Formatting\<close>

text \<open>The width of a format counts characters: bytes that do not continue one.\<close>

definition char_count :: "string \<Rightarrow> nat" where
  "char_count s = length (filter (\<lambda>c. \<not> continuation c) s)"

definition left :: "nat \<Rightarrow> string \<Rightarrow> string" where
  "left width s = s @ replicate (width - char_count s) (CHR '' '')"

text \<open>\<open>str::lines\<close>: an end of line is a newline, with a carriage return before it or not.\<close>

definition strip_cr :: "string \<Rightarrow> string" where
  "strip_cr l = (if l \<noteq> [] \<and> last l = CHR 0x0D then butlast l else l)"

definition str_lines :: "string \<Rightarrow> string list" where
  "str_lines s =
     (let ls = split_on (CHR 0x0A) s in map strip_cr (butlast ls) @ (if last ls = [] then [] else [last ls]))"

definition rule_line :: "nat \<Rightarrow> char \<Rightarrow> string" where
  "rule_line n c = replicate n c"

section \<open>Tables\<close>

definition submit_text :: "submit_response \<Rightarrow> string list" where
  "submit_text r = [''Job submitted successfully!'', ''Job ID: '' @ sr_job_id r]"

definition cancel_text :: "cancel_response \<Rightarrow> string list" where
  "cancel_text r = [cn_message r]"

definition status_text :: "job_status_output \<Rightarrow> string list" where
  "status_text out =
     (let r = jso_response out in
      [''Job ID:          '' @ js_job_id r, ''Status:          '' @ jso_status out] @
      (case js_exit_code r of Some c \<Rightarrow> [''Exit Code:       '' @ show_i32 c] | None \<Rightarrow> []) @
      (if 0 < js_assigned_worker r then [''Assigned Worker: '' @ show_nat (js_assigned_worker r)] else []) @
      (if 0 < js_executed_by r then [''Executed By:     '' @ show_nat (js_executed_by r)] else []) @
      (if js_output r \<noteq> [] then ''Output:'' # map (\<lambda>l. ''  '' @ l) (str_lines (js_output r)) else []) @
      (if js_error r \<noteq> [] then ''Error:'' # map (\<lambda>l. ''  '' @ l) (str_lines (js_error r)) else []))"

definition job_row :: "job_list_item \<Rightarrow> string option" where
  "job_row j =
     map_option (\<lambda>cmd. left 38 (jl_job_id j) @ '' '' @ left 12 (jl_status j) @ '' '' @
         left 8 (if 0 < jl_assigned_worker j then show_nat (jl_assigned_worker j) else ''-'') @ '' '' @ cmd)
       (cmd_display (jl_command j))"

text \<open>The rows of a table, \<open>None\<close> where printing one of them panics.\<close>

fun all_rows :: "('a \<Rightarrow> string option) \<Rightarrow> 'a list \<Rightarrow> string list option" where
  "all_rows row [] = Some []"
| "all_rows row (x # xs) = do { r \<leftarrow> row x; rs \<leftarrow> all_rows row xs; Some (r # rs) }"

definition job_table :: "job_list_output \<Rightarrow> string list option" where
  "job_table out =
     (if jlo_jobs out = [] then Some [''No jobs found.'']
      else map_option (\<lambda>rows.
        [left 38 ''JOB ID'' @ '' '' @ left 12 ''STATUS'' @ '' '' @ left 8 ''WORKER'' @ '' COMMAND'', rule_line 78 (CHR ''-'')] @
        rows @ [[], ''Showing '' @ show_nat (length (jlo_jobs out)) @ '' of '' @ show_nat (jlo_total_count out) @ '' jobs''] @
        (if jlo_has_more out then [''(Use --all to fetch all pages)''] else []))
        (all_rows job_row (jlo_jobs out)))"

definition node_row :: "node_info \<Rightarrow> string" where
  "node_row n =
     left 8 (show_nat (ni_node_id n)) @ '' '' @ left 25 (ni_address n) @ '' '' @
     (if ni_is_alive n then ''[+] alive'' else ''[-] dead'')"

definition cluster_table :: "cluster_status_response \<Rightarrow> string list" where
  "cluster_table r =
     [''Cluster Status'', rule_line 40 (CHR ''=''), ''Term:   '' @ show_nat (cs_current_term r),
      ''Leader: Node '' @ show_nat (cs_leader_id r), [], ''Nodes:'', left 8 ''ID'' @ '' '' @ left 25 ''ADDRESS'' @ '' STATUS'',
      rule_line 45 (CHR ''-'')] @ map node_row (cs_nodes r)"

definition log_row :: "log_entry_output \<Rightarrow> string option" where
  "log_row e =
     map_option (\<lambda>d. left 6 (show_nat (leo_index e)) @ '' '' @ left 6 (show_nat (leo_term e)) @ '' '' @
         left 10 (if leo_is_committed e then ''yes'' else ''no'') @ '' '' @ left 20 (leo_command_type e) @ '' '' @ d)
       (details_display (leo_command_details e))"

definition log_table :: "raft_log_output \<Rightarrow> string list option" where
  "log_table out =
     (if rlo_entries out = [] then Some [''No log entries found.'']
      else map_option (\<lambda>rows.
        [''Raft Log Entries'', rule_line 80 (CHR ''='')] @
        (if 1 < rlo_first_available_index out
         then [''First Available: '' @ show_nat (rlo_first_available_index out) @ ''  |  Commit Index: '' @
                 show_nat (rlo_commit_index out) @ ''  |  Last Log Index: '' @ show_nat (rlo_last_log_index out),
               ''(Entries 1-'' @ show_nat (rlo_first_available_index out - 1) @ '' were compacted into a snapshot)'']
         else [''Commit Index: '' @ show_nat (rlo_commit_index out) @ ''  |  Last Log Index: '' @ show_nat (rlo_last_log_index out)]) @
        [[], left 6 ''INDEX'' @ '' '' @ left 6 ''TERM'' @ '' '' @ left 10 ''COMMITTED'' @ '' '' @ left 20 ''TYPE'' @ '' DETAILS'',
         rule_line 80 (CHR ''-'')] @
        rows @ [[], ''Showing '' @ show_nat (length (rlo_entries out)) @ '' entries''])
        (all_rows log_row (rlo_entries out)))"

definition transfer_text :: "transfer_response \<Rightarrow> string list" where
  "transfer_text r = [''Leadership transferred successfully!'', ''New leader: Node '' @ show_nat (tr_new_leader_id r)]"

definition drain_text :: "drain_response \<Rightarrow> string list" where
  "drain_text r = [''Node drained successfully.'', dr_message r]"

section \<open>JSON\<close>

datatype json = JNull | JBool bool | JInt int | JStr string | JArr "json list" | JObj "(string \<times> json) list"

definition jopt :: "('a \<Rightarrow> json) \<Rightarrow> 'a option \<Rightarrow> json" where
  "jopt f x = (case x of Some v \<Rightarrow> f v | None \<Rightarrow> JNull)"

definition submit_json :: "submit_response \<Rightarrow> json" where
  "submit_json r = JObj [(''job_id'', JStr (sr_job_id r)), (''created_at_ms'', JInt (sr_created_at_ms r))]"

definition cancel_json :: "cancel_response \<Rightarrow> json" where
  "cancel_json r = JObj [(''success'', JBool (cn_success r)), (''message'', JStr (cn_message r))]"

definition status_json :: "job_status_output \<Rightarrow> json" where
  "status_json out =
     (let r = jso_response out in
      JObj [(''job_id'', JStr (js_job_id r)), (''status'', JStr (jso_status out)), (''output'', JStr (js_output r)),
        (''error'', JStr (js_error r)), (''assigned_worker'', JInt (int (js_assigned_worker r))),
        (''executed_by'', JInt (int (js_executed_by r))), (''exit_code'', jopt JInt (js_exit_code r)),
        (''created_at_ms'', JInt (js_created_at_ms r)), (''completed_at_ms'', jopt JInt (js_completed_at_ms r))])"

definition job_item_json :: "job_list_item \<Rightarrow> json" where
  "job_item_json j =
     JObj [(''job_id'', JStr (jl_job_id j)), (''status'', JStr (jl_status j)), (''command'', JStr (jl_command j)),
       (''assigned_worker'', JInt (int (jl_assigned_worker j))), (''created_at_ms'', JInt (jl_created_at_ms j))]"

definition jobs_json :: "job_list_output \<Rightarrow> json" where
  "jobs_json out =
     JObj [(''jobs'', JArr (map job_item_json (jlo_jobs out))), (''total_count'', JInt (int (jlo_total_count out))),
       (''has_more'', JBool (jlo_has_more out))]"

definition cluster_json :: "cluster_status_response \<Rightarrow> json" where
  "cluster_json r =
     JObj [(''current_term'', JInt (int (cs_current_term r))), (''leader_id'', JInt (int (cs_leader_id r))),
       (''nodes'', JArr (map (\<lambda>n. JObj [(''node_id'', JInt (int (ni_node_id n))), (''address'', JStr (ni_address n)),
          (''is_alive'', JBool (ni_is_alive n))]) (cs_nodes r)))]"

definition log_json :: "raft_log_output \<Rightarrow> json" where
  "log_json out =
     JObj [(''entries'', JArr (map (\<lambda>e. JObj [(''index'', JInt (int (leo_index e))), (''term'', JInt (int (leo_term e))),
          (''command_type'', JStr (leo_command_type e)), (''command_details'', JStr (leo_command_details e)),
          (''is_committed'', JBool (leo_is_committed e))]) (rlo_entries out))),
       (''commit_index'', JInt (int (rlo_commit_index out))), (''last_log_index'', JInt (int (rlo_last_log_index out))),
       (''first_available_index'', JInt (int (rlo_first_available_index out)))]"

definition transfer_json :: "transfer_response \<Rightarrow> json" where
  "transfer_json r =
     JObj [(''success'', JBool (tr_success r)), (''message'', JStr (tr_message r)), (''new_leader_id'', JInt (int (tr_new_leader_id r)))]"

definition drain_json :: "drain_response \<Rightarrow> json" where
  "drain_json r = JObj [(''success'', JBool (dr_success r)), (''message'', JStr (dr_message r))]"

section \<open>Commands\<close>

datatype output_format = Table | Json

text \<open>How a run of the tool ends: its output, exit code 1 with the error stream, an error of \<open>main\<close>, or a panic.\<close>

datatype run_result = Ran "string list" | Exited "string list" | Errored string | Panicked

definition render :: "(json \<Rightarrow> string + string) \<Rightarrow> output_format \<Rightarrow> json \<Rightarrow> string list option \<Rightarrow> run_result" where
  "render pretty fmt data table =
     (case fmt of
        Json \<Rightarrow> (case pretty data of Inr s \<Rightarrow> Ran [s] | Inl e \<Rightarrow> Errored e)
      | Table \<Rightarrow> (case table of Some ls \<Rightarrow> Ran ls | None \<Rightarrow> Panicked))"

fun conclude :: "('r \<Rightarrow> run_result) \<Rightarrow> 'r outcome \<Rightarrow> run_result" where
  "conclude f (Printed r) = f r"
| "conclude f (Exit ls) = Exited ls"
| "conclude f (Abort e) = Errored e"

datatype client_command =
    JobSubmit string "string option"
  | JobStatus string
  | JobCancel string
  | JobList bool nat bool list_filters
  | ClusterStatus
  | TransferLeader "node_id option"
  | Drain
  | LogList u64 nat

text \<open>The calls a client makes to a server it is connected to, and what connecting needs.\<close>

record 'c api =
  api_valid_uri :: "string \<Rightarrow> string + unit"
  api_read_file :: "path \<Rightarrow> string + string"
  api_dial :: "string \<Rightarrow> client_tls option \<Rightarrow> string + 'c"
  api_submit :: "'c \<Rightarrow> string \<Rightarrow> string option \<Rightarrow> string + submit_response"
  api_status :: "'c \<Rightarrow> string \<Rightarrow> string + job_status_response"
  api_cancel :: "'c \<Rightarrow> string \<Rightarrow> string + cancel_response"
  api_list :: "'c \<Rightarrow> nat \<Rightarrow> list_jobs_request \<Rightarrow> string + list_jobs_response"
  api_stream :: "'c \<Rightarrow> int \<Rightarrow> string + (string + job_info) list"
  api_cluster :: "'c \<Rightarrow> string + cluster_status_response"
  api_transfer :: "'c \<Rightarrow> node_id \<Rightarrow> string + transfer_response"
  api_drain :: "'c \<Rightarrow> string + drain_response"
  api_log :: "'c \<Rightarrow> u64 \<Rightarrow> nat \<Rightarrow> string + log_entries_response"

definition connect_to :: "'c api \<Rightarrow> client_args \<Rightarrow> string \<Rightarrow> string + 'c" where
  "connect_to A args addr =
     create_channel_with_tls (api_valid_uri A) (api_read_file A) (api_dial A) addr (ca_ca_cert args) (ca_cert args) (ca_key args)"

text \<open>
  The commands of \<open>main\<close> on a connected client; \<open>fuel\<close> bounds the pages that \<open>job list --all\<close> fetches, and \<open>None\<close>
  is a listing that needs more.
\<close>

definition run_command ::
  "nat \<Rightarrow> (json \<Rightarrow> string + string) \<Rightarrow> 'c api \<Rightarrow> output_format \<Rightarrow> client_args \<Rightarrow> 'c \<Rightarrow> client_command \<Rightarrow> run_result option" where
  "run_command fuel pretty A fmt args c cmd =
     (let json = (fmt = Json) in
      case cmd of
        JobSubmit command img \<Rightarrow>
          Some (conclude (\<lambda>r. render pretty fmt (submit_json r) (Some (submit_text r)))
            (handle_job_submit (connect_to A args) (api_submit A) (api_cluster A c) args c command img))
      | JobStatus i \<Rightarrow>
          Some (conclude (\<lambda>r. render pretty fmt (status_json r) (Some (status_text r))) (handle_job_status (api_status A c i)))
      | JobCancel i \<Rightarrow>
          Some (conclude (\<lambda>r. render pretty fmt (cancel_json r) (Some (cancel_text r)))
            (handle_job_cancel (connect_to A args) (api_cancel A) (api_cluster A c) args json c i))
      | JobList stream page_size all f \<Rightarrow>
          map_option (conclude (\<lambda>r. render pretty fmt (jobs_json r) (job_table r)))
            (handle_job_list fuel (api_list A c) (api_stream A c) stream page_size all f)
      | ClusterStatus \<Rightarrow>
          Some (conclude (\<lambda>r. render pretty fmt (cluster_json r) (Some (cluster_table r))) (handle_cluster_status (api_cluster A c)))
      | TransferLeader target \<Rightarrow>
          Some (conclude (\<lambda>r. render pretty fmt (transfer_json r) (Some (transfer_text r)))
            (handle_transfer_leader (api_transfer A c) json target))
      | Drain \<Rightarrow>
          Some (conclude (\<lambda>r. render pretty fmt (drain_json r) (Some (drain_text r))) (handle_drain json (api_drain A c)))
      | LogList start limit \<Rightarrow>
          Some (conclude (\<lambda>r. render pretty fmt (log_json r) (log_table r)) (handle_log_list (api_log A c start limit))))"

definition client_main ::
  "nat \<Rightarrow> (json \<Rightarrow> string + string) \<Rightarrow> 'c api \<Rightarrow> output_format \<Rightarrow> client_args \<Rightarrow> client_command \<Rightarrow> run_result option" where
  "client_main fuel pretty A fmt args cmd =
     (case connect_to A args (ca_addr args) of
        Inl e \<Rightarrow> Some (Errored e)
      | Inr c \<Rightarrow> run_command fuel pretty A fmt args c cmd)"

section \<open>Columns\<close>

lemma char_count_append: "char_count (s @ t) = char_count s + char_count t"
  by (simp add: char_count_def)

lemma char_count_space: "char_count (CHR '' '' # s) = Suc (char_count s)"
  by (simp add: char_count_def continuation_def byte_def)

lemma char_count_ascii: "list_all (\<lambda>c. byte c < 128) s \<Longrightarrow> char_count s = length s"
  by (induction s) (simp_all add: char_count_def continuation_def)

lemma char_count_left: "char_count (left n s) = max n (char_count s)"
proof -
  have "char_count (replicate k (CHR '' '')) = k" for k
    by (rule trans [OF char_count_ascii]) (simp_all add: list_all_iff byte_def)
  then show ?thesis by (simp add: left_def char_count_append)
qed

text \<open>The command of a job stands under its heading, whatever the scripts in which its fields are written.\<close>

lemma job_row_aligned:
  assumes "char_count (jl_job_id j) \<le> 38" and "char_count (jl_status j) \<le> 12" and "char_count (show_nat (jl_assigned_worker j)) \<le> 8"
    and "job_row j = Some row"
  shows "\<exists>pre cmd. row = pre @ cmd \<and> cmd_display (jl_command j) = Some cmd \<and>
    char_count pre = char_count (left 38 ''JOB ID'' @ '' '' @ left 12 ''STATUS'' @ '' '' @ left 8 ''WORKER'' @ '' '')"
proof -
  let ?w = "if 0 < jl_assigned_worker j then show_nat (jl_assigned_worker j) else ''-''"
  let ?pre = "left 38 (jl_job_id j) @ '' '' @ left 12 (jl_status j) @ '' '' @ left 8 ?w @ '' ''"
  have head: "char_count ''JOB ID'' = 6" "char_count ''STATUS'' = 6" "char_count ''WORKER'' = 6" "char_count ''-'' = 1"
    by (simp_all add: char_count_def continuation_def byte_def)
  have "char_count ?pre = char_count (left 38 ''JOB ID'' @ '' '' @ left 12 ''STATUS'' @ '' '' @ left 8 ''WORKER'' @ '' '')"
    using assms(1-3) by (simp add: char_count_append char_count_space char_count_left head max_def)
  moreover from assms(4) obtain cmd where "cmd_display (jl_command j) = Some cmd" "row = ?pre @ cmd" by (auto simp: job_row_def)
  ultimately show ?thesis by blast
qed

section \<open>Panics\<close>

lemma all_rows_None: "all_rows row xs = None \<longleftrightarrow> (\<exists>x \<in> set xs. row x = None)"
  by (induction xs) (auto simp: bind_eq_None_conv)

lemma all_rows_length: "all_rows row xs = Some rs \<Longrightarrow> length rs = length xs"
  by (induction xs arbitrary: rs) (auto simp: bind_eq_Some_conv)

definition cut_inside :: "nat \<Rightarrow> nat \<Rightarrow> string \<Rightarrow> bool" where
  "cut_inside limit keep s \<longleftrightarrow> limit < length s \<and> \<not> is_char_boundary s keep"

lemma shorten_None: "shorten limit keep s = None \<longleftrightarrow> cut_inside limit keep s"
  by (simp add: shorten_def str_prefix_def cut_inside_def)

lemma job_table_None: "job_table out = None \<longleftrightarrow> (\<exists>j \<in> set (jlo_jobs out). cut_inside 20 17 (jl_command j))"
  by (auto simp: job_table_def all_rows_None job_row_def cmd_display_def shorten_None)

lemma log_table_None: "log_table out = None \<longleftrightarrow> (\<exists>e \<in> set (rlo_entries out). cut_inside 30 27 (leo_command_details e))"
  by (auto simp: log_table_def all_rows_None log_row_def details_display_def shorten_None)

lemma render_Panicked: "render pretty fmt data table = Panicked \<longleftrightarrow> fmt = Table \<and> table = None"
  by (auto simp: render_def split: output_format.split sum.split option.split)

lemma conclude_Panicked: "conclude f o1 = Panicked \<longleftrightarrow> (\<exists>r. o1 = Printed r \<and> f r = Panicked)"
  by (cases o1) simp_all

text \<open>C39: When the command line tool crashes. In the JSON format it never does. In the table format it does exactly when a
  job to be listed has a command of more than 20 bytes whose seventeenth byte ends inside a character, or a log entry
  to be listed has details of more than 30 bytes whose twenty-seventh does.\<close>

theorem client_panics_iff:
  "client_main fuel pretty A fmt args cmd = Some Panicked \<longleftrightarrow>
     fmt = Table \<and> (\<exists>c. connect_to A args (ca_addr args) = Inr c \<and>
       ((\<exists>stream page_size all f out. cmd = JobList stream page_size all f \<and>
           handle_job_list fuel (api_list A c) (api_stream A c) stream page_size all f = Some (Printed out) \<and>
           (\<exists>j \<in> set (jlo_jobs out). cut_inside 20 17 (jl_command j))) \<or>
        (\<exists>start limit out. cmd = LogList start limit \<and> handle_log_list (api_log A c start limit) = Printed out \<and>
           (\<exists>e \<in> set (rlo_entries out). cut_inside 30 27 (leo_command_details e)))))"
proof (cases "connect_to A args (ca_addr args)")
  case (Inr c)
  then show ?thesis
    by (cases cmd) (auto simp: client_main_def run_command_def Let_def conclude_Panicked render_Panicked job_table_None log_table_None)
qed (simp add: client_main_def)

end
