(* ===== verification/Servers.thy ===== *)
theory Servers
  imports Dashboard Cluster_Services
begin

text \<open>
  How a node offers its services: the TLS settings made from its identity (\<open>src/tls.rs\<close>), the gRPC server
  (\<open>src/grpc/server.rs\<close>), the routes of the dashboard (\<open>src/dashboard/mod.rs\<close>) and the error type (\<open>src/error.rs\<close>).
  The servers of tonic and axum are given what these definitions say and are not modelled themselves.
\<close>

section \<open>TLS settings\<close>

text \<open>What is set of the builders \<open>ServerTlsConfig\<close> and \<open>ClientTlsConfig\<close>; identities are certificate and key.\<close>

record server_tls_settings =
  st_identity :: "(string \<times> string) option"
  st_client_ca_root :: "string option"

record client_tls_settings =
  ct_domain_name :: "string option"
  ct_ca_certificate :: "string option"
  ct_own_identity :: "(string \<times> string) option"

definition identity_server_tls :: "tls_identity \<Rightarrow> server_tls_settings" where
  "identity_server_tls i = \<lparr>st_identity = Some (id_cert i, id_key i), st_client_ca_root = Some (id_ca_cert i)\<rparr>"

definition identity_client_tls :: "tls_identity \<Rightarrow> client_tls_settings" where
  "identity_client_tls i =
     \<lparr>ct_domain_name = Some ''nomad-lite-cluster'', ct_ca_certificate = Some (id_ca_cert i),
      ct_own_identity = Some (id_cert i, id_key i)\<rparr>"

section \<open>The gRPC server\<close>

datatype grpc_service = RaftService | SchedulerService | InternalService

record grpc_server =
  gs_addr :: socket_addr
  gs_tls :: "server_tls_settings option"
  gs_services :: "grpc_service list"

text \<open>\<open>GrpcServer::run\<close> up to serving; \<open>accept_tls\<close> is the check of the settings by tonic.\<close>

definition grpc_server_setup ::
  "(server_tls_settings \<Rightarrow> string + unit) \<Rightarrow> socket_addr \<Rightarrow> tls_identity option \<Rightarrow> string + grpc_server" where
  "grpc_server_setup accept_tls addr ident =
     and_then (case ident of
         Some i \<Rightarrow> and_then (accept_tls (identity_server_tls i)) (\<lambda>_. Inr (Some (identity_server_tls i)))
       | None \<Rightarrow> Inr None) (\<lambda>t.
     Inr \<lparr>gs_addr = addr, gs_tls = t, gs_services = [RaftService, SchedulerService, InternalService]\<rparr>)"

section \<open>The dashboard's routes\<close>

datatype http_method = GET | POST | DELETE

datatype dash_endpoint = IndexPage | ClusterStatusHandler | ListJobsHandler | SubmitJobHandler | CancelJobHandler | LiveHandler | ReadyHandler

definition dashboard_routes :: "((string \<times> http_method) \<times> dash_endpoint) list" where
  "dashboard_routes =
     [((''/'', GET), IndexPage), ((''/api/cluster'', GET), ClusterStatusHandler), ((''/api/jobs'', GET), ListJobsHandler),
      ((''/api/jobs'', POST), SubmitJobHandler), ((''/api/jobs/:id'', DELETE), CancelJobHandler),
      ((''/health/live'', GET), LiveHandler), ((''/health/ready'', GET), ReadyHandler)]"

definition live_handler :: "http_status \<times> string" where
  "live_handler = (OK, ''ok'')"

section \<open>Errors\<close>

datatype nomad_error =
    NotLeader "node_id option"
  | JobNotFound string
  | WorkerNotFound node_id
  | NoWorkersAvailable
  | RaftError string
  | GrpcError string
  | TransportError string
  | InternalError string

definition show_option_id :: "node_id option \<Rightarrow> string" where
  "show_option_id x = (case x of None \<Rightarrow> ''None'' | Some i \<Rightarrow> ''Some('' @ show_nat i @ '')'')"

fun nomad_error_msg :: "nomad_error \<Rightarrow> string" where
  "nomad_error_msg (NotLeader l) = ''Not the leader, current leader is node '' @ show_option_id l"
| "nomad_error_msg (JobNotFound j) = ''Job not found: '' @ j"
| "nomad_error_msg (WorkerNotFound w) = ''Worker not found: '' @ show_nat w"
| "nomad_error_msg NoWorkersAvailable = ''No workers available''"
| "nomad_error_msg (RaftError e) = ''Raft error: '' @ e"
| "nomad_error_msg (GrpcError e) = ''gRPC error: '' @ e"
| "nomad_error_msg (TransportError e) = ''Transport error: '' @ e"
| "nomad_error_msg (InternalError e) = ''Internal error: '' @ e"

section \<open>Lemmas\<close>

text \<open>Building the router does not panic: no path has two handlers for a method.\<close>

lemma routes_distinct: "distinct (map fst dashboard_routes)"
  by (simp add: dashboard_routes_def)

text \<open>
  A server with an identity demands certificates of its clients and trusts the authority that its own clients
  present; a server without one speaks plain text.
\<close>

lemma grpc_server_tls:
  assumes "grpc_server_setup accept_tls addr ident = Inr g"
  shows "gs_tls g = map_option identity_server_tls ident"
    and "ident = Some i \<Longrightarrow> map_option st_client_ca_root (gs_tls g) = Some (ct_ca_certificate (identity_client_tls j)) \<longleftrightarrow>
      id_ca_cert i = id_ca_cert j"
    and "set (gs_services g) = {RaftService, SchedulerService, InternalService}"
  using assms by (auto simp: grpc_server_setup_def and_then_Inr identity_server_tls_def identity_client_tls_def split: option.splits)

section \<open>Workers in a cluster with TLS\<close>

lemma worker_speaks_plain: "leader_addr r l = Some a \<Longrightarrow> starts_with ''http://'' a"
  by (auto simp: leader_addr_def starts_with_def)


definition plain_follower :: "unit node" where
  "plain_follower = \<lparr>nd_raft = bare_node 2 [1, 3] (raft_new\<lparr>leader_id := Some 1\<rparr>), nd_queue = with_capacity 10,
     nd_assigner = assigner_new 5000, nd_job_notify = False, nd_worker_notify = False, nd_draining = False\<rparr>"


end
