(* ===== verification/Spec2Isabelle.thy ===== *)
theory Spec2Isabelle
  imports Consensus Agreement Interfaces Shutdown System Cli_Output Servers
begin

text \<open>
  A verification of nomad-lite, a distributed job scheduler: every node runs a Raft replica, a scheduler that
  applies the committed log to a queue of jobs, a worker that runs the jobs assigned to it in containers, a
  gRPC server, and an HTTP dashboard; a command line tool starts servers and talks to them. The definitions
  follow the Rust code under \<open>src/\<close> function by function.

  \<^bold>\<open>How the code is rendered.\<close> A struct is a record and an enum a datatype. A \<open>u64\<close> is a natural number; the
  increments the code makes on terms and indices are \<open>u64_inc\<close>, which wraps at \<open>2 ^ 64\<close>, and where a theorem
  needs that they do not wrap it says so with \<open>u64_max\<close>. A \<open>HashMap\<close> is an association list with distinct keys
  (theory \<open>Hash_Map\<close>), a \<open>String\<close> the list of its UTF-8 bytes, a \<open>Uuid\<close> a number, an \<open>Instant\<close> a number of
  nanoseconds, a \<open>DateTime\<close> an integer of nanoseconds. A mutating method takes the old state and returns the new
  one; \<open>Result\<close> is a sum with the error on the left; a panic (of the storage layer, or of slicing a string) is
  \<open>None\<close>. What a function gets from outside is an argument: clock readings, fresh ids, random draws, the
  outcome of dialling, the answers of other nodes, of docker and of the file system. An asynchronous operation
  is split at the points where it gives up the lock on the state, so that other operations can come between.

  \<^bold>\<open>Third-party code\<close> is a parameter with named laws: RocksDB is a record \<open>kv\<close> of its operations (\<open>kv_laws\<close> for
  what reads see of writes, \<open>kv_available\<close> for writes that succeed), serde_json a record \<open>serde\<close> (\<open>serde_laws\<close>,
  decoding inverts encoding), uuid and chrono a record \<open>ext\<close> (\<open>uuid_laws\<close>, \<open>chrono_laws\<close>), the random generator
  a function (\<open>draw_laws\<close>). The laws are met by \<open>kv_mem\<close>, \<open>serde_unary\<close> and \<open>ext_unary\<close>, on which the concrete
  instances of the properties are evaluated.

  \<^bold>\<open>The theories\<close>, each importing those it calls:

    \<^item> \<open>Nomad_Prelude\<close>, \<open>Hash_Map\<close>, \<open>Rust_Str\<close>, \<open>Utf8\<close>, \<open>External\<close>: collections of rewrite rules, the interfaces
      \<open>machine\<close>, \<open>refinement\<close> and \<open>quorums\<close>, hash maps behind the interface \<open>hash_map\<close>, the string functions of the
      Rust library, lossy decoding, the crates uuid and chrono.
    \<^item> \<open>Job\<close>, \<open>Job_Queue\<close>, \<open>Job_Assigner\<close> (\<open>src/scheduler\<close>): jobs and their validation, the queue with its limit,
      the registry of workers and the least-loaded assignment; well-formedness and the effect of each operation.
    \<^item> \<open>Raft_State\<close>, \<open>Raft_Rpc\<close>, \<open>Raft_Handlers\<close>, \<open>Raft_Storage\<close> (\<open>src/raft/state.rs\<close>, \<open>rpc.rs\<close>, \<open>storage.rs\<close>): the
      log with its compacted prefix, the conversions to and from the wire (behind the interface \<open>status_codec\<close>),
      the three message handlers, and the database layout with the refinement of its fields.
    \<^item> \<open>Config\<close> (\<open>src/config.rs\<close>, \<open>src/tls.rs\<close>).
    \<^item> \<open>Raft_Node\<close>, \<open>Raft_Persist\<close>, \<open>Raft_Replication\<close>, \<open>Raft_Votes\<close>, \<open>Raft_Loop\<close> (\<open>src/raft/node.rs\<close>, \<open>timer.rs\<close>): the
      node's operations; that each leaves the database equal to the memory; what elections and replication
      achieve; terms and votes; the branches of the main loop and the timer.
    \<^item> \<open>Cluster\<close>, \<open>Cluster_Runs\<close>, \<open>Log_Matching\<close>, \<open>Replicas\<close>: a set of nodes and the messages between them as a step
      relation over those operations, its invariants for elections and for logs, concrete runs, and what equal logs
      mean for the jobs.
    \<^item> \<open>Committed\<close>, \<open>Agreement\<close>: the runs of the cluster with their answers kept, in which an answer is one that a
      node really gave (\<open>run\<close>, with a flag for the careful ones), the invariant \<open>safe_inv\<close> with one lemma for each kind
      of step, and the properties of committed entries that follow from it.
    \<^item> \<open>Scheduler\<close>, \<open>State_Machine\<close> (\<open>src/node.rs\<close>): start-up, the scheduler loop, and the refinement of applying
      entries to a specification in which neither the node nor its clock occurs.
    \<^item> \<open>Executor\<close>, \<open>Worker_Loop\<close> (\<open>src/worker\<close>, \<open>src/node.rs\<close>): the docker command line and its outcome, and the
      worker loop.
    \<^item> \<open>Client_Service\<close>, \<open>Cluster_Services\<close>, \<open>Dashboard\<close> (\<open>src/grpc\<close>, \<open>src/dashboard\<close>): the request handlers; the two
      ways of submitting a job are interpretations of one interface, \<open>submit_api\<close>.
    \<^item> \<open>Node_Run\<close>, \<open>Running_Node\<close> (\<open>Node::run\<close> of \<open>src/node.rs\<close>, \<open>RaftNode::run\<close>, \<open>src/shutdown.rs\<close>): a running node.
      Its state is the node, the channel to the Raft loop, the answers on their way and where each task stands; each
      task (request handlers, messages of other nodes, Raft loop, scheduler, worker) is a step relation, an instance
      of the interface \<open>task\<close>, and a step of the node is a step of any of them, a signal, or a restart.
    \<^item> \<open>Shutdown\<close> (the end of \<open>Node::run\<close>): its waits for the worker and the loops beside their steps, that every task can
      stop from every state, and what a return without a warning means.
    \<^item> \<open>System\<close>: several running nodes and the messages between them, with elections that ask one peer after the other
      beside everything else; every step is simulated by steps of \<open>Cluster\<close>.
    \<^item> \<open>Servers\<close> (\<open>src/tls.rs\<close>, \<open>src/grpc/server.rs\<close>, the routes of \<open>src/dashboard\<close>, \<open>src/error.rs\<close>): what the servers
      are given.
    \<^item> \<open>Cli\<close>, \<open>Cli_Output\<close> (\<open>src/main.rs\<close>): peer parsing, TLS decisions, server start-up, the client commands, what they
      print, and the dispatch of \<open>main\<close>.
    \<^item> \<open>Consensus\<close>, \<open>Agreement\<close>, \<open>Scheduling\<close>, \<open>Running_Node\<close>, \<open>Interfaces\<close> and this theory: the properties, with a few at the end of
      \<open>Shutdown\<close>, \<open>System\<close>, \<open>Servers\<close> and \<open>Cli_Output\<close>.

  \<^bold>\<open>What is shown.\<close> Of the five guarantees that \<open>src/raft/state.rs\<close> documents: Election Safety, Leader
  Append-Only and, while no log is compacted, Log Matching hold in every run of the step relation, with lost,
  repeated and reordered messages and crashes. Leader Completeness and State Machine Safety hold in the careful runs of
  a cluster of odd size: those in which no request is delivered after a longer one was accepted, a commit index is
  announced only to a node whose log is established up to it, and a leader counts an answer only if it is of its
  term and claims no more than its request established; nodes then get the same jobs from what they have both committed.
  The code does not ensure these conditions, and without them State Machine Safety fails: a run is given in which a
  heartbeat makes two nodes commit different entries at an index, and one in which the answer to an empty request is
  counted for entries the follower does not have. Further,
  a leader commits only entries of its term that half of the cluster, a majority if its size is odd, holds; an
  accepted request makes the follower's log the leader's from its position on. The step relation leaves out two
  operations with which Election Safety fails, and a run with two leaders in a term is given for the step down
  after a leadership transfer. Running nodes whose tasks interleave are such a cluster (\<open>system_refines_cluster\<close>), with the
  same operations left out, so Election Safety and Log Matching hold of them too. Durability: a restart after any operation gives back term, vote, log and
  snapshot. The scheduler: replicas that apply the same entries agree; commits are applied once and in order;
  snapshots restore the jobs they were built from, and a delayed snapshot request makes a node lose jobs. A running node: in every interleaving of its tasks, and across restarts,
  its tables, channel and database stay consistent and jobs only move forward, except for a submission whose handler
  resumes late, which takes its job back; a shutdown can lose results of the leader; without plain text connections
  the worker of a follower is cut off. After a signal no task is stuck, \<open>Node::run\<close> returns when its waits have run out,
  and if it returns without a warning all tasks have stopped and nothing is left to be done.
  Assignment, transfer, draining and paging end. The front ends accept the same requests and answer with the
  right errors, the client finds the leader, and it is known exactly when it panics.

  Lemmas that pin down behaviour that the documentation does not promise stand in the theories of their
  components: for example \<open>duplicate_request_cuts_committed\<close>, \<open>heartbeat_commits_unmatched\<close> (\<open>Raft_Handlers\<close>),
  \<open>even_cluster_commits_with_half\<close>, \<open>heartbeat_answer_goes_back\<close> (\<open>Raft_Replication\<close>), \<open>old_answer_counts\<close> (\<open>Committed\<close>), \<open>crash_before_snapshot_save\<close>
  (\<open>Raft_Persist\<close>), \<open>full_queue_loses_finished\<close> (\<open>State_Machine\<close>) and \<open>shorten_panics\<close> (\<open>Cli\<close>).

  \<^bold>\<open>Bounds.\<close> The assignment loop gets one turn more than there are pending jobs, which is enough, because each
  turn assigns one (\<open>assignment_ends\<close>); the client's page loop needs one turn more than there are jobs
  (\<open>list_all_lists_all\<close>). The waits of a transfer and of a drain run over the list of what their polls see, and end
  when a poll sees the deadline passed; so do the waits of \<open>Node::run\<close> (\<open>run_turns\<close>). Terms and indices in the step relation stay below \<open>2 ^ 64 - 1\<close>.

  \<^bold>\<open>Not modelled\<close>: logging, the HTML page, the parsing of arguments by clap, the writing of JSON, the servers of
  tonic and axum behind the settings and routes they are given, and the timing of the select loops beyond the election
  timer. A panic inside a handler ends the modelled run. The build script only calls the generator of
  the protobuf code, and the module roots only declare modules.
\<close>

text \<open>C22: A job that was accepted is scheduled everywhere. The leader's log has an entry for it at the index it was
  told; that entry, decoded on another node and applied there, creates the same pending job, with its creation
  time cut to milliseconds, unless the queue of that node is full.\<close>

theorem accepted_job_reaches_replicas:
  assumes "uuid_laws X" and "submit_check i now cmd img n = Inr j"
    and "log_wf (rn_state (nd_raft n))" and "last_log_index (rn_state (nd_raft n)) < u64_max"
    and "handle_append_command K C (submit_command j) (nd_raft n) = Some (raft, Inr idx)"
    and "get_job (app_queue a) i = None" and "\<not> is_full (app_queue a)"
  shows "\<exists>e e'. get_entry (rn_state raft) idx = Some e \<and> le_term e = current_term (rn_state (nd_raft n)) \<and>
    proto_to_log_entry X (log_entry_to_proto X e) = Some e' \<and>
    get_job (app_queue (apply_command me simple utc t (le_command e') a)) i = Some (j\<lparr>j_created_at := norm_time X now\<rparr>) \<and>
    j_status j = Pending"
proof -
  let ?s = "rn_state (nd_raft n)"
  let ?e = "snd (append_entry (submit_command j) ?s)"
  from assms(2) have j: "admissible cmd n" "j = new_job i now cmd img" unfolding grpc_submit.check_iff by simp_all
  then have lead: "role ?s = Leader" by (simp add: admissible_def is_leader_def)
  from assms(5) lead have raft: "rn_state raft = fst (append_entry (submit_command j) ?s)" and idx: "idx = le_index ?e"
    by (auto simp: handle_append_command_def append_command_def persist_entry_def Let_def split_beta
        dest!: with_storage_sel(1))
  have e: "get_entry (rn_state raft) idx = Some ?e"
    unfolding raft idx using append_entry_get [OF assms(3,4), of "submit_command j" idx] append_entry_log(4) [OF assms(4), of "submit_command j"]
    by (simp add: idx)
  have c: "le_command ?e = SubmitJob i cmd now (j_image j)" "j_image j \<noteq> Some []"
    using j(2) grpc_submit.accepted_job(5) [OF assms(2)] by (simp_all add: append_entry_log submit_command_def new_job_def job_new_def)
  have "get_job (app_queue (apply_command me simple utc t (le_command (norm_entry X ?e)) a)) i =
      Some (j\<lparr>j_created_at := norm_time X now\<rparr>)"
    using assms(6,7) c j(2)
    by (simp add: norm_entry_def apply_submit_def get_job_add new_job_def job_new_def with_id_def)
  with e log_entry_round_trip [OF assms(1), of ?e] append_entry_log(2) [of "submit_command j" ?s] grpc_submit.accepted_job(2) [OF assms(2)]
  show ?thesis by blast
qed

theorem accepted_job_reaches_replicas_witness:
  "\<exists>e e'. get_entry (fst (append_entry (submit_command (new_job 7 5 ''ls'' None)) (raft_new\<lparr>role := Leader, current_term := 1\<rparr>))) 1 = Some e \<and>
     proto_to_log_entry ext_unary (log_entry_to_proto ext_unary e) = Some e' \<and>
     get_job (app_queue (apply_command 2 (\<lambda>i. []) 0 0 (le_command e') (blank_app 10))) 7 = Some ((new_job 7 5 ''ls'' None)\<lparr>j_created_at := norm_time ext_unary 5\<rparr>)"
proof -
  let ?s = "raft_new\<lparr>role := Leader, current_term := 1\<rparr>" and ?j = "new_job 7 5 ''ls'' None"
  let ?n = "sample_node ?s (with_capacity 10)"
  have v: "validate_command ''ls'' = Inr ()"
    by (simp add: validate_command_def trim_graphic graphic_def byte_def MAX_COMMAND_LEN_def)
  have chk: "submit_check 7 5 ''ls'' None ?n = Inr ?j"
    by (simp add: grpc_submit.check_iff admissible_def v is_leader_def blank_not_full)
  have s: "log_wf (rn_state (nd_raft ?n))" "last_log_index (rn_state (nd_raft ?n)) < u64_max"
    by (simp_all add: log_wf_def raft_new_def last_log_index_def u64_max_def)
  let ?raft = "(nd_raft ?n)\<lparr>rn_state := fst (append_entry (submit_command ?j) ?s)\<rparr>"
  have h: "handle_append_command no_kv serde_unary (submit_command ?j) (nd_raft ?n) = Some (?raft, Inr 1)"
    by (simp add: handle_append_command_def append_command_def persist_entry_def with_storage_def append_entry_def
        last_log_index_def raft_new_def u64_inc_def Let_def)
  have a: "get_job (app_queue (blank_app 10)) 7 = None" "\<not> is_full (app_queue (blank_app 10))"
    by (simp_all add: blank_app_def blank_not_full)
  from accepted_job_reaches_replicas [OF ext_unary_laws(1) chk s h a, of 2 "\<lambda>i. []" 0 0] show ?thesis by auto
qed

text \<open>From the log to the jobs. If the logs of two nodes have entries of the same term at an index, then the two
  nodes, starting from the same jobs with the same limit, get the same jobs from applying their logs up to that
  index, each with its own id and clocks: the same up to the outputs of a job, the time of a cancellation, and times
  cut to milliseconds.\<close>

theorem matching_logs_same_jobs:
  assumes "kv_laws K" and "serde_laws C" and "kv_available K C" and "uuid_laws X" and "chrono_laws X"
    and "reachable_full K C X cf c" and "i \<in> cluster_ids cf" and "j \<in> cluster_ids cf"
    and "get_entry (state_of c i) k = Some e" and "get_entry (state_of c j) k = Some f" and "le_term e = le_term f"
    and "app_wf a" and "app_wf b" and "max_jobs (app_queue a) = max_jobs (app_queue b)"
    and "norm_view X (replica_view (app_queue a)) = norm_view X (replica_view (app_queue b))"
  shows "norm_view X (replica_view (app_queue (apply_entries i simple utc now (take k (rlog (state_of c i))) a))) =
    norm_view X (replica_view (app_queue (apply_entries j simple' utc' now' (take k (rlog (state_of c j))) b)))"
  by (rule same_log_same_jobs [OF assms(12-15) same_prefix [OF assms(1-11)]])

theorem matching_logs_same_jobs_witness:
  "\<exists>c. reachable_full kv_mem serde_unary ext_unary (trio_config 1) c \<and>
     get_entry (state_of c 1) 1 = Some (noop_entry 1 1) \<and> get_entry (state_of c 2) 1 = Some (noop_entry 1 1) \<and>
     norm_view ext_unary (replica_view (app_queue (apply_entries 1 (\<lambda>i. []) 3 0 (take 1 (rlog (state_of c 1))) (blank_app 10)))) =
     norm_view ext_unary (replica_view (app_queue (apply_entries 2 (\<lambda>i. []) 9 0 (take 1 (rlog (state_of c 2))) (blank_app 10))))"
proof -
  from noop_replicated obtain c where r: "reachable_full kv_mem serde_unary ext_unary (trio_config 1) c"
    and e: "get_entry (state_of c 1) 1 = Some (noop_entry 1 1)" "get_entry (state_of c 2) 1 = Some (noop_entry 1 1)" by blast
  have "norm_view ext_unary (replica_view (app_queue (apply_entries 1 (\<lambda>i. []) 3 0 (take 1 (rlog (state_of c 1))) (blank_app 10)))) =
      norm_view ext_unary (replica_view (app_queue (apply_entries 2 (\<lambda>i. []) 9 0 (take 1 (rlog (state_of c 2))) (blank_app 10))))"
    by (rule matching_logs_same_jobs [OF kv_mem_laws serde_unary_laws kv_mem_available ext_unary_laws r _ _ e])
      (simp_all add: blank_app_wf)
  with r e show ?thesis by blast
qed

text \<open>C5: Committed jobs. In such a run two nodes, starting from the same jobs with the same limit, get the same jobs from
  applying their logs up to an index that both have committed, each with its own id and clocks: the same up to the outputs of
  a job, the time of a cancellation, and times cut to milliseconds.\<close>

theorem committed_jobs_agree:
  assumes "kv_laws K" and "serde_laws C" and "kv_available K C" and "uuid_laws X" and "chrono_laws X"
    and "odd (card (cluster_ids cf))" and "run True K C X cf c A" and "i \<in> cluster_ids cf" and "j \<in> cluster_ids cf"
    and "k \<le> commit_index (state_of c i)" and "k \<le> commit_index (state_of c j)"
    and "app_wf a" and "app_wf b" and "max_jobs (app_queue a) = max_jobs (app_queue b)"
    and "norm_view X (replica_view (app_queue a)) = norm_view X (replica_view (app_queue b))"
  shows "norm_view X (replica_view (app_queue (apply_entries i simple utc now (take k (rlog (state_of c i))) a))) =
    norm_view X (replica_view (app_queue (apply_entries j simple' utc' now' (take k (rlog (state_of c j))) b)))"
proof -
  from run_safe [OF assms(7,1-6)] obtain G E where inv: "safe_inv K C X cf c A G E" by blast
  from committed_agree [OF inv assms(8-11)] show ?thesis
    by (intro same_log_same_jobs [OF assms(12-15)]) (simp add: log_of_def take_map)
qed

theorem committed_jobs_agree_witness:
  "\<exists>c A. run True kv_mem serde_unary ext_unary (trio_config 1) c A \<and> commit_index (state_of c 1) = 1 \<and> commit_index (state_of c 2) = 1 \<and>
     norm_view ext_unary (replica_view (app_queue (apply_entries 1 (\<lambda>i. []) 3 0 (take 1 (rlog (state_of c 1))) (blank_app 10)))) =
     norm_view ext_unary (replica_view (app_queue (apply_entries 2 (\<lambda>i. []) 9 0 (take 1 (rlog (state_of c 2))) (blank_app 10))))"
proof -
  obtain c where c: "run True kv_mem serde_unary ext_unary (trio_config 1) c first_answers" "state_of c 1 = leading 1 1 one_entry"
    "state_of c 2 = following 1 one_entry" "odd (card (cluster_ids (trio_config 1)))"
    "1 \<in> cluster_ids (trio_config 1)" "2 \<in> cluster_ids (trio_config 1)" by (rule committed_cluster)
  have k: "commit_index (state_of c 1) = 1" "commit_index (state_of c 2) = 1" unfolding c(2,3) by (simp_all add: leading_def following_def)
  have "norm_view ext_unary (replica_view (app_queue (apply_entries 1 (\<lambda>i. []) 3 0 (take 1 (rlog (state_of c 1))) (blank_app 10)))) =
     norm_view ext_unary (replica_view (app_queue (apply_entries 2 (\<lambda>i. []) 9 0 (take 1 (rlog (state_of c 2))) (blank_app 10))))"
    by (rule committed_jobs_agree [OF kv_mem_laws serde_unary_laws kv_mem_available ext_unary_laws c(4,1,5,6)])
      (use k in \<open>simp_all add: blank_app_wf\<close>)
  with c(1) k show ?thesis by blast
qed

end
